(* ===== verification/Prelude.thy ===== *)
theory Prelude
  imports Main "HOL-Library.Word" "HOL-Library.AList"
begin

text \<open>
  Shared vocabulary of the development: the machine integers of the Rust sources, the I/O error
  type, the result of a call that may panic, and the parts of the Rust standard library the
  components use: \<open>HashMap\<close>/\<open>DashMap\<close> (an association list without duplicate keys),
  \<open>BTreeMap\<close> (an association list with strictly increasing keys), \<open>Vec::swap_remove\<close>,
  \<open>Iterator::position\<close>, \<open>str::rsplit_once\<close>, decimal formatting and \<open>str::parse::<u16>\<close>.
  The interface \<open>finite_map\<close> states the laws both map models promise; its lemmas on folded
  inserts and removes are proved once and used through the two interpretations \<open>hm\<close> and \<open>bt\<close>.
\<close>

text \<open>Two collections of rewrite rules the component proofs share: the laws of the hash map model, and the
  definitions that have to be unfolded to run a spawn.\<close>

named_theorems map_laws \<open>laws of the hash map model\<close>
named_theorems spawning \<open>definitions unfolded to run a spawn\<close>

section \<open>Integers, errors, results\<close>

type_synonym u8 = "8 word"
type_synonym u16 = "16 word"
type_synonym u32 = "32 word"
type_synonym u64 = "64 word"

text \<open>\<open>usize\<close> on the 64-bit targets the crate is built for.\<close>

type_synonym usize = "64 word"

text \<open>A \<open>Duration\<close> and the distance of two \<open>Instant\<close>s, in nanoseconds.\<close>

type_synonym duration = nat

definition secs :: "nat \<Rightarrow> duration" where
  "secs n = n * 1000000000"

definition millis :: "nat \<Rightarrow> duration" where
  "millis n = n * 1000000"

definition as_secs :: "duration \<Rightarrow> nat" where
  "as_secs d = d div 1000000000"

text \<open>\<open>d.as_millis().min(u64::MAX as u128) as u64\<close>: a saturating cast.\<close>

definition as_millis_u64 :: "duration \<Rightarrow> u64" where
  "as_millis_u64 d = of_nat (min (d div 1000000) (2 ^ 64 - 1))"

definition saturating_sub :: "u64 \<Rightarrow> u64 \<Rightarrow> u64" where
  "saturating_sub a b = (if a < b then 0 else a - b)"

datatype io_kind =
    InvalidData | InvalidInput | NotConnected | NotFound | TimedOut | UnexpectedEof | Other
  | OsError nat

datatype io_error = IoError (kind: io_kind) (msg: string)

type_synonym 'a io_result = "io_error + 'a"

text \<open>A call that may panic: \<open>Returns\<close> its value, or \<open>Panics\<close> with the message.\<close>

datatype 'a outcome = Returns 'a | Panics string

text \<open>A loop whose body may panic.\<close>

fun fold_outcome :: "('a \<Rightarrow> 's \<Rightarrow> 's outcome) \<Rightarrow> 'a list \<Rightarrow> 's \<Rightarrow> 's outcome" where
  "fold_outcome f [] s = Returns s"
| "fold_outcome f (x # xs) s =
     (case f x s of Panics e \<Rightarrow> Panics e | Returns s' \<Rightarrow> fold_outcome f xs s')"

section \<open>Vectors and strings\<close>

text \<open>\<open>Vec::swap_remove\<close>: the last element takes the place of the removed one; a panic out of range.\<close>

definition vec_swap_remove :: "nat \<Rightarrow> 'a list \<Rightarrow> ('a \<times> 'a list) option" where
  "vec_swap_remove i xs =
     (if i < length xs then Some (xs ! i, butlast (xs[i := last xs])) else None)"

text \<open>\<open>iter().position(P)\<close>.\<close>

fun position :: "('a \<Rightarrow> bool) \<Rightarrow> 'a list \<Rightarrow> nat option" where
  "position P [] = None"
| "position P (x # xs) = (if P x then Some 0 else map_option Suc (position P xs))"

text \<open>\<open>str::rsplit_once(c)\<close>: split at the last occurrence of \<open>c\<close>.\<close>

definition rsplit_once :: "char \<Rightarrow> string \<Rightarrow> (string \<times> string) option" where
  "rsplit_once c s =
     (case dropWhile (\<lambda>x. x \<noteq> c) (rev s) of
        [] \<Rightarrow> None
      | _ # r \<Rightarrow> Some (rev r, rev (takeWhile (\<lambda>x. x \<noteq> c) (rev s))))"

text \<open>Decimal formatting of an unsigned integer (\<open>format!("{}", n)\<close>).\<close>

definition digit_char :: "nat \<Rightarrow> char" where
  "digit_char d = char_of (48 + d)"

fun show_nat :: "nat \<Rightarrow> string" where
  "show_nat n = (if n < 10 then [digit_char n] else show_nat (n div 10) @ [digit_char (n mod 10)])"

declare show_nat.simps [simp del]

fun hex_digit :: "nat \<Rightarrow> char" where
  "hex_digit d = (if d < 10 then digit_char d else char_of (87 + d))"

text \<open>\<open>{:?}\<close> of a string: quoted, with Rust's escapes.\<close>

definition escape_debug :: "char \<Rightarrow> string" where
  "escape_debug c =
     (let n = of_char c :: nat in
      if n = 0 then [CHR 0x5C, CHR ''0'']
      else if n = 9 then [CHR 0x5C, CHR ''t'']
      else if n = 10 then [CHR 0x5C, CHR ''n'']
      else if n = 13 then [CHR 0x5C, CHR ''r'']
      else if n = 34 \<or> n = 92 then [CHR 0x5C, c]
      else if n < 16 then CHR 0x5C # ''u{'' @ [hex_digit n] @ ''}''
      else if n < 32 \<or> n = 127 then CHR 0x5C # ''u{'' @ [hex_digit (n div 16), hex_digit (n mod 16)] @ ''}''
      else [c])"

definition debug_str :: "string \<Rightarrow> string" where
  "debug_str s = CHR 0x22 # concat (map escape_debug s) @ [CHR 0x22]"

text \<open>
  \<open>str::parse::<u16>\<close>: an optional leading \<open>+\<close>, then at least one decimal digit; any other
  character and any intermediate value above \<open>u16::MAX\<close> is an error (\<open>None\<close>).
\<close>

definition digit_value :: "char \<Rightarrow> nat option" where
  "digit_value c = (let n = of_char c :: nat in if 48 \<le> n \<and> n \<le> 57 then Some (n - 48) else None)"

fun parse_digits_u16 :: "nat \<Rightarrow> string \<Rightarrow> nat option" where
  "parse_digits_u16 acc [] = Some acc"
| "parse_digits_u16 acc (c # cs) =
     (case digit_value c of
        None \<Rightarrow> None
      | Some d \<Rightarrow> if 65535 < acc * 10 + d then None else parse_digits_u16 (acc * 10 + d) cs)"

definition parse_u16 :: "string \<Rightarrow> u16 option" where
  "parse_u16 s =
     (let ds = (case s of [] \<Rightarrow> [] | c # cs \<Rightarrow> if c = CHR ''+'' then cs else s)
      in if ds = [] then None else map_option of_nat (parse_digits_u16 0 ds))"

section \<open>HashMap and BTreeMap\<close>

text \<open>
  A \<open>HashMap\<close> (or \<open>DashMap\<close>) is its list of entries. The list order stands for the iteration
  order, which the standard library leaves unspecified: code that iterates takes the order as a
  parameter where its result depends on it.
\<close>

type_synonym ('k, 'v) hashmap = "('k \<times> 'v) list"

definition hm_get :: "('k, 'v) hashmap \<Rightarrow> 'k \<Rightarrow> 'v option" where
  "hm_get m k = map_of m k"

definition hm_insert :: "'k \<Rightarrow> 'v \<Rightarrow> ('k, 'v) hashmap \<Rightarrow> ('k, 'v) hashmap" where
  "hm_insert k v m = AList.update k v m"

definition hm_remove :: "'k \<Rightarrow> ('k, 'v) hashmap \<Rightarrow> ('k, 'v) hashmap" where
  "hm_remove k m = AList.delete k m"

definition hm_contains_key :: "('k, 'v) hashmap \<Rightarrow> 'k \<Rightarrow> bool" where
  "hm_contains_key m k \<longleftrightarrow> hm_get m k \<noteq> None"

definition hm_keys :: "('k, 'v) hashmap \<Rightarrow> 'k list" where
  "hm_keys m = map fst m"

definition hm_values :: "('k, 'v) hashmap \<Rightarrow> 'v list" where
  "hm_values m = map snd m"

definition hm_inv :: "('k, 'v) hashmap \<Rightarrow> bool" where
  "hm_inv m \<longleftrightarrow> distinct (map fst m)"

text \<open>A \<open>BTreeMap\<close> iterates in key order: its entries, keys strictly increasing.\<close>

type_synonym ('k, 'v) btreemap = "('k \<times> 'v) list"

fun bt_insert :: "'k::linorder \<Rightarrow> 'v \<Rightarrow> ('k, 'v) btreemap \<Rightarrow> ('k, 'v) btreemap" where
  "bt_insert k v [] = [(k, v)]"
| "bt_insert k v ((k', v') # m) =
     (if k < k' then (k, v) # (k', v') # m
      else if k = k' then (k, v) # m
      else (k', v') # bt_insert k v m)"

definition bt_remove :: "'k::linorder \<Rightarrow> ('k, 'v) btreemap \<Rightarrow> ('k, 'v) btreemap" where
  "bt_remove k m = filter (\<lambda>(k', _). k' \<noteq> k) m"

definition bt_get :: "('k::linorder, 'v) btreemap \<Rightarrow> 'k \<Rightarrow> 'v option" where
  "bt_get m k = map_of m k"

definition bt_range_from :: "'k::linorder \<Rightarrow> ('k, 'v) btreemap \<Rightarrow> ('k \<times> 'v) list" where
  "bt_range_from h m = filter (\<lambda>(k, _). h \<le> k) m"

definition bt_range_to :: "'k::linorder \<Rightarrow> ('k, 'v) btreemap \<Rightarrow> ('k \<times> 'v) list" where
  "bt_range_to h m = filter (\<lambda>(k, _). k < h) m"

definition bt_inv :: "('k::linorder, 'v) btreemap \<Rightarrow> bool" where
  "bt_inv m \<longleftrightarrow> sorted_wrt (<) (map fst m)"

section \<open>The finite map interface\<close>

text \<open>
  What every client relies on: a lookup after an insert or a remove, and that both keep the
  invariant. The client lemmas lift the laws to the folds the code writes as loops.
\<close>

locale finite_map =
  fixes get :: "'m \<Rightarrow> 'k \<Rightarrow> 'v option"
    and insert :: "'k \<Rightarrow> 'v \<Rightarrow> 'm \<Rightarrow> 'm"
    and remove :: "'k \<Rightarrow> 'm \<Rightarrow> 'm"
    and empty :: "'m"
    and inv :: "'m \<Rightarrow> bool"
  assumes get_empty: "get empty = Map.empty"
    and inv_empty: "inv empty"
    and get_insert: "inv m \<Longrightarrow> get (insert k v m) = (get m)(k \<mapsto> v)"
    and inv_insert: "inv m \<Longrightarrow> inv (insert k v m)"
    and get_remove: "inv m \<Longrightarrow> get (remove k m) = (get m)(k := None)"
    and inv_remove: "inv m \<Longrightarrow> inv (remove k m)"
begin

lemma inv_fold_insert: "inv m \<Longrightarrow> inv (fold (\<lambda>x. insert (f x) (g x)) xs m)"
  by (induction xs arbitrary: m) (auto simp: inv_insert)

lemma inv_fold_remove: "inv m \<Longrightarrow> inv (fold (\<lambda>x. remove (f x)) xs m)"
  by (induction xs arbitrary: m) (auto simp: inv_remove)

lemma get_fold_insert_const:
  "inv m \<Longrightarrow>
   get (fold (\<lambda>x. insert (f x) v) xs m) = (\<lambda>k. if k \<in> f ` set xs then Some v else get m k)"
  by (induction xs arbitrary: m) (auto simp: inv_insert get_insert fun_eq_iff)

lemma get_fold_insert:
  "inv m \<Longrightarrow>
   get (fold (\<lambda>x. insert (f x) (g x)) xs m) = get m ++ map_of (rev (map (\<lambda>x. (f x, g x)) xs))"
proof (induction xs arbitrary: m)
  case (Cons x xs)
  then show ?case
    by (auto simp: inv_insert get_insert fun_eq_iff map_add_def split: option.splits)
qed simp

lemma get_fold_remove:
  "inv m \<Longrightarrow>
   get (fold (\<lambda>x. remove (f x)) xs m) = (\<lambda>k. if k \<in> f ` set xs then None else get m k)"
  by (induction xs arbitrary: m) (auto simp: inv_remove get_remove fun_eq_iff)

lemma insert_remove_roundtrip:
  "inv m \<Longrightarrow> get m k = None \<Longrightarrow> get (remove k (insert k v m)) = get m"
  by (auto simp: get_insert get_remove inv_insert fun_eq_iff)

end

section \<open>The directory interface\<close>

text \<open>
  A directory keeps one value per key; registering a record replaces the value at its key and may
  panic on a record it rejects (\<open>ok\<close> excludes that), removing a key forgets it. The roster of a
  service, the mesh and the registry of the control plane promise these laws. The client lemmas are
  about the loops that register or remove many entries.
\<close>

locale directory =
  fixes view :: "'s \<Rightarrow> 'k \<Rightarrow> 'v option"
    and inv :: "'s \<Rightarrow> bool"
    and put :: "'r \<Rightarrow> 's \<Rightarrow> 's outcome"
    and del :: "'k \<Rightarrow> 's \<Rightarrow> 's outcome"
    and ok :: "'r \<Rightarrow> bool"
    and key :: "'r \<Rightarrow> 'k"
    and val :: "'r \<Rightarrow> 'v"
  assumes put_ok: "inv s \<Longrightarrow> ok r \<Longrightarrow> \<exists>s'. put r s = Returns s' \<and> inv s' \<and> view s' = (view s)(key r \<mapsto> val r)"
    and del_ok: "inv s \<Longrightarrow> \<exists>s'. del k s = Returns s' \<and> inv s' \<and> view s' = (view s)(k := None)"
begin

lemma put_all:
  "inv s \<Longrightarrow> \<forall>r \<in> set rs. ok r \<Longrightarrow>
   \<exists>s'. fold_outcome put rs s = Returns s' \<and> inv s'
     \<and> view s' = view s ++ map_of (rev (map (\<lambda>r. (key r, val r)) rs))"
proof (induction rs arbitrary: s)
  case (Cons r rs)
  obtain s1 where s1: "put r s = Returns s1" "inv s1" "view s1 = (view s)(key r \<mapsto> val r)"
    using put_ok [of s r] Cons.prems by auto
  obtain s2 where s2: "fold_outcome put rs s1 = Returns s2" "inv s2"
    "view s2 = view s1 ++ map_of (rev (map (\<lambda>r. (key r, val r)) rs))"
    using Cons.IH [OF s1(2)] Cons.prems by auto
  have "view s2 = view s ++ map_of (rev (map (\<lambda>r. (key r, val r)) (r # rs)))"
    unfolding s2(3) s1(3) by (auto simp: fun_eq_iff map_add_def split: option.splits)
  then show ?case using s1(1) s2(1,2) by simp
qed simp

lemma del_all:
  "inv s \<Longrightarrow>
   \<exists>s'. fold_outcome del ks s = Returns s' \<and> inv s' \<and> view s' = (view s) |` (- set ks)"
proof (induction ks arbitrary: s)
  case (Cons k ks)
  obtain s1 where s1: "del k s = Returns s1" "inv s1" "view s1 = (view s)(k := None)"
    using del_ok [of s k] Cons.prems by auto
  obtain s2 where s2: "fold_outcome del ks s1 = Returns s2" "inv s2" "view s2 = (view s1) |` (- set ks)"
    using Cons.IH [OF s1(2)] by auto
  have "view s2 = (view s) |` (- set (k # ks))"
    unfolding s2(3) s1(3) by (auto simp: restrict_map_def fun_eq_iff)
  then show ?case using s1(1) s2(1,2) by simp
qed (simp add: restrict_map_def)

end

section \<open>The transition system interface\<close>

text \<open>
  A step relation that keeps an invariant, and one that under the invariant also keeps a quantity. The
  actors, the dispatch of a node, a served actor and the supervisor task promise these laws; the client
  lemmas are about whole runs.
\<close>

locale step_invariant =
  fixes step :: "'s \<Rightarrow> 's \<Rightarrow> bool"
    and inv :: "'s \<Rightarrow> bool"
  assumes step_inv: "inv s \<Longrightarrow> step s s' \<Longrightarrow> inv s'"
begin

lemma steps_inv: "step\<^sup>*\<^sup>* s s' \<Longrightarrow> inv s \<Longrightarrow> inv s'"
  by (induction rule: rtranclp_induct) (auto dest: step_inv)

end

locale conserving = step_invariant step inv
  for step :: "'s \<Rightarrow> 's \<Rightarrow> bool" and inv :: "'s \<Rightarrow> bool" +
  fixes quantity :: "'s \<Rightarrow> 'q"
  assumes step_quantity: "inv s \<Longrightarrow> step s s' \<Longrightarrow> quantity s' = quantity s"
begin

lemma steps_quantity: "step\<^sup>*\<^sup>* s s' \<Longrightarrow> inv s \<Longrightarrow> quantity s' = quantity s"
proof (induction rule: rtranclp_induct)
  case (step s' s'')
  then show ?case using steps_inv step_quantity by metis
qed simp

end

text \<open>A relation whose every step costs some of a potential: its runs are bounded and end.\<close>

locale terminating =
  fixes step :: "'s \<Rightarrow> 's \<Rightarrow> bool"
    and potential :: "'s \<Rightarrow> nat"
  assumes step_costs: "step s s' \<Longrightarrow> potential s' < potential s"
begin

lemma run_bound: "(step ^^ k) s s' \<Longrightarrow> k + potential s' \<le> potential s"
proof (induction k arbitrary: s')
  case (Suc k)
  then obtain s1 where "(step ^^ k) s s1" "step s1 s'" by auto
  with Suc.IH [of s1] step_costs [of s1 s'] show ?case by simp
qed simp

lemma wf: "wfp (\<lambda>s' s. step s s')"
  by (rule wfp_if_convertible_to_nat [of _ potential]) (rule step_costs)

lemma comes_to_rest: "\<exists>s'. step\<^sup>*\<^sup>* s s' \<and> (\<forall>s''. \<not> step s' s'')"
  using wf
proof (induction s rule: wfp_induct_rule)
  case (less s)
  then show ?case by (meson converse_rtranclp_into_rtranclp rtranclp.rtrancl_refl)
qed

end

lemma map_of_bt_insert: "map_of (bt_insert k v m) = (map_of m)(k \<mapsto> v)"
  by (induction m) (auto simp: fun_eq_iff)

lemma set_keys_bt_insert: "set (map fst (bt_insert k v m)) = insert k (set (map fst m))"
proof (induction m)
  case (Cons a m)
  then show ?case by (cases a) (auto simp del: set_map)
qed simp

lemma bt_inv_insert: "bt_inv m \<Longrightarrow> bt_inv (bt_insert k v m)"
proof (induction m)
  case (Cons a m)
  obtain k' v' where a: "a = (k', v')" by (cases a)
  from Cons.prems a have m: "bt_inv m" and lt: "\<forall>x \<in> set (map fst m). k' < x"
    by (auto simp: bt_inv_def)
  from Cons.IH [OF m] lt show ?case
    using Cons.prems a set_keys_bt_insert [of k v m]
    by (auto simp: bt_inv_def simp del: set_map intro: less_trans)
qed (simp add: bt_inv_def)

lemma map_of_bt_remove: "map_of (bt_remove k m) = (map_of m)(k := None)"
  by (induction m) (auto simp: bt_remove_def fun_eq_iff)

lemma bt_inv_filter: "bt_inv m \<Longrightarrow> bt_inv (filter P m)"
  unfolding bt_inv_def by (simp add: sorted_wrt_map sorted_wrt_filter)

interpretation hm: finite_map hm_get hm_insert hm_remove "[]" hm_inv
  by unfold_locales
    (auto simp: hm_get_def hm_insert_def hm_remove_def hm_inv_def update_conv' delete_conv'
      distinct_update distinct_delete fun_eq_iff)

lemmas [map_laws] = hm.get_empty hm.inv_empty hm.get_insert hm.inv_insert hm.get_remove hm.inv_remove

interpretation bt: finite_map bt_get bt_insert bt_remove "[]" bt_inv
  by unfold_locales
    (auto simp: bt_get_def map_of_bt_insert map_of_bt_remove bt_inv_insert bt_remove_def
      bt_inv_filter fun_eq_iff bt_inv_def [of "[]"] map_of_bt_remove [unfolded bt_remove_def])

section \<open>Lemmas on strings, vectors and maps\<close>

lemma rsplit_once_last: "c \<notin> set b \<Longrightarrow> rsplit_once c (a @ c # b) = Some (a, b)"
  by (auto simp: rsplit_once_def dropWhile_append takeWhile_append)

lemma rsplit_once_None: "rsplit_once c s = None \<longleftrightarrow> c \<notin> set s"
proof -
  have "dropWhile (\<lambda>x. x \<noteq> c) (rev s) = [] \<longleftrightarrow> c \<notin> set s" by auto
  then show ?thesis
    by (cases "dropWhile (\<lambda>x. x \<noteq> c) (rev s)") (simp_all add: rsplit_once_def del: dropWhile_eq_Nil_conv)
qed

lemma rsplit_once_Some:
  assumes "rsplit_once c s = Some (a, b)"
  shows "s = a @ c # b \<and> c \<notin> set b"
proof -
  from assms obtain x r where d: "dropWhile (\<lambda>x. x \<noteq> c) (rev s) = x # r"
    and ab: "a = rev r" "b = rev (takeWhile (\<lambda>x. x \<noteq> c) (rev s))"
    by (auto simp: rsplit_once_def split: list.splits)
  have x: "x = c" using hd_dropWhile [of "\<lambda>x. x \<noteq> c" "rev s"] d by simp
  have "rev s = takeWhile (\<lambda>x. x \<noteq> c) (rev s) @ c # r"
    using takeWhile_dropWhile_id [of "\<lambda>x. x \<noteq> c" "rev s"] d x by simp
  then have "s = rev (takeWhile (\<lambda>x. x \<noteq> c) (rev s) @ c # r)"
    by (metis rev_rev_ident)
  with ab show ?thesis by (auto dest: set_takeWhileD)
qed

lemma digit_value_digit_char: "d < 10 \<Longrightarrow> digit_value (digit_char d) = Some d"
  by (simp add: digit_value_def digit_char_def Let_def)

lemma digit_char_range: "d < 10 \<Longrightarrow> of_char (digit_char d) = 48 + d"
  by (simp add: digit_char_def)

lemma show_nat_digits: "c \<in> set (show_nat n) \<Longrightarrow> \<exists>d < 10. c = digit_char d"
proof (induction n rule: show_nat.induct)
  case (1 n)
  then show ?case
    by (cases "n < 10") (auto simp: show_nat.simps [of n] intro: exI [of _ "n mod 10"])
qed

lemma show_nat_Nil [simp]: "show_nat n \<noteq> []" "[] \<noteq> show_nat n"
  by (subst show_nat.simps, simp)+

lemma digit_char_neq: "d < 10 \<Longrightarrow> of_char c < (48::nat) \<or> (57::nat) < of_char c \<Longrightarrow> digit_char d \<noteq> c"
  using digit_char_range [of d] by auto

lemma show_nat_no_colon [simp]: "CHR '':'' \<notin> set (show_nat n)"
proof
  assume "CHR '':'' \<in> set (show_nat n)"
  then obtain d where d: "d < 10" and eq: "CHR '':'' = digit_char d"
    using show_nat_digits by blast
  from d have "digit_char d \<noteq> CHR '':''" by (rule digit_char_neq) simp
  with eq show False by simp
qed

lemma show_nat_no_plus: "CHR ''+'' \<notin> set (show_nat n)"
proof
  assume "CHR ''+'' \<in> set (show_nat n)"
  then obtain d where d: "d < 10" and eq: "CHR ''+'' = digit_char d"
    using show_nat_digits by blast
  from d have "digit_char d \<noteq> CHR ''+''" by (rule digit_char_neq) simp
  with eq show False by simp
qed

lemma parse_digits_append:
  "parse_digits_u16 a (xs @ ys) = Option.bind (parse_digits_u16 a xs) (\<lambda>b. parse_digits_u16 b ys)"
  by (induction a xs rule: parse_digits_u16.induct) (auto split: option.splits)

lemma parse_digits_show: "n \<le> 65535 \<Longrightarrow> parse_digits_u16 0 (show_nat n) = Some n"
proof (induction n rule: show_nat.induct)
  case (1 n)
  show ?case
  proof (cases "n < 10")
    case True
    with "1.prems" show ?thesis
      by (simp add: show_nat.simps [of n] digit_value_digit_char)
  next
    case False
    with "1" have "parse_digits_u16 0 (show_nat (n div 10)) = Some (n div 10)" by simp
    moreover have "n div 10 * 10 + n mod 10 = n" by simp
    ultimately show ?thesis using False "1.prems"
      by (simp add: show_nat.simps [of n] parse_digits_append digit_value_digit_char)
  qed
qed

lemma unat_u16_le: "unat (p :: u16) \<le> 65535"
  using unsigned_less [of p, where ?'a = nat] by simp

lemma parse_u16_show: "parse_u16 (show_nat (unat p)) = Some p"
proof -
  have "hd (show_nat (unat p)) \<noteq> CHR ''+''"
    using show_nat_no_plus [of "unat p"] hd_in_set [OF show_nat_Nil(1) [of "unat p"]] by metis
  then show ?thesis
    using parse_digits_show [OF unat_u16_le [of p]]
    by (auto simp: parse_u16_def Let_def split: list.splits)
qed

lemma show_nat_inj: "show_nat m = show_nat n \<Longrightarrow> m = n"
proof (induction m arbitrary: n rule: show_nat.induct)
  case (1 m)
  have dc: "digit_char a = digit_char b \<Longrightarrow> a < 10 \<Longrightarrow> b < 10 \<Longrightarrow> a = b" for a b
    using digit_value_digit_char by (metis option.inject)
  show ?case
  proof (cases "m < 10"; cases "n < 10")
    assume "m < 10" "n < 10"
    then show ?thesis using "1.prems" dc [of m n] by (simp add: show_nat.simps [of m] show_nat.simps [of n])
  next
    assume "m < 10" "\<not> n < 10"
    then show ?thesis using "1.prems" by (simp add: show_nat.simps [of m] show_nat.simps [of n])
  next
    assume "\<not> m < 10" "n < 10"
    then show ?thesis using "1.prems" by (simp add: show_nat.simps [of m] show_nat.simps [of n])
  next
    assume mn: "\<not> m < 10" "\<not> n < 10"
    then have "show_nat (m div 10) = show_nat (n div 10)" and "digit_char (m mod 10) = digit_char (n mod 10)"
      using "1.prems" by (simp_all add: show_nat.simps [of m] show_nat.simps [of n])
    then have "m div 10 = n div 10" and "m mod 10 = n mod 10"
      using "1.IH" mn(1) dc [of "m mod 10" "n mod 10"] by auto
    then show ?thesis by (metis div_mult_mod_eq)
  qed
qed

lemma bt_get_in_set: "bt_inv m \<Longrightarrow> bt_get m k = Some v \<longleftrightarrow> (k, v) \<in> set m"
  unfolding bt_get_def bt_inv_def
  by (metis map_of_eq_Some_iff strict_sorted_iff)

lemma hm_get_in_set: "hm_inv m \<Longrightarrow> hm_get m k = Some v \<longleftrightarrow> (k, v) \<in> set m"
  by (simp add: hm_get_def hm_inv_def)

lemma bt_ext: "bt_inv m \<Longrightarrow> bt_inv n \<Longrightarrow> bt_get m = bt_get n \<Longrightarrow> m = n"
proof -
  assume inv: "bt_inv m" "bt_inv n" and eq: "bt_get m = bt_get n"
  then have s: "set m = set n" by (auto simp flip: bt_get_in_set)
  then have "map fst m = map fst n"
    using inv unfolding bt_inv_def by (metis set_map strict_sorted_equal)
  moreover have "inj_on fst (set m \<union> set n)"
    using s inv unfolding bt_inv_def
    by (metis Un_absorb distinct_map strict_sorted_iff)
  ultimately show "m = n" by (rule map_inj_on)
qed

lemma hm_keys_set: "set (hm_keys m) = dom (hm_get m)"
  unfolding hm_keys_def hm_get_def [abs_def] by (simp add: dom_map_of_conv_image_fst)

lemma hm_insert_new: "hm_get m k = None \<Longrightarrow> hm_insert k v m = m @ [(k, v)]"
  unfolding hm_get_def hm_insert_def by (induction m) (auto split: if_splits)

lemma hm_remove_absent: "hm_get m k = None \<Longrightarrow> hm_remove k m = m"
  unfolding hm_get_def hm_remove_def by (induction m) (auto split: if_splits)

lemma hm_remove_insert_new: "hm_get m k = None \<Longrightarrow> hm_remove k (hm_insert k v m) = m"
  unfolding hm_get_def hm_insert_def hm_remove_def by (induction m) (auto split: if_splits)

lemma position_Some:
  "position P xs = Some i \<Longrightarrow> i < length xs \<and> P (xs ! i) \<and> (\<forall>j < i. \<not> P (xs ! j))"
proof (induction xs arbitrary: i)
  case (Cons x xs)
  then show ?case
    by (cases i) (auto split: if_splits simp: less_Suc_eq_0_disj)
qed simp

lemma position_None: "position P xs = None \<longleftrightarrow> (\<forall>x \<in> set xs. \<not> P x)"
  by (induction xs) auto

lemma u64_less_inc: "(x :: u64) + 1 \<noteq> 0 \<Longrightarrow> x < x + 1 \<and> (y < x \<longrightarrow> y < x + 1)"
proof -
  assume "x + 1 \<noteq> 0"
  then have "unat (x + 1) = Suc (unat x)" by (simp add: unatSuc add.commute)
  then show ?thesis by (auto simp: word_less_nat_alt)
qed

lemma as_millis_mono: "d \<le> d' \<Longrightarrow> as_millis_u64 d \<le> as_millis_u64 d'"
proof -
  assume "d \<le> d'"
  then have le: "min (d div 1000000) (2 ^ 64 - 1) \<le> min (d' div 1000000) (2 ^ 64 - 1)"
    by (intro min.mono div_le_mono) simp_all
  have "unat (of_nat (min x (2 ^ 64 - 1)) :: u64) = min x (2 ^ 64 - 1)" for x
    by (simp add: unat_of_nat take_bit_nat_eq_self min_def)
  then show ?thesis using le by (simp add: as_millis_u64_def word_le_nat_alt)
qed

end
