(* ===== verification/Monitor.thy ===== *)
theory Monitor
  imports Prelude
begin

text \<open>
  \<open>src/monitor.rs\<close>: the counters kept per actor. They are 64-bit atomics, so every addition and
  subtraction wraps. The compare-and-exchange loop that keeps the maximum is modelled with the
  values other threads may have stored between its load and its exchange.
\<close>

type_synonym ActorId = u64

record StatsCell =
  messages_handled :: u64
  handle_errors :: u64
  panics :: u64
  handle_timeouts :: u64
  in_flight :: u64
  last_handle_ms :: u64
  max_handle_ms :: u64
  slow_handles :: u64

definition StatsCell_new :: StatsCell where
  "StatsCell_new =
     \<lparr>messages_handled = 0, handle_errors = 0, panics = 0, handle_timeouts = 0, in_flight = 0,
      last_handle_ms = 0, max_handle_ms = 0, slow_handles = 0\<rparr>"

record ActorStats =
  actor_id :: ActorId
  stats :: StatsCell

definition snapshot :: "StatsCell \<Rightarrow> ActorId \<Rightarrow> ActorStats" where
  "snapshot c i = \<lparr>actor_id = i, stats = c\<rparr>"

type_synonym ActorMonitor = "(ActorId, StatsCell) hashmap"

definition monitor_new :: ActorMonitor where
  "monitor_new = []"

definition monitor_default :: ActorMonitor where
  "monitor_default = monitor_new"

definition mon_register :: "ActorId \<Rightarrow> ActorMonitor \<Rightarrow> ActorMonitor" where
  "mon_register i m = (case hm_get m i of Some _ \<Rightarrow> m | None \<Rightarrow> hm_insert i StatsCell_new m)"

definition mon_unregister :: "ActorId \<Rightarrow> ActorMonitor \<Rightarrow> ActorMonitor" where
  "mon_unregister i m = hm_remove i m"

text \<open>\<open>if let Some(cell) = self.cells.get(&id)\<close>: an update of the cell, if there is one.\<close>

definition with_cell :: "ActorId \<Rightarrow> (StatsCell \<Rightarrow> StatsCell) \<Rightarrow> ActorMonitor \<Rightarrow> ActorMonitor" where
  "with_cell i f m = (case hm_get m i of None \<Rightarrow> m | Some c \<Rightarrow> hm_insert i (f c) m)"

definition mark_inactive :: "ActorId \<Rightarrow> ActorMonitor \<Rightarrow> ActorMonitor" where
  "mark_inactive i = with_cell i (\<lambda>c. c\<lparr>in_flight := 0\<rparr>)"

definition mon_get :: "ActorMonitor \<Rightarrow> ActorId \<Rightarrow> ActorStats option" where
  "mon_get m i = map_option (\<lambda>c. snapshot c i) (hm_get m i)"

text \<open>\<open>all\<close>: collected in the iteration order \<open>ord\<close>, then sorted by id (a stable sort).\<close>

definition mon_all ::
  "((ActorId \<times> StatsCell) list \<Rightarrow> (ActorId \<times> StatsCell) list) \<Rightarrow> ActorMonitor \<Rightarrow> ActorStats list" where
  "mon_all ord m = sort_key actor_id (map (\<lambda>(i, c). snapshot c i) (ord m))"

definition begin_handle :: "ActorId \<Rightarrow> ActorMonitor \<Rightarrow> ActorMonitor" where
  "begin_handle i = with_cell i (\<lambda>c. c\<lparr>in_flight := in_flight c + 1\<rparr>)"

text \<open>The loop on \<open>max_handle_ms\<close>: \<open>cur\<close> is the value loaded, each element of the list a value some
  other thread stored before the exchange; with none left the exchange succeeds.\<close>

fun cas_max :: "u64 \<Rightarrow> u64 \<Rightarrow> u64 list \<Rightarrow> u64" where
  "cas_max ms cur [] = (if ms \<le> cur then cur else ms)"
| "cas_max ms cur (v # vs) =
     (if ms \<le> cur then cur else if v = cur then ms else cas_max ms v vs)"

definition finish_cell :: "duration \<Rightarrow> duration option \<Rightarrow> u64 list \<Rightarrow> StatsCell \<Rightarrow> StatsCell" where
  "finish_cell elapsed slow_threshold races c =
     (let ms = as_millis_u64 elapsed;
          c1 = c\<lparr>in_flight := in_flight c - 1\<rparr>;
          c2 = c1\<lparr>messages_handled := messages_handled c1 + 1\<rparr>;
          c3 = c2\<lparr>last_handle_ms := ms\<rparr>;
          c4 = c3\<lparr>max_handle_ms := cas_max ms (max_handle_ms c3) races\<rparr>
      in if (case slow_threshold of Some t \<Rightarrow> t < elapsed | None \<Rightarrow> False)
         then c4\<lparr>slow_handles := slow_handles c4 + 1\<rparr> else c4)"

definition finish_handle ::
  "ActorId \<Rightarrow> duration \<Rightarrow> duration option \<Rightarrow> u64 list \<Rightarrow> ActorMonitor \<Rightarrow> ActorMonitor" where
  "finish_handle i elapsed slow_threshold races = with_cell i (finish_cell elapsed slow_threshold races)"

definition record_error :: "ActorId \<Rightarrow> ActorMonitor \<Rightarrow> ActorMonitor" where
  "record_error i = with_cell i (\<lambda>c. c\<lparr>handle_errors := handle_errors c + 1, in_flight := in_flight c - 1\<rparr>)"

definition record_panic :: "ActorId \<Rightarrow> ActorMonitor \<Rightarrow> ActorMonitor" where
  "record_panic i = with_cell i (\<lambda>c. c\<lparr>panics := panics c + 1, in_flight := in_flight c - 1\<rparr>)"

definition record_timeout :: "ActorId \<Rightarrow> duration \<Rightarrow> ActorMonitor \<Rightarrow> ActorMonitor" where
  "record_timeout i elapsed =
     with_cell i (\<lambda>c. c\<lparr>handle_timeouts := handle_timeouts c + 1, in_flight := in_flight c - 1,
                       last_handle_ms := as_millis_u64 elapsed\<rparr>)"

section \<open>Lemmas\<close>

lemma with_cell_inv: "hm_inv m \<Longrightarrow> hm_inv (with_cell i f m)"
  by (auto simp: with_cell_def hm.inv_insert split: option.splits)

lemma with_cell_get:
  "hm_inv m \<Longrightarrow> hm_get (with_cell i f m) j = (if j = i then map_option f (hm_get m j) else hm_get m j)"
  by (auto simp: with_cell_def hm.get_insert split: option.splits)

lemma mon_register_inv: "hm_inv m \<Longrightarrow> hm_inv (mon_register i m)"
  by (auto simp: mon_register_def hm.inv_insert split: option.splits)

lemma mon_register_get:
  "hm_inv m \<Longrightarrow> hm_get (mon_register i m) j =
     (if j = i \<and> hm_get m i = None then Some StatsCell_new else hm_get m j)"
  by (auto simp: mon_register_def hm.get_insert split: option.splits)

lemmas monitor_ops = mark_inactive_def begin_handle_def finish_handle_def record_error_def
  record_panic_def record_timeout_def

text \<open>The loop ends at the maximum of its own value and the last value it loaded, and never lowers
  what it loads.\<close>

lemma cas_max_ge: "ms \<le> cas_max ms cur vs"
  by (induction ms cur vs rule: cas_max.induct) (auto simp: not_le)

lemma cas_max_cases: "cas_max ms cur vs = ms \<or> cas_max ms cur vs \<in> insert cur (set vs)"
  by (induction ms cur vs rule: cas_max.induct) auto

lemma cas_max_quiet [simp]: "cas_max ms cur [] = max ms cur"
  by (simp add: max_def)

end
