(* ===== verification/Registry.thy ===== *)
theory Registry
  imports Monitor
begin

text \<open>
  \<open>src/registry.rs\<close>: the process-wide index from actor ids to their control channel and the
  supervisor channel they report to. A control sender is named by the id of the actor that receives
  on it; a supervisor channel by a number.
\<close>

record ActorEntry =
  control_of :: ActorId
  supervisor_of :: "nat option"

type_synonym Actors = "(ActorId, ActorEntry) hashmap"

definition register_actor :: "ActorId \<Rightarrow> ActorId \<Rightarrow> nat option \<Rightarrow> Actors \<Rightarrow> Actors" where
  "register_actor i ctl sv acts = hm_insert i \<lparr>control_of = ctl, supervisor_of = sv\<rparr> acts"

definition unregister_actor :: "ActorId \<Rightarrow> Actors \<Rightarrow> Actors" where
  "unregister_actor i acts = hm_remove i acts"

definition get_control_sender :: "ActorId \<Rightarrow> Actors \<Rightarrow> ActorId option" where
  "get_control_sender i acts = map_option control_of (hm_get acts i)"

definition get_supervisor_sender :: "ActorId \<Rightarrow> Actors \<Rightarrow> nat option" where
  "get_supervisor_sender i acts = Option.bind (hm_get acts i) supervisor_of"

definition actor_count :: "Actors \<Rightarrow> nat" where
  "actor_count acts = length acts"

definition registered_ids :: "(ActorId list \<Rightarrow> ActorId list) \<Rightarrow> Actors \<Rightarrow> ActorId list" where
  "registered_ids ord acts = ord (hm_keys acts)"

end
