(* ===== verification/Config.thy ===== *)
theory Config
  imports Prelude
begin

text \<open>
  \<open>src/config.rs\<close>: the tuning records with their defaults, the slow-handle threshold, and the
  construction of a dedicated runtime. The Tokio builder is third-party code: building is the
  parameter \<open>build\<close>; what the code configures on the builder is the record \<open>RuntimeBuilder\<close>.
\<close>

record ActorConfig =
  mailbox_capacity :: nat
  handle_timeout :: "duration option"
  slow_handle_threshold :: "duration option"

definition ActorConfig_default :: ActorConfig where
  "ActorConfig_default =
     \<lparr>mailbox_capacity = 64, handle_timeout = None, slow_handle_threshold = None\<rparr>"

definition effective_slow_threshold :: "ActorConfig \<Rightarrow> duration option" where
  "effective_slow_threshold c =
     (case slow_handle_threshold c of Some t \<Rightarrow> Some t | None \<Rightarrow> handle_timeout c)"

record DistributedConfig =
  bridge_capacity :: nat
  max_in_flight :: nat
  max_frame_bytes :: u32
  read_timeout :: duration
  remote_send_capacity :: nat

definition DistributedConfig_default :: DistributedConfig where
  "DistributedConfig_default =
     \<lparr>bridge_capacity = 32, max_in_flight = 32, max_frame_bytes = 4 * 1024 * 1024,
      read_timeout = secs 30, remote_send_capacity = 32\<rparr>"

record RuntimeOptions =
  worker_threads :: "nat option"

text \<open>What \<open>build_multi_thread_runtime\<close> sets on Tokio's builder before it calls \<open>build\<close>.\<close>

record RuntimeBuilder =
  all_enabled :: bool
  builder_threads :: "nat option"

text \<open>\<open>Builder::worker_threads\<close> panics on 0, as Tokio documents.\<close>

definition builder_worker_threads :: "nat \<Rightarrow> RuntimeBuilder \<Rightarrow> RuntimeBuilder outcome" where
  "builder_worker_threads n b =
     (if n = 0 then Panics ''Worker threads cannot be set to 0''
      else Returns (b\<lparr>builder_threads := Some n\<rparr>))"

definition build_multi_thread_runtime ::
  "(RuntimeBuilder \<Rightarrow> 'rt io_result) \<Rightarrow> nat option \<Rightarrow> 'rt io_result outcome" where
  "build_multi_thread_runtime build wt =
     (let builder = \<lparr>all_enabled = True, builder_threads = None\<rparr>
      in case wt of
           Some n \<Rightarrow> (case builder_worker_threads n builder of
                        Panics e \<Rightarrow> Panics e
                      | Returns b \<Rightarrow> Returns (build b))
         | None \<Rightarrow> Returns (build builder))"

record 'rt DedicatedRuntime =
  inner :: 'rt

definition DedicatedRuntime_new ::
  "(RuntimeBuilder \<Rightarrow> 'rt io_result) \<Rightarrow> RuntimeOptions \<Rightarrow> 'rt DedicatedRuntime io_result outcome" where
  "DedicatedRuntime_new build options =
     (case build_multi_thread_runtime build (worker_threads options) of
        Panics e \<Rightarrow> Panics e
      | Returns (Inl e) \<Rightarrow> Returns (Inl e)
      | Returns (Inr rt) \<Rightarrow> Returns (Inr \<lparr>inner = rt\<rparr>))"

text \<open>\<open>spawn_on\<close>: the runtime the task runs on.\<close>

definition spawn_on :: "'rt option \<Rightarrow> 'rt \<Rightarrow> 'rt" where
  "spawn_on runtime current = (case runtime of Some h \<Rightarrow> h | None \<Rightarrow> current)"

text \<open>\<open>tokio::sync::mpsc::channel\<close> panics on a zero capacity, as Tokio documents.\<close>

definition mpsc_capacity :: "nat \<Rightarrow> nat outcome" where
  "mpsc_capacity n =
     (if n = 0 then Panics ''mpsc bounded channel requires buffer > 0'' else Returns n)"

lemma mpsc_capacity_default [simp]: "mpsc_capacity (mailbox_capacity ActorConfig_default) = Returns 64"
  by (simp add: mpsc_capacity_def ActorConfig_default_def)

section \<open>Bounded channels\<close>

text \<open>A \<open>tokio::sync::mpsc\<close> channel: its capacity, the messages it holds, and whether its receiver still
  exists.\<close>

record 'x chan =
  cap :: nat
  queue :: "'x list"
  rx_open :: bool

definition channel :: "nat \<Rightarrow> 'x chan outcome" where
  "channel n = (case mpsc_capacity n of Panics e \<Rightarrow> Panics e
     | Returns c \<Rightarrow> Returns \<lparr>cap = c, queue = [], rx_open = True\<rparr>)"

text \<open>A send: \<open>None\<close> while the channel is full, otherwise whether it was delivered and the channel.\<close>

definition chan_send :: "'x \<Rightarrow> 'x chan \<Rightarrow> (bool \<times> 'x chan) option" where
  "chan_send x ch =
     (if \<not> rx_open ch then Some (False, ch)
      else if length (queue ch) < cap ch then Some (True, ch\<lparr>queue := queue ch @ [x]\<rparr>)
      else None)"

definition close :: "'x chan \<Rightarrow> 'x chan" where
  "close ch = ch\<lparr>queue := [], rx_open := False\<rparr>"

lemma chan_send_cases:
  "chan_send x ch = Some (True, ch') \<longleftrightarrow> rx_open ch \<and> length (queue ch) < cap ch \<and> ch' = ch\<lparr>queue := queue ch @ [x]\<rparr>"
  "chan_send x ch = Some (False, ch') \<longleftrightarrow> \<not> rx_open ch \<and> ch' = ch"
  "chan_send x ch = None \<longleftrightarrow> rx_open ch \<and> cap ch \<le> length (queue ch)"
  by (auto simp: chan_send_def)

end
