(* ===== verification/Actor.thy ===== *)
theory Actor
  imports Registry Config "HOL-Library.Multiset"
begin

text \<open>
  \<open>src/actor.rs\<close>: the actor runtime. An actor's callbacks are user code and appear as functions on
  the actor's state that return, fail or panic; \<open>handle\<close> also has a running time, so that the handle
  timeout can fire. \<open>run_actor\<close> is a task with a mailbox, a control channel, and a list of actions
  still to do (\<open>pc\<close>): every \<open>.await\<close> at which other tasks may run is one action. The relation
  \<open>astep\<close> interleaves the tasks, spawns, sends through \<open>ActorRef\<close>s and dropped references. Channels
  have their capacity: a send into a full channel is not enabled until there is room, and a send to
  a receiver that is gone completes with an ignored error, as in the code.
\<close>

section \<open>Identifiers and reasons\<close>

definition DEAD :: ActorId where
  "DEAD = 0"

definition is_dead :: "ActorId \<Rightarrow> bool" where
  "is_dead i \<longleftrightarrow> i = DEAD"

text \<open>\<open>ActorId::new\<close>: the id and the counter after \<open>fetch_add\<close>, which wraps.\<close>

definition ActorId_new :: "u64 \<Rightarrow> ActorId \<times> u64" where
  "ActorId_new counter = (counter, counter + 1)"

definition ActorId_default :: "u64 \<Rightarrow> ActorId \<times> u64" where
  "ActorId_default counter = ActorId_new counter"

definition show_actor_id :: "ActorId \<Rightarrow> string" where
  "show_actor_id i = ''actor#'' @ show_nat (unat i)"

datatype ExitReason =
    Normal | Shutdown | Error string | HandleTimeout u64 u64 | Linked ActorId ExitReason | Killed

text \<open>\<open>format!("{:?}", reason)\<close> by the derived \<open>Debug\<close>.\<close>

fun debug_reason :: "ExitReason \<Rightarrow> string" where
  "debug_reason Normal = ''Normal''"
| "debug_reason Shutdown = ''Shutdown''"
| "debug_reason (Error e) = ''Error('' @ debug_str e @ '')''"
| "debug_reason (HandleTimeout e l) =
     ''HandleTimeout { elapsed_ms: '' @ show_nat (unat e) @ '', limit_ms: '' @ show_nat (unat l) @ '' }''"
| "debug_reason (Linked p r) = ''Linked(ActorId('' @ show_nat (unat p) @ ''), '' @ debug_reason r @ '')''"
| "debug_reason Killed = ''Killed''"

datatype ControlMsg = CtlLink ActorId | LinkedExit ActorId ExitReason

record HandleStuckContext =
  stuck_id :: ActorId
  elapsed :: duration
  limit :: duration

record RestartSignal =
  child_id :: ActorId
  sig_reason :: string

section \<open>Actors\<close>

datatype callback = CbOk | CbErr string | CbPanic

text \<open>A run of \<open>handle\<close>: how long it takes (\<open>None\<close>: it never completes), its result and state when it
  completes, and the state it leaves when the timeout drops it.\<close>

record 'a handle_run =
  run_time :: "duration option"
  run_result :: callback
  run_state :: 'a
  cancelled :: 'a

record ('a, 'm) DynActor =
  ast :: 'a
  dyn_pre_start :: "'a \<Rightarrow> callback \<times> 'a"
  dyn_on_upgrade :: "u32 \<Rightarrow> 'a \<Rightarrow> callback \<times> 'a"
  dyn_on_handle_begin :: "'m \<Rightarrow> 'a \<Rightarrow> callback \<times> duration \<times> 'a"
  dyn_handle :: "'m \<Rightarrow> 'a \<Rightarrow> 'a handle_run"
  dyn_on_handle_stuck :: "HandleStuckContext \<Rightarrow> 'a \<Rightarrow> callback \<times> 'a"
  dyn_post_stop :: "'a \<Rightarrow> callback \<times> 'a"
  trap_exit :: "'a \<Rightarrow> bool"

text \<open>The default methods of the trait \<open>Actor\<close>.\<close>

definition actor_defaults :: "'a \<Rightarrow> ('a, 'm) DynActor" where
  "actor_defaults s =
     \<lparr>ast = s, dyn_pre_start = (\<lambda>s. (CbOk, s)), dyn_on_upgrade = (\<lambda>_ s. (CbOk, s)),
      dyn_on_handle_begin = (\<lambda>_ s. (CbOk, 0, s)),
      dyn_handle = (\<lambda>_ s. \<lparr>run_time = Some 0, run_result = CbOk, run_state = s, cancelled = s\<rparr>),
      dyn_on_handle_stuck = (\<lambda>_ s. (CbOk, s)), dyn_post_stop = (\<lambda>s. (CbOk, s)), trap_exit = (\<lambda>_. False)\<rparr>"

text \<open>\<open>ActorWrapper\<close> passes every call on: boxing does not change an actor.\<close>

definition into_dyn_actor :: "('a, 'm) DynActor \<Rightarrow> ('a, 'm) DynActor" where
  "into_dyn_actor a = a"

datatype ('a, 'm) Envelope =
    Msg 'm | Link ActorId | Unlink ActorId | Monitor ActorId nat | Demonitor ActorId | Kill | Stop
  | Upgrade "('a, 'm) DynActor"

section \<open>Handling one message\<close>

text \<open>\<open>Unwinds\<close>: a panic in a callback that is not under \<open>catch_unwind\<close>; \<open>Hangs\<close>: \<open>handle\<close> never
  completes and there is no timeout.\<close>

datatype handle_end = Continue | Fails ExitReason | Unwinds | Hangs

text \<open>\<open>handle_message\<close> after \<open>begin_handle\<close>. \<open>lag\<close> is the time the scheduler adds to what the clock
  measures, \<open>races\<close> what other threads store during the maximum update.\<close>

definition handle_body ::
  "ActorId \<Rightarrow> ActorConfig \<Rightarrow> duration \<Rightarrow> u64 list \<Rightarrow> 'm \<Rightarrow> ('a, 'm) DynActor \<Rightarrow> ActorMonitor
     \<Rightarrow> handle_end \<times> ('a, 'm) DynActor \<times> ActorMonitor" where
  "handle_body i cfg lag races m a mon =
     (case dyn_on_handle_begin a m (ast a) of
        (CbPanic, _, s) \<Rightarrow> (Unwinds, a\<lparr>ast := s\<rparr>, mon)
      | (CbErr e, _, s) \<Rightarrow> (Fails (Error e), a\<lparr>ast := s\<rparr>, record_error i mon)
      | (CbOk, t0, s) \<Rightarrow>
          (let run = dyn_handle a m s in
           case (handle_timeout cfg, run_time run) of
             (None, None) \<Rightarrow> (Hangs, a\<lparr>ast := s\<rparr>, mon)
           | (lim, rt) \<Rightarrow>
               (if (case (lim, rt) of (Some l, Some t) \<Rightarrow> l < t | (Some l, None) \<Rightarrow> True | _ \<Rightarrow> False)
                then (let l = the lim;
                          el = t0 + l + lag;
                          mon1 = record_timeout i el mon
                      in case dyn_on_handle_stuck a \<lparr>stuck_id = i, elapsed = el, limit = l\<rparr> (cancelled run) of
                           (CbPanic, s') \<Rightarrow> (Unwinds, a\<lparr>ast := s'\<rparr>, mon1)
                         | (_, s') \<Rightarrow>
                             (Fails (HandleTimeout (as_millis_u64 el) (as_millis_u64 l)), a\<lparr>ast := s'\<rparr>, mon1))
                else (case run_result run of
                        CbOk \<Rightarrow> (Continue, a\<lparr>ast := run_state run\<rparr>,
                                finish_handle i (t0 + the rt + lag) (effective_slow_threshold cfg) races mon)
                      | CbErr e \<Rightarrow> (Fails (Error e), a\<lparr>ast := run_state run\<rparr>, record_error i mon)
                      | CbPanic \<Rightarrow> (Fails (Error ''panic in handle''), a\<lparr>ast := run_state run\<rparr>, record_panic i mon)))))"

definition handle_message ::
  "ActorId \<Rightarrow> ActorConfig \<Rightarrow> duration \<Rightarrow> u64 list \<Rightarrow> 'm \<Rightarrow> ('a, 'm) DynActor \<Rightarrow> ActorMonitor
     \<Rightarrow> handle_end \<times> ('a, 'm) DynActor \<times> ActorMonitor" where
  "handle_message i cfg lag races m a mon = handle_body i cfg lag races m a (begin_handle i mon)"

definition should_propagate_linked_exit :: "ExitReason \<Rightarrow> bool" where
  "should_propagate_linked_exit r \<longleftrightarrow> \<not> (r = Normal \<or> r = Shutdown)"

definition linked_exit_reason :: "ActorId \<Rightarrow> ActorId \<Rightarrow> ExitReason \<Rightarrow> bool \<Rightarrow> ExitReason option" where
  "linked_exit_reason i peer reason trap = (if trap then None else Some (Linked peer reason))"

section \<open>Tasks and the world\<close>

datatype 'm action =
    APreStart
  | ARun 'm                                \<comment> \<open>\<open>handle_message\<close> after \<open>begin_handle\<close>\<close>
  | ASendLink ActorId                      \<comment> \<open>\<open>send_reverse_link\<close>\<close>
  | ANotify ExitReason                     \<comment> \<open>\<open>notify_supervisor\<close>\<close>
  | AExit ExitReason                       \<comment> \<open>\<open>break 'actor_loop\<close>\<close>
  | APostStop
  | AMonitors ExitReason
  | APropagate ExitReason "ActorId list"   \<comment> \<open>the peers still to be told\<close>
  | AUnregister
  | AMarkInactive
  | AEnd                                   \<comment> \<open>the task returns and drops its receivers\<close>

datatype status = Running | Ended | Crashed

record ('a, 'm) Task =
  actor :: "('a, 'm) DynActor"
  config :: ActorConfig
  mailbox :: "('a, 'm) Envelope chan"
  senders :: bool                          \<comment> \<open>some \<open>ActorRef\<close> still exists\<close>
  control :: "ControlMsg chan"
  links :: "ActorId list"                  \<comment> \<open>a \<open>HashSet\<close>, without duplicates\<close>
  monitors :: "(ActorId \<times> nat) list"
  pc :: "'m action list"                   \<comment> \<open>empty: at the \<open>select!\<close>\<close>
  status :: status

record ('a, 'm) World =
  tasks :: "ActorId \<Rightarrow> ('a, 'm) Task option"
  actors :: Actors
  cells :: ActorMonitor
  counter :: u64
  signals :: "nat \<Rightarrow> RestartSignal chan"
  sent :: "(nat \<times> RestartSignal) list"     \<comment> \<open>every signal a supervisor channel has taken\<close>
  notified :: "(nat \<times> ExitReason) list"    \<comment> \<open>every oneshot completed\<close>

definition world_new :: "(nat \<Rightarrow> RestartSignal chan) \<Rightarrow> ('a, 'm) World" where
  "world_new sigs =
     \<lparr>tasks = Map.empty, actors = [], cells = monitor_new, counter = 1, signals = sigs, sent = [], notified = []\<rparr>"

definition set_task :: "ActorId \<Rightarrow> ('a, 'm) Task \<Rightarrow> ('a, 'm) World \<Rightarrow> ('a, 'm) World" where
  "set_task i t w = w\<lparr>tasks := (tasks w)(i \<mapsto> t)\<rparr>"

section \<open>Spawning and references\<close>

record ActorRef =
  ref_id :: ActorId

definition new_task :: "('a, 'm) DynActor \<Rightarrow> ActorConfig \<Rightarrow> ('a, 'm) Envelope chan \<Rightarrow> ControlMsg chan \<Rightarrow> ('a, 'm) Task" where
  "new_task a cfg rx crx =
     \<lparr>actor = a, config = cfg, mailbox = rx, senders = True, control = crx, links = [], monitors = [],
      pc = [APreStart], status = Running\<rparr>"

definition spawn_on_runtime ::
  "('a, 'm) DynActor \<Rightarrow> nat option \<Rightarrow> ActorConfig \<Rightarrow> ('a, 'm) World \<Rightarrow> (ActorRef \<times> ('a, 'm) World) outcome" where
  "spawn_on_runtime a supervisor_tx cfg w =
     (case ActorId_new (counter w) of
        (i, ctr) \<Rightarrow>
          (case channel (mailbox_capacity cfg) of
             Panics e \<Rightarrow> Panics e
           | Returns rx \<Rightarrow>
               (case channel (mailbox_capacity cfg) of
                  Panics e \<Rightarrow> Panics e
                | Returns crx \<Rightarrow>
                    Returns (\<lparr>ref_id = i\<rparr>,
                      set_task i (new_task (into_dyn_actor a) cfg rx crx)
                        (w\<lparr>counter := ctr, actors := register_actor i i supervisor_tx (actors w),
                           cells := mon_register i (cells w)\<rparr>)))))"

definition spawn_on_current_runtime ::
  "('a, 'm) DynActor \<Rightarrow> nat option \<Rightarrow> ActorConfig \<Rightarrow> ('a, 'm) World \<Rightarrow> (ActorRef \<times> ('a, 'm) World) outcome" where
  "spawn_on_current_runtime a sv cfg w = spawn_on_runtime a sv cfg w"

definition spawn_with_config ::
  "('a, 'm) DynActor \<Rightarrow> nat option \<Rightarrow> ActorConfig \<Rightarrow> ('a, 'm) World \<Rightarrow> (ActorRef \<times> ('a, 'm) World) outcome" where
  "spawn_with_config a sv cfg w = spawn_on_current_runtime a sv cfg w"

definition spawn ::
  "('a, 'm) DynActor \<Rightarrow> nat option \<Rightarrow> ('a, 'm) World \<Rightarrow> (ActorRef \<times> ('a, 'm) World) outcome" where
  "spawn a sv w = spawn_on_current_runtime a sv ActorConfig_default w"

lemmas [spawning] = spawn_on_runtime_def spawn_on_current_runtime_def spawn_with_config_def spawn_def ActorId_new_def channel_def
  set_task_def new_task_def into_dyn_actor_def

text \<open>\<open>tx.send(envelope).await\<close>: \<open>None\<close> while the mailbox is full; \<open>False\<close> is the send error.\<close>

definition ref_tx_send ::
  "ActorRef \<Rightarrow> ('a, 'm) Envelope \<Rightarrow> ('a, 'm) World \<Rightarrow> (bool \<times> ('a, 'm) World) option" where
  "ref_tx_send r env w =
     (case tasks w (ref_id r) of
        None \<Rightarrow> Some (False, w)
      | Some t \<Rightarrow>
          (case chan_send env (mailbox t) of
             None \<Rightarrow> None
           | Some (ok, ch) \<Rightarrow> Some (ok, set_task (ref_id r) (t\<lparr>mailbox := ch\<rparr>) w)))"

definition ref_send where "ref_send r m = ref_tx_send r (Msg m)"
definition ref_stop where "ref_stop r = ref_tx_send r Stop"
definition ref_kill where "ref_kill r = ref_tx_send r Kill"
definition ref_link where "ref_link r other = ref_tx_send r (Link other)"
definition ref_unlink where "ref_unlink r other = ref_tx_send r (Unlink other)"
definition ref_upgrade where "ref_upgrade r new_impl = ref_tx_send r (Upgrade (into_dyn_actor new_impl))"
definition ref_monitor where "ref_monitor r observer tx = ref_tx_send r (Monitor observer tx)"
definition ref_demonitor where "ref_demonitor r observer = ref_tx_send r (Demonitor observer)"

section \<open>The actor loop\<close>

definition add_link :: "ActorId \<Rightarrow> ('a, 'm) Task \<Rightarrow> ('a, 'm) Task" where
  "add_link peer t =
     (if peer \<in> set (links t) then t else t\<lparr>links := links t @ [peer], pc := [ASendLink peer]\<rparr>)"

definition crash :: "('a, 'm) Task \<Rightarrow> ('a, 'm) Task" where
  "crash t = t\<lparr>status := Crashed, pc := [], mailbox := close (mailbox t), control := close (control t), monitors := []\<rparr>"

text \<open>The branch \<open>control_rx.recv()\<close> of the \<open>select!\<close>.\<close>

fun on_control :: "ActorId \<Rightarrow> ControlMsg \<Rightarrow> ('a, 'm) Task \<Rightarrow> ('a, 'm) Task" where
  "on_control i (CtlLink peer) t = add_link peer t"
| "on_control i (LinkedExit peer reason) t =
     (case linked_exit_reason i peer reason (trap_exit (actor t) (ast (actor t))) of
        None \<Rightarrow> t
      | Some r \<Rightarrow> t\<lparr>pc := [AExit r]\<rparr>)"

text \<open>The branch \<open>rx.recv()\<close>; \<open>Msg\<close> runs \<open>begin_handle\<close> and leaves the rest to the next action.\<close>

fun on_envelope ::
  "ActorId \<Rightarrow> ('a, 'm) Envelope \<Rightarrow> ('a, 'm) Task \<Rightarrow> ActorMonitor \<Rightarrow> ('a, 'm) Task \<times> ActorMonitor" where
  "on_envelope i (Msg m) t mon = (t\<lparr>pc := [ARun m]\<rparr>, begin_handle i mon)"
| "on_envelope i (Link peer) t mon = (add_link peer t, mon)"
| "on_envelope i (Unlink peer) t mon = (t\<lparr>links := removeAll peer (links t)\<rparr>, mon)"
| "on_envelope i (Monitor observer tx) t mon = (t\<lparr>monitors := monitors t @ [(observer, tx)]\<rparr>, mon)"
| "on_envelope i (Demonitor observer) t mon =
     (t\<lparr>monitors := filter (\<lambda>(k, _). k \<noteq> observer) (monitors t)\<rparr>, mon)"
| "on_envelope i (Upgrade new_impl) t mon =
     (case dyn_on_upgrade new_impl 0 (ast new_impl) of
        (CbOk, s) \<Rightarrow> (t\<lparr>actor := new_impl\<lparr>ast := s\<rparr>\<rparr>, mon)
      | (CbErr e, s) \<Rightarrow> (t\<lparr>actor := new_impl\<lparr>ast := s\<rparr>, pc := [AExit (Error e)]\<rparr>, mon)
      | (CbPanic, s) \<Rightarrow> (crash (t\<lparr>actor := new_impl\<lparr>ast := s\<rparr>\<rparr>), mon))"
| "on_envelope i Stop t mon = (t\<lparr>pc := [AExit Shutdown]\<rparr>, mon)"
| "on_envelope i Kill t mon = (t\<lparr>pc := [AExit Killed]\<rparr>, mon)"

text \<open>\<open>finish_actor\<close>, with the peers in the iteration order of the set.\<close>

definition finish_actor :: "ExitReason \<Rightarrow> ActorId list \<Rightarrow> 'm action list" where
  "finish_actor r peers =
     [APostStop, AMonitors r] @ (if should_propagate_linked_exit r then [APropagate r peers] else [])
       @ [AUnregister, AMarkInactive, AEnd]"

text \<open>A send on the control channel of a registered actor: \<open>None\<close> while it is full. The peer is looked up
  when the send completes; the code looks it up before it waits for room, so a peer that unregisters
  meanwhile, and closes its channel a moment later, may still get a message there that it drops.\<close>

definition control_send :: "ActorId \<Rightarrow> ControlMsg \<Rightarrow> ('a, 'm) World \<Rightarrow> ('a, 'm) World option" where
  "control_send peer m w =
     (case get_control_sender peer (actors w) of
        None \<Rightarrow> Some w
      | Some q \<Rightarrow>
          (case tasks w q of
             None \<Rightarrow> Some w
           | Some tq \<Rightarrow>
               (case chan_send m (control tq) of
                  None \<Rightarrow> None
                | Some (_, ch) \<Rightarrow> Some (set_task q (tq\<lparr>control := ch\<rparr>) w))))"

definition notify_supervisor :: "ActorId \<Rightarrow> ExitReason \<Rightarrow> ('a, 'm) World \<Rightarrow> ('a, 'm) World option" where
  "notify_supervisor i r w =
     (case get_supervisor_sender i (actors w) of
        None \<Rightarrow> Some w
      | Some s \<Rightarrow>
          (let sig = \<lparr>child_id = i, sig_reason = debug_reason r\<rparr> in
           case chan_send sig (signals w s) of
             None \<Rightarrow> None
           | Some (ok, ch) \<Rightarrow>
               Some (w\<lparr>signals := (signals w)(s := ch), sent := (if ok then sent w @ [(s, sig)] else sent w)\<rparr>)))"

text \<open>One action of the task \<open>i\<close>; the task's \<open>pc\<close> already holds what comes after it.\<close>

fun exec ::
  "(ActorId list \<Rightarrow> ActorId list) \<Rightarrow> duration \<Rightarrow> u64 list \<Rightarrow> ActorId \<Rightarrow> 'm action \<Rightarrow> ('a, 'm) Task
     \<Rightarrow> ('a, 'm) World \<Rightarrow> ('a, 'm) World option" where
  "exec ord lag races i APreStart t w =
     (case dyn_pre_start (actor t) (ast (actor t)) of
        (CbOk, s) \<Rightarrow> Some (set_task i (t\<lparr>actor := (actor t)\<lparr>ast := s\<rparr>\<rparr>) w)
      | (CbErr e, s) \<Rightarrow> Some (set_task i (t\<lparr>actor := (actor t)\<lparr>ast := s\<rparr>, pc := [AUnregister, AMarkInactive, AEnd]\<rparr>) w)
      | (CbPanic, s) \<Rightarrow> Some (set_task i (crash (t\<lparr>actor := (actor t)\<lparr>ast := s\<rparr>\<rparr>)) w))"
| "exec ord lag races i (ARun m) t w =
     (case handle_body i (config t) lag races m (actor t) (cells w) of
        (Continue, a, mon) \<Rightarrow> Some (set_task i (t\<lparr>actor := a\<rparr>) (w\<lparr>cells := mon\<rparr>))
      | (Fails r, a, mon) \<Rightarrow> Some (set_task i (t\<lparr>actor := a, pc := [ANotify r, AExit r]\<rparr>) (w\<lparr>cells := mon\<rparr>))
      | (Unwinds, a, mon) \<Rightarrow> Some (set_task i (crash (t\<lparr>actor := a\<rparr>)) (w\<lparr>cells := mon\<rparr>))
      | (Hangs, _, _) \<Rightarrow> None)"
| "exec ord lag races i (ASendLink peer) t w = control_send peer (CtlLink i) (set_task i t w)"
| "exec ord lag races i (ANotify r) t w = notify_supervisor i r (set_task i t w)"
| "exec ord lag races i (AExit r) t w = Some (set_task i (t\<lparr>pc := finish_actor r (ord (links t))\<rparr>) w)"
| "exec ord lag races i APostStop t w =
     (case dyn_post_stop (actor t) (ast (actor t)) of
        (CbPanic, s) \<Rightarrow> Some (set_task i (crash (t\<lparr>actor := (actor t)\<lparr>ast := s\<rparr>\<rparr>)) w)
      | (_, s) \<Rightarrow> Some (set_task i (t\<lparr>actor := (actor t)\<lparr>ast := s\<rparr>\<rparr>) w))"
| "exec ord lag races i (AMonitors r) t w =
     Some (set_task i (t\<lparr>monitors := []\<rparr>) (w\<lparr>notified := notified w @ map (\<lambda>(_, tx). (tx, r)) (monitors t)\<rparr>))"
| "exec ord lag races i (APropagate r []) t w = Some (set_task i t w)"
| "exec ord lag races i (APropagate r (p # ps)) t w =
     control_send p (LinkedExit i r) (set_task i (t\<lparr>pc := APropagate r ps # pc t\<rparr>) w)"
| "exec ord lag races i AUnregister t w = Some (set_task i t (w\<lparr>actors := unregister_actor i (actors w)\<rparr>))"
| "exec ord lag races i AMarkInactive t w = Some (set_task i t (w\<lparr>cells := mark_inactive i (cells w)\<rparr>))"
| "exec ord lag races i AEnd t w =
     Some (set_task i (t\<lparr>status := Ended, mailbox := close (mailbox t), control := close (control t)\<rparr>) w)"

section \<open>The steps of the system\<close>

text \<open>A running task waiting in the \<open>select!\<close>.\<close>

definition waiting :: "ActorId \<Rightarrow> ('a, 'm) World \<Rightarrow> ('a, 'm) Task \<Rightarrow> bool" where
  "waiting i w t \<longleftrightarrow> tasks w i = Some t \<and> status t = Running \<and> pc t = []"

text \<open>What is in the mailbox of an actor.\<close>

definition mail :: "ActorId \<Rightarrow> ('a, 'm) World \<Rightarrow> ('a, 'm) Envelope list" where
  "mail i w = (case tasks w i of Some t \<Rightarrow> queue (mailbox t) | None \<Rightarrow> [])"

text \<open>Every sender of the control channel is gone: the only lasting one is in the registry.\<close>

definition control_closed :: "ActorId \<Rightarrow> ('a, 'm) World \<Rightarrow> bool" where
  "control_closed i w \<longleftrightarrow> hm_get (actors w) i = None"

text \<open>The steps. \<open>ActorId::new\<close> wraps around after \<open>2 ^ 64\<close> ids; the guard of \<open>spawns\<close> ends the model there.\<close>

inductive astep :: "(ActorId list \<Rightarrow> ActorId list) \<Rightarrow> ('a, 'm) World \<Rightarrow> ('a, 'm) World \<Rightarrow> bool" for ord where
  spawns: "counter w \<noteq> 0 \<Longrightarrow> spawn_on_runtime a sv cfg w = Returns (r, w') \<Longrightarrow> astep ord w w'"
| sends: "ref_tx_send r env w = Some (ok, w') \<Longrightarrow> astep ord w w'"
| drops_refs: "tasks w i = Some t \<Longrightarrow> astep ord w (set_task i (t\<lparr>senders := False\<rparr>) w)"
| takes_control: "waiting i w t \<Longrightarrow> queue (control t) = c # cs \<Longrightarrow>
     astep ord w (set_task i (on_control i c (t\<lparr>control := (control t)\<lparr>queue := cs\<rparr>\<rparr>)) w)"
| control_gone: "waiting i w t \<Longrightarrow> queue (control t) = [] \<Longrightarrow> control_closed i w \<Longrightarrow>
     astep ord w (set_task i (t\<lparr>pc := [AExit Normal]\<rparr>) w)"
| takes_envelope: "waiting i w t \<Longrightarrow> queue (control t) = [] \<Longrightarrow> \<not> control_closed i w \<Longrightarrow>
     queue (mailbox t) = e # es \<Longrightarrow>
     on_envelope i e (t\<lparr>mailbox := (mailbox t)\<lparr>queue := es\<rparr>\<rparr>) (cells w) = (t', mon) \<Longrightarrow>
     astep ord w (set_task i t' (w\<lparr>cells := mon\<rparr>))"
| mailbox_gone: "waiting i w t \<Longrightarrow> queue (control t) = [] \<Longrightarrow> \<not> control_closed i w \<Longrightarrow>
     queue (mailbox t) = [] \<Longrightarrow> \<not> senders t \<Longrightarrow> astep ord w (set_task i (t\<lparr>pc := [AExit Normal]\<rparr>) w)"
| acts: "tasks w i = Some t \<Longrightarrow> status t = Running \<Longrightarrow> pc t = a # as \<Longrightarrow>
     exec ord lag races i a (t\<lparr>pc := as\<rparr>) w = Some w' \<Longrightarrow> astep ord w w'"
| unregisters: "astep ord w (w\<lparr>actors := unregister_actor i (actors w)\<rparr>)"
| signal_taken: "queue (signals w s) = x # xs \<Longrightarrow>
     astep ord w (w\<lparr>signals := (signals w)(s := (signals w s)\<lparr>queue := xs\<rparr>)\<rparr>)"

inductive areach :: "(ActorId list \<Rightarrow> ActorId list) \<Rightarrow> ('a, 'm) World \<Rightarrow> bool" for ord where
  start: "areach ord (world_new sigs)"
| step: "areach ord w \<Longrightarrow> astep ord w w' \<Longrightarrow> areach ord w'"

section \<open>The invariant\<close>

text \<open>How many restart signals have been sent for an actor.\<close>

definition signal_count :: "ActorId \<Rightarrow> (nat \<times> RestartSignal) list \<Rightarrow> nat" where
  "signal_count i log = length (filter (\<lambda>(_, x). child_id x = i) log)"

text \<open>The control points from \<open>finish_actor\<close> on, and those of the loop.\<close>

fun exit_pc :: "'m action list \<Rightarrow> bool" where
  "exit_pc [AEnd] = True"
| "exit_pc (AMarkInactive # as) = (as = [AEnd])"
| "exit_pc (AUnregister # as) = (as = [AMarkInactive, AEnd])"
| "exit_pc (APropagate r ps # as) = (should_propagate_linked_exit r \<and> as = [AUnregister, AMarkInactive, AEnd])"
| "exit_pc (AMonitors r # as) = (if should_propagate_linked_exit r
     then (\<exists>ps. as = [APropagate r ps, AUnregister, AMarkInactive, AEnd]) else as = [AUnregister, AMarkInactive, AEnd])"
| "exit_pc (APostStop # AMonitors r # as) = (if should_propagate_linked_exit r
     then (\<exists>ps. as = [APropagate r ps, AUnregister, AMarkInactive, AEnd]) else as = [AUnregister, AMarkInactive, AEnd])"
| "exit_pc (AExit r # as) = (as = [])"
| "exit_pc _ = False"

fun loop_pc :: "'m action list \<Rightarrow> bool" where
  "loop_pc [] = True"
| "loop_pc [APreStart] = True"
| "loop_pc [ARun m] = True"
| "loop_pc [ASendLink p] = True"
| "loop_pc [ANotify r, AExit r'] = (r = r')"
| "loop_pc _ = False"

fun runs_handle :: "'m action list \<Rightarrow> bool" where
  "runs_handle (ARun m # as) = True"
| "runs_handle _ = False"

text \<open>What holds of a task, given its registry entry, its counters and its number of signals.\<close>

definition task_inv :: "ActorId \<Rightarrow> ActorEntry option \<Rightarrow> StatsCell option \<Rightarrow> nat \<Rightarrow> ('a, 'm) Task \<Rightarrow> bool" where
  "task_inv i e c n t \<longleftrightarrow>
     i \<noteq> DEAD \<and> distinct (links t) \<and> (loop_pc (pc t) \<or> exit_pc (pc t)) \<and>
     (status t \<noteq> Running \<longrightarrow> pc t = [] \<and> \<not> rx_open (control t) \<and> \<not> rx_open (mailbox t)) \<and>
     (status t = Running \<longrightarrow> rx_open (control t) \<and> rx_open (mailbox t)) \<and>
     (status t \<noteq> Crashed \<longrightarrow> (\<exists>s. c = Some s \<and> in_flight s = (if runs_handle (pc t) then 1 else 0))) \<and>
     (n = 0 \<or> n = 1 \<and> (status t \<noteq> Running \<or> exit_pc (pc t))) \<and>
     (status t = Ended \<or> pc t = [AMarkInactive, AEnd] \<or> pc t = [AEnd] \<longrightarrow> e = None) \<and>
     (\<forall>x. e = Some x \<longrightarrow> control_of x = i)"

definition world_inv :: "('a, 'm) World \<Rightarrow> bool" where
  "world_inv w \<longleftrightarrow>
     hm_inv (actors w) \<and> hm_inv (cells w) \<and>
     (\<forall>i. tasks w i \<noteq> None \<and> counter w \<noteq> 0 \<longrightarrow> i < counter w) \<and>
     (\<forall>i. tasks w i = None \<longrightarrow> hm_get (actors w) i = None \<and> hm_get (cells w) i = None \<and> signal_count i (sent w) = 0) \<and>
     (\<forall>i t. tasks w i = Some t \<longrightarrow> task_inv i (hm_get (actors w) i) (hm_get (cells w) i) (signal_count i (sent w)) t)"

lemma world_invD:
  assumes "world_inv w"
  shows "hm_inv (actors w)" "hm_inv (cells w)"
    "tasks w i \<noteq> None \<Longrightarrow> counter w \<noteq> 0 \<Longrightarrow> i < counter w"
    "tasks w i = None \<Longrightarrow> hm_get (actors w) i = None \<and> hm_get (cells w) i = None \<and> signal_count i (sent w) = 0"
    "tasks w i = Some t \<Longrightarrow> task_inv i (hm_get (actors w) i) (hm_get (cells w) i) (signal_count i (sent w)) t"
  using assms by (auto simp: world_inv_def)

text \<open>The one frame lemma: a step that changes the record of task \<open>i\<close> and, of the shared state, only
  what belongs to \<open>i\<close>.\<close>

lemma world_inv_update:
  assumes inv: "world_inv w" and t: "tasks w i \<noteq> None"
    and w': "tasks w' = (tasks w)(i \<mapsto> t')" "counter w' = counter w"
    and shared: "hm_inv (actors w')" "hm_inv (cells w')"
      "\<And>j. j \<noteq> i \<Longrightarrow> hm_get (actors w') j = hm_get (actors w) j"
      "\<And>j. j \<noteq> i \<Longrightarrow> hm_get (cells w') j = hm_get (cells w) j"
      "\<And>j. j \<noteq> i \<Longrightarrow> signal_count j (sent w') = signal_count j (sent w)"
    and own: "task_inv i (hm_get (actors w') i) (hm_get (cells w') i) (signal_count i (sent w')) t'"
  shows "world_inv w'"
  unfolding world_inv_def
proof (intro conjI allI impI)
  fix j assume "tasks w' j \<noteq> None \<and> counter w' \<noteq> 0"
  then show "j < counter w'" using world_invD(3) [OF inv, of j] t w' by (auto split: if_splits)
next
  fix j u assume "tasks w' j = Some u"
  then show "task_inv j (hm_get (actors w') j) (hm_get (cells w') j) (signal_count j (sent w')) u"
    using world_invD(5) [OF inv, of j u] own shared(3-5) [of j] w'(1) by (auto split: if_splits)
qed (use shared world_invD(4) [OF inv] t w' in \<open>auto split: if_splits\<close>)

lemma world_inv_set_task:
  "world_inv w \<Longrightarrow> tasks w i \<noteq> None \<Longrightarrow>
   task_inv i (hm_get (actors w) i) (hm_get (cells w) i) (signal_count i (sent w)) t' \<Longrightarrow>
   world_inv (set_task i t' w)"
  by (rule world_inv_update [where i = i and t' = t']) (auto simp: set_task_def world_invD)

lemma task_inv_control:
  "rx_open ch = rx_open (control t) \<Longrightarrow> task_inv i e c n (t\<lparr>control := ch\<rparr>) = task_inv i e c n t"
  by (simp add: task_inv_def)

lemma task_inv_mailbox:
  "rx_open ch = rx_open (mailbox t) \<Longrightarrow> task_inv i e c n (t\<lparr>mailbox := ch\<rparr>) = task_inv i e c n t"
  by (simp add: task_inv_def)

lemma task_inv_unregister: "task_inv i e c n t \<Longrightarrow> task_inv i None c n t"
  by (simp add: task_inv_def)

lemma chan_send_open: "chan_send x ch = Some (ok, ch') \<Longrightarrow> rx_open ch' = rx_open ch"
  by (auto simp: chan_send_def split: if_splits)

lemma control_send_inv:
  assumes inv: "world_inv w" and s: "control_send p m w = Some w'"
  shows "world_inv w'"
proof (cases "get_control_sender p (actors w)")
  case (Some q)
  show ?thesis
  proof (cases "tasks w q")
    case (Some tq)
    with s \<open>get_control_sender p (actors w) = Some q\<close> obtain ok ch where
      ch: "chan_send m (control tq) = Some (ok, ch)" "w' = set_task q (tq\<lparr>control := ch\<rparr>) w"
      by (auto simp: control_send_def split: option.splits prod.splits)
    show ?thesis unfolding ch(2)
      using inv Some world_invD(5) [OF inv Some] task_inv_control [OF chan_send_open [OF ch(1)]]
      by (intro world_inv_set_task) auto
  qed (use s inv Some in \<open>simp add: control_send_def\<close>)
qed (use s inv in \<open>simp add: control_send_def\<close>)

lemma signal_count_snoc:
  "signal_count i (log @ [(s, x)]) = signal_count i log + (if child_id x = i then 1 else 0)"
  by (simp add: signal_count_def)

lemma handle_body_cell:
  assumes "handle_body i cfg lag races m a mon = (e, a', mon')"
  obtains (same) "mon' = mon" "e = Unwinds \<or> e = Hangs"
  | (cell) f where "mon' = with_cell i f mon" "\<And>c. in_flight (f c) = in_flight c - 1" "e \<noteq> Hangs"
proof -
  have fin: "in_flight (finish_cell d th rs c) = in_flight c - 1" for d th rs c
    by (simp add: finish_cell_def Let_def)
  obtain cb t0 s where b: "dyn_on_handle_begin a m (ast a) = (cb, t0, s)" by (cases "dyn_on_handle_begin a m (ast a)")
  let ?run = "dyn_handle a m s"
  show ?thesis
  proof (cases cb)
    case CbPanic
    then show ?thesis using assms b same by (simp add: handle_body_def)
  next
    case (CbErr x)
    then show ?thesis using assms b by (intro cell) (auto simp: handle_body_def record_error_def)
  next
    case CbOk
    consider (hang) "handle_timeout cfg = None" "run_time ?run = None"
      | (timeout) l where "handle_timeout cfg = Some l" "case run_time ?run of Some t \<Rightarrow> l < t | None \<Rightarrow> True"
      | (completes) t where "run_time ?run = Some t" "case handle_timeout cfg of Some l \<Rightarrow> \<not> l < t | None \<Rightarrow> True"
      by (cases "handle_timeout cfg"; cases "run_time ?run") auto
    then show ?thesis
    proof cases
      case hang
      then show ?thesis using assms b CbOk same by (simp add: handle_body_def)
    next
      case timeout
      obtain cb2 s2 where st: "dyn_on_handle_stuck a \<lparr>stuck_id = i, elapsed = t0 + l + lag, limit = l\<rparr> (cancelled ?run) = (cb2, s2)"
        by (cases "dyn_on_handle_stuck a \<lparr>stuck_id = i, elapsed = t0 + l + lag, limit = l\<rparr> (cancelled ?run)")
      have "mon' = record_timeout i (t0 + l + lag) mon \<and> e \<noteq> Hangs"
        using assms b CbOk timeout st
        by (cases "run_time ?run"; cases cb2) (auto simp: handle_body_def Let_def)
      then show ?thesis by (intro cell) (auto simp: record_timeout_def)
    next
      case completes
      then have "(mon' = finish_handle i (t0 + t + lag) (effective_slow_threshold cfg) races mon
          \<or> mon' = record_error i mon \<or> mon' = record_panic i mon) \<and> e \<noteq> Hangs"
        using assms b CbOk
        by (cases "handle_timeout cfg"; cases "run_result ?run") (auto simp: handle_body_def Let_def)
      then show ?thesis using fin
        by (auto simp: finish_handle_def record_error_def record_panic_def intro!: cell)
    qed
  qed
qed

lemma task_inv_handled:
  assumes "task_inv i e c n t" and "pc t = ARun m # as" and "status t = Running"
    and "\<And>s. in_flight (f s) = in_flight s - 1"
  shows "task_inv i e (map_option f c) n (t\<lparr>pc := [], actor := a\<rparr>)"
    and "task_inv i e (map_option f c) n (t\<lparr>actor := a, pc := [ANotify r, AExit r]\<rparr>)"
    and "task_inv i e c' n (crash (t\<lparr>pc := [], actor := a\<rparr>))"
  using assms by (auto simp: task_inv_def crash_def close_def)

lemma exec_run_inv:
  assumes inv: "world_inv w" and t: "tasks w i = Some t" "status t = Running" "pc t = ARun m # as"
    and ex: "exec ord lag races i (ARun m) (t\<lparr>pc := as\<rparr>) w = Some w'"
  shows "world_inv w'"
proof -
  note ti = world_invD(5) [OF inv t(1)]
  have as: "as = []" using ti t(3) by (cases as) (auto simp: task_inv_def)
  obtain e a mon where hb: "handle_body i (config t) lag races m (actor t) (cells w) = (e, a, mon)"
    by (cases "handle_body i (config t) lag races m (actor t) (cells w)")
  obtain t' where w': "w' = set_task i t' (w\<lparr>cells := mon\<rparr>)" and
    t': "(e = Continue \<and> t' = t\<lparr>pc := [], actor := a\<rparr>) \<or> (\<exists>r. e = Fails r \<and> t' = t\<lparr>actor := a, pc := [ANotify r, AExit r]\<rparr>)
      \<or> (e = Unwinds \<and> t' = crash (t\<lparr>pc := [], actor := a\<rparr>))"
    using ex hb as by (cases e) auto
  have ne: "tasks w i \<noteq> None" using t(1) by simp
  have go: "world_inv w'" if "hm_inv mon" "\<And>j. j \<noteq> i \<Longrightarrow> hm_get mon j = hm_get (cells w) j"
    "task_inv i (hm_get (actors w) i) (hm_get mon i) (signal_count i (sent w)) t'"
    unfolding w' using that world_invD(1) [OF inv]
    by (intro world_inv_update [OF inv ne, where t' = t']) (simp_all add: set_task_def)
  from hb show ?thesis
  proof (cases rule: handle_body_cell)
    case same
    then show ?thesis using t' task_inv_handled(3) [OF ti t(3,2), of "\<lambda>s. s\<lparr>in_flight := in_flight s - 1\<rparr>"]
      world_invD(2) [OF inv] ex hb by (intro go) auto
  next
    case (cell f)
    show ?thesis
      using t' task_inv_handled [OF ti t(3,2) cell(2)] world_invD(2) [OF inv]
      by (intro go) (auto simp: cell(1) with_cell_get with_cell_inv)
  qed
qed

lemma notify_supervisor_inv:
  assumes inv: "world_inv w" and t: "tasks w i = Some t" "status t = Running" "pc t = [ANotify r, AExit r']"
    and ex: "notify_supervisor i r (set_task i (t\<lparr>pc := [AExit r']\<rparr>) w) = Some w'"
  shows "world_inv w'"
proof -
  note ti = world_invD(5) [OF inv t(1)]
  have ne: "tasks w i \<noteq> None" using t(1) by simp
  have n: "signal_count i (sent w) = 0" using ti t(2,3) by (simp add: task_inv_def)
  have own: "task_inv i e (hm_get (cells w) i) k (t\<lparr>pc := [AExit r']\<rparr>)"
    if "k \<le> 1" "e = hm_get (actors w) i" for e k
    using ti t(2,3) that by (auto simp: task_inv_def le_Suc_eq)
  obtain sg lg where w': "tasks w' = (tasks w)(i \<mapsto> t\<lparr>pc := [AExit r']\<rparr>)" "counter w' = counter w"
    "actors w' = actors w" "cells w' = cells w"
    "sent w' = sent w \<or> (\<exists>s x. child_id x = i \<and> sent w' = sent w @ [(s, x)])"
    using ex by (auto simp: notify_supervisor_def set_task_def Let_def split: option.splits)
  have "signal_count i (sent w') \<le> 1" "\<And>j. j \<noteq> i \<Longrightarrow> signal_count j (sent w') = signal_count j (sent w)"
    using w'(5) n by (auto simp: signal_count_snoc)
  then show ?thesis
    using own w' world_invD(1,2) [OF inv]
    by (intro world_inv_update [OF inv ne w'(1,2)]) simp_all
qed

lemma exec_exit_inv:
  assumes inv: "world_inv w" and t: "tasks w i = Some t" "status t = Running" "pc t = a # as"
    and ex: "exec ord lag races i a (t\<lparr>pc := as\<rparr>) w = Some w'" and x: "exit_pc (a # as)" "\<forall>r. a \<noteq> AExit r"
  shows "world_inv w'"
proof -
  note ti = world_invD(5) [OF inv t(1)]
  have ne: "tasks w i \<noteq> None" using t(1) by simp
  note local = world_inv_set_task [OF inv ne]
  show ?thesis
  proof (cases a)
    case APostStop
    then have x: "exit_pc (APostStop # as)" using ti t(3) by (auto simp: task_inv_def)
    then obtain r rest where "as = AMonitors r # rest" "exit_pc as"
      by (cases "APostStop # as" rule: exit_pc.cases) auto
    then have as: "exit_pc as" "as \<noteq> [AMarkInactive, AEnd]" "as \<noteq> [AEnd]" "\<not> runs_handle as" "as \<noteq> []" by auto
    show ?thesis using ex APostStop ti t as
      by (cases "dyn_post_stop (actor t) (ast (actor t))"; cases "fst (dyn_post_stop (actor t) (ast (actor t)))")
        (auto intro!: local simp: task_inv_def crash_def close_def)
  next
    case (AMonitors r)
    then have "exit_pc (AMonitors r # as)" using ti t(3) by (auto simp: task_inv_def)
    then have as: "exit_pc as" "as \<noteq> [AMarkInactive, AEnd]" "as \<noteq> [AEnd]" "\<not> runs_handle as" "as \<noteq> []"
      by (auto split: if_splits)
    show ?thesis using ex AMonitors ti t as world_invD(1,2) [OF inv]
      by (auto intro!: world_inv_update [OF inv ne, where t' = "t\<lparr>pc := as, monitors := []\<rparr>"] simp: set_task_def task_inv_def)
  next
    case (APropagate r ps)
    then have as: "should_propagate_linked_exit r" "as = [AUnregister, AMarkInactive, AEnd]"
      using ti t(3) by (auto simp: task_inv_def)
    show ?thesis
    proof (cases ps)
      case Nil
      then show ?thesis using ex APropagate as ti t by (auto intro!: local simp: task_inv_def)
    next
      case (Cons q qs)
      have "world_inv (set_task i (t\<lparr>pc := APropagate r qs # as\<rparr>) w)"
        using as ti t APropagate by (intro local) (auto simp: task_inv_def)
      then show ?thesis using ex APropagate Cons control_send_inv by auto
    qed
  next
    case AUnregister
    then have as: "as = [AMarkInactive, AEnd]" using ti t(3) by (auto simp: task_inv_def)
    show ?thesis using ex AUnregister as ti t world_invD(1,2) [OF inv]
      by (auto intro!: world_inv_update [OF inv ne, where t' = "t\<lparr>pc := as\<rparr>"]
          simp: set_task_def task_inv_def unregister_actor_def hm.get_remove hm.inv_remove)
  next
    case AMarkInactive
    then have as: "as = [AEnd]" using ti t(3) by (auto simp: task_inv_def)
    show ?thesis using ex AMarkInactive as ti t world_invD(1,2) [OF inv]
      by (auto intro!: world_inv_update [OF inv ne, where t' = "t\<lparr>pc := as\<rparr>"]
          simp: set_task_def task_inv_def mark_inactive_def with_cell_get with_cell_inv)
  next
    case AEnd
    then have as: "as = []" using ti t(3) by (cases as) (auto simp: task_inv_def)
    then show ?thesis using ex AEnd ti t
      by (auto intro!: local simp: task_inv_def close_def)
  qed (use x in auto)
qed

lemma exec_inv:
  assumes inv: "world_inv w" and t: "tasks w i = Some t" "status t = Running" "pc t = a # as"
    and ex: "exec ord lag races i a (t\<lparr>pc := as\<rparr>) w = Some w'" and ord: "\<And>xs. distinct xs \<Longrightarrow> distinct (ord xs)"
  shows "world_inv w'"
proof -
  note ti = world_invD(5) [OF inv t(1)]
  have ne: "tasks w i \<noteq> None" using t(1) by simp
  note local = world_inv_set_task [OF inv ne]
  have leaving: ?thesis if "exit_pc (a # as)" "\<forall>r. a \<noteq> AExit r" by (rule exec_exit_inv [OF inv t ex that])
  show ?thesis
  proof (cases a)
    case APreStart
    then have "as = []" using ti t(3) by (cases as) (auto simp: task_inv_def)
    then show ?thesis using ex APreStart ti t
      by (auto split: prod.splits callback.splits intro!: local simp: task_inv_def crash_def close_def)
  next
    case (ARun m)
    then show ?thesis using exec_run_inv [OF inv t(1,2)] t(3) ex by blast
  next
    case (ASendLink p)
    then have "as = []" using ti t(3) by (cases as) (auto simp: task_inv_def)
    then have "world_inv (set_task i (t\<lparr>pc := as\<rparr>) w)" using ASendLink ti t by (intro local) (auto simp: task_inv_def)
    then show ?thesis using ex ASendLink control_send_inv by auto
  next
    case (ANotify r)
    then obtain r' where "as = [AExit r']" using ti t(3)
      by (cases "(a # as)" rule: loop_pc.cases) (auto simp: task_inv_def)
    then show ?thesis using notify_supervisor_inv [OF inv t(1,2)] t(3) ex ANotify by simp
  next
    case (AExit r)
    then have "as = []" using ti t(3) by (auto simp: task_inv_def)
    then show ?thesis using ex AExit ti t
      by (auto intro!: local simp: task_inv_def finish_actor_def)
  qed (use leaving ti t(3) in \<open>auto simp: task_inv_def\<close>)
qed

lemma add_link_inv:
  "task_inv i e c n t \<Longrightarrow> pc t = [] \<Longrightarrow> status t = Running \<Longrightarrow> task_inv i e c n (add_link p t)"
  by (auto simp: add_link_def task_inv_def)

lemma on_control_inv:
  "task_inv i e c n t \<Longrightarrow> pc t = [] \<Longrightarrow> status t = Running \<Longrightarrow> task_inv i e c n (on_control i m t)"
  by (cases m) (auto simp: add_link_inv linked_exit_reason_def, auto simp: task_inv_def)

lemma on_envelope_inv:
  assumes "task_inv i e (hm_get mon i) n t" and "pc t = []" and "status t = Running" and "hm_inv mon"
    and "on_envelope i env t mon = (t', mon')"
  shows "hm_inv mon'" "j \<noteq> i \<Longrightarrow> hm_get mon' j = hm_get mon j" "task_inv i e (hm_get mon' i) n t'"
proof -
  have "hm_inv mon' \<and> (j \<noteq> i \<longrightarrow> hm_get mon' j = hm_get mon j) \<and> task_inv i e (hm_get mon' i) n t'"
  proof (cases env)
    case (Msg m)
    then show ?thesis using assms
      by (auto simp: begin_handle_def with_cell_get with_cell_inv) (auto simp: task_inv_def)
  next
    case (Upgrade a)
    then show ?thesis using assms
      by (cases "dyn_on_upgrade a 0 (ast a)"; cases "fst (dyn_on_upgrade a 0 (ast a))")
        (auto simp: task_inv_def crash_def close_def)
  next
    case (Link p)
    then show ?thesis using assms by (auto simp: add_link_inv)
  next
    case (Unlink p)
    then show ?thesis using assms by (auto simp: task_inv_def distinct_removeAll)
  qed (use assms in \<open>auto simp: task_inv_def\<close>)
  then show "hm_inv mon'" "j \<noteq> i \<Longrightarrow> hm_get mon' j = hm_get mon j" "task_inv i e (hm_get mon' i) n t'" by blast+
qed

lemma spawn_inv:
  assumes inv: "world_inv w" and c: "counter w \<noteq> 0" and sp: "spawn_on_runtime a sv cfg w = Returns (r, w')"
  shows "world_inv w'"
proof -
  let ?i = "counter w"
  obtain t where w': "w' = set_task ?i t (w\<lparr>counter := ?i + 1, actors := register_actor ?i ?i sv (actors w),
      cells := mon_register ?i (cells w)\<rparr>)" and t: "pc t = [APreStart]" "status t = Running" "links t = []"
      "rx_open (control t)" "rx_open (mailbox t)"
    using sp by (auto simp: spawn_on_runtime_def ActorId_new_def new_task_def channel_def split: outcome.splits)
  have new: "tasks w ?i = None" using world_invD(3) [OF inv, of ?i] c by (metis less_irrefl)
  note shared = world_invD(1,2) [OF inv] and none = world_invD(4) [OF inv new]
  show ?thesis unfolding world_inv_def
  proof (intro conjI allI impI)
    fix j assume "tasks w' j \<noteq> None \<and> counter w' \<noteq> 0"
    then have "j = ?i \<or> j < ?i" "?i + 1 \<noteq> 0" using world_invD(3) [OF inv, of j] c by (auto simp: w' set_task_def split: if_splits)
    then show "j < counter w'" using u64_less_inc [of ?i] by (auto simp: w' set_task_def)
  next
    fix j u assume "tasks w' j = Some u"
    then show "task_inv j (hm_get (actors w') j) (hm_get (cells w') j) (signal_count j (sent w')) u"
      using world_invD(5) [OF inv, of j u] shared none t c
      by (auto simp: w' set_task_def register_actor_def hm.get_insert mon_register_get task_inv_def DEAD_def
          StatsCell_new_def split: if_splits)
  qed (use shared none world_invD(4) [OF inv] in \<open>auto simp: w' set_task_def register_actor_def hm.inv_insert
      hm.get_insert mon_register_inv mon_register_get split: if_splits\<close>)
qed

lemma astep_inv:
  assumes ord: "\<And>xs. distinct xs \<Longrightarrow> distinct (ord xs)"
  shows "astep ord w w' \<Longrightarrow> world_inv w \<Longrightarrow> world_inv w'"
proof (induction rule: astep.induct)
  case (spawns w a sv cfg r w')
  then show ?case by (blast intro: spawn_inv)
next
  case (sends r env w ok w')
  show ?case
  proof (cases "tasks w (ref_id r)")
    case (Some t)
    then obtain ch where ch: "chan_send env (mailbox t) = Some (ok, ch)" "w' = set_task (ref_id r) (t\<lparr>mailbox := ch\<rparr>) w"
      using sends.hyps by (auto simp: ref_tx_send_def split: option.splits)
    show ?thesis unfolding ch(2)
      using Some world_invD(5) [OF sends.prems Some] task_inv_mailbox [OF chan_send_open [OF ch(1)]]
      by (intro world_inv_set_task [OF sends.prems]) auto
  qed (use sends in \<open>simp add: ref_tx_send_def\<close>)
next
  case (drops_refs w i t)
  then show ?case using world_invD(5) [OF drops_refs.prems drops_refs.hyps]
    by (intro world_inv_set_task) (auto simp: task_inv_def)
next
  case (takes_control i w t c cs)
  then have t: "tasks w i = Some t" "status t = Running" "pc t = []" by (auto simp: waiting_def)
  have "task_inv i (hm_get (actors w) i) (hm_get (cells w) i) (signal_count i (sent w))
      (t\<lparr>control := (control t)\<lparr>queue := cs\<rparr>\<rparr>)"
    using world_invD(5) [OF takes_control.prems t(1)] by (simp add: task_inv_control)
  then show ?case using takes_control.prems t by (intro world_inv_set_task on_control_inv) auto
next
  case (control_gone i w t)
  then show ?case using world_invD(5) [OF control_gone.prems, of i t]
    by (intro world_inv_set_task) (auto simp: waiting_def task_inv_def)
next
  case (takes_envelope i w t e es t' mon)
  then have t: "tasks w i = Some t" "status t = Running" "pc t = []" by (auto simp: waiting_def)
  have ti: "task_inv i (hm_get (actors w) i) (hm_get (cells w) i) (signal_count i (sent w))
      (t\<lparr>mailbox := (mailbox t)\<lparr>queue := es\<rparr>\<rparr>)"
    using world_invD(5) [OF takes_envelope.prems t(1)] by (simp add: task_inv_mailbox)
  note env = on_envelope_inv [OF ti _ _ world_invD(2) [OF takes_envelope.prems] takes_envelope.hyps(5)]
  show ?case using env t world_invD(1) [OF takes_envelope.prems]
    by (intro world_inv_update [OF takes_envelope.prems, where i = i and t' = t']) (auto simp: set_task_def)
next
  case (mailbox_gone i w t)
  then show ?case using world_invD(5) [OF mailbox_gone.prems, of i t]
    by (intro world_inv_set_task) (auto simp: waiting_def task_inv_def)
next
  case (acts w i t a as lag races w')
  then show ?case using exec_inv [OF acts.prems acts.hyps ord] by blast
next
  case (unregisters w i)
  then have "tasks w j = Some t \<Longrightarrow>
      task_inv j (hm_get (unregister_actor i (actors w)) j) (hm_get (cells w) j) (signal_count j (sent w)) t" for j t
    using world_invD(1) [OF unregisters.prems] world_invD(5) [OF unregisters.prems, of j t] task_inv_unregister
    by (cases "j = i") (auto simp: unregister_actor_def hm.get_remove)
  then show ?case
    using unregisters.prems by (auto simp: world_inv_def unregister_actor_def hm.inv_remove hm.get_remove)
next
  case (signal_taken w s x xs)
  then show ?case by (simp add: world_inv_def)
qed

lemma areach_inv:
  assumes ord: "\<And>xs. distinct xs \<Longrightarrow> distinct (ord xs)"
  shows "areach ord w \<Longrightarrow> world_inv w"
proof (induction rule: areach.induct)
  case (start sigs)
  show ?case by (simp add: world_inv_def world_new_def monitor_new_def hm.inv_empty hm.get_empty signal_count_def)
next
  case (step w w')
  then show ?case using astep_inv [where ord = ord] ord by blast
qed

text \<open>The whole system keeps the invariant, whatever order each exit iterates its links in.\<close>

interpretation world_sys: step_invariant
  "\<lambda>w w'. \<exists>ord. (\<forall>xs. mset (ord xs) = mset xs) \<and> astep ord w w'" world_inv
proof
  fix w w' :: "('a, 'm) World"
  assume inv: "world_inv w" and "\<exists>ord. (\<forall>xs. mset (ord xs) = mset xs) \<and> astep ord w w'"
  then obtain ord where ord: "\<forall>xs. mset (ord xs) = mset xs" and st: "astep ord w w'" by blast
  have "distinct xs \<Longrightarrow> distinct (ord xs)" for xs using ord mset_eq_imp_distinct_iff by metis
  then show "world_inv w'" using astep_inv [where ord = ord] inv st by blast
qed

section \<open>The exit sequence\<close>

text \<open>Up to \<open>k\<close> actions of one task, run without another task between them.\<close>

fun run_actions ::
  "(ActorId list \<Rightarrow> ActorId list) \<Rightarrow> duration \<Rightarrow> u64 list \<Rightarrow> nat \<Rightarrow> ActorId \<Rightarrow> ('a, 'm) World \<Rightarrow> ('a, 'm) World option" where
  "run_actions ord lag races 0 i w = Some w"
| "run_actions ord lag races (Suc k) i w =
     (case tasks w i of
        None \<Rightarrow> Some w
      | Some t \<Rightarrow>
          (case pc t of
             [] \<Rightarrow> Some w
           | a # as \<Rightarrow> Option.bind (exec ord lag races i a (t\<lparr>pc := as\<rparr>) w) (run_actions ord lag races k i)))"

text \<open>A task after a linked exit arrived on its control channel, if that is still open.\<close>

definition told :: "ActorId \<Rightarrow> ExitReason \<Rightarrow> ('a, 'm) Task \<Rightarrow> ('a, 'm) Task" where
  "told i r t = (if rx_open (control t)
     then t\<lparr>control := (control t)\<lparr>queue := queue (control t) @ [LinkedExit i r]\<rparr>\<rparr> else t)"

definition has_room :: "('a, 'm) Task \<Rightarrow> bool" where
  "has_room t \<longleftrightarrow> \<not> rx_open (control t) \<or> length (queue (control t)) < cap (control t)"

lemma chan_send_room: "has_room t \<Longrightarrow>
   chan_send (LinkedExit i r) (control t) = Some (rx_open (control t), control (told i r t))"
  by (auto simp: has_room_def chan_send_def told_def)

lemma told_control: "t\<lparr>control := control (told i r t)\<rparr> = told i r t"
  by (simp add: told_def)

lemma control_send_told:
  assumes "\<forall>e. hm_get (actors w) p = Some e \<longrightarrow> control_of e = p" and "\<forall>tp. tasks w p = Some tp \<longrightarrow> has_room tp"
  shows "control_send p (LinkedExit i r) w = Some (w\<lparr>tasks := (\<lambda>q.
      if q = p \<and> hm_get (actors w) p \<noteq> None then map_option (told i r) (tasks w p) else tasks w q)\<rparr>)"
proof (cases "hm_get (actors w) p")
  case None
  then show ?thesis by (simp add: control_send_def get_control_sender_def)
next
  case (Some e)
  then have e: "control_of e = p" using assms(1) by blast
  show ?thesis
  proof (cases "tasks w p")
    case None
    then have "(\<lambda>q. if q = p \<and> hm_get (actors w) p \<noteq> None then map_option (told i r) (tasks w p) else tasks w q) = tasks w"
      by (auto simp: fun_eq_iff)
    then show ?thesis using Some None e by (simp only:) (simp add: control_send_def get_control_sender_def)
  next
    case (Some tp)
    have f: "(\<lambda>q. if q = p \<and> hm_get (actors w) p \<noteq> None then map_option (told i r) (tasks w p) else tasks w q)
        = (tasks w)(p \<mapsto> told i r tp)"
      using Some \<open>hm_get (actors w) p = Some e\<close> by auto
    have "control_send p (LinkedExit i r) w = Some (set_task p (told i r tp) w)"
      using Some \<open>hm_get (actors w) p = Some e\<close> e assms(2)
      by (simp add: control_send_def get_control_sender_def chan_send_room told_control)
    then show ?thesis unfolding f set_task_def .
  qed
qed

lemma run_propagate:
  assumes "distinct ps" and "i \<notin> set ps" and "tasks w i = Some t" and "pc t = APropagate r ps # as"
    and "\<And>p e. hm_get (actors w) p = Some e \<Longrightarrow> control_of e = p"
    and "\<And>p tp. p \<in> set ps \<Longrightarrow> tasks w p = Some tp \<Longrightarrow> has_room tp"
  shows "run_actions ord lag races (Suc (length ps) + k) i w =
    run_actions ord lag races k i (w\<lparr>tasks := (\<lambda>q. if q = i then Some (t\<lparr>pc := as\<rparr>)
      else if q \<in> set ps \<and> hm_get (actors w) q \<noteq> None then map_option (told i r) (tasks w q) else tasks w q)\<rparr>)"
  using assms
proof (induction ps arbitrary: w t)
  case Nil
  have f: "(\<lambda>q. if q = i then Some (t\<lparr>pc := as\<rparr>) else if q \<in> set [] \<and> hm_get (actors w) q \<noteq> None
      then map_option (told i r) (tasks w q) else tasks w q) = (tasks w)(i \<mapsto> t\<lparr>pc := as\<rparr>)" by auto
  show ?case unfolding f using Nil by (simp add: set_task_def)
next
  case (Cons p ps)
  let ?t = "t\<lparr>pc := APropagate r ps # as\<rparr>"
  let ?w1 = "set_task i ?t w"
  have room: "\<forall>tp. tasks ?w1 p = Some tp \<longrightarrow> has_room tp"
    using Cons.prems(2,6) by (auto simp: set_task_def)
  let ?w2 = "?w1\<lparr>tasks := (\<lambda>q. if q = p \<and> hm_get (actors ?w1) p \<noteq> None then map_option (told i r) (tasks ?w1 p) else tasks ?w1 q)\<rparr>"
  have "control_send p (LinkedExit i r) ?w1 = Some ?w2"
    by (rule control_send_told [OF _ room]) (use Cons.prems(5) in \<open>auto simp: set_task_def\<close>)
  then have one: "run_actions ord lag races (Suc (length (p # ps)) + k) i w = run_actions ord lag races (Suc (length ps) + k) i ?w2"
    using Cons.prems(3,4) by simp
  have two: "run_actions ord lag races (Suc (length ps) + k) i ?w2 =
    run_actions ord lag races k i (?w2\<lparr>tasks := (\<lambda>q. if q = i then Some (?t\<lparr>pc := as\<rparr>)
      else if q \<in> set ps \<and> hm_get (actors ?w2) q \<noteq> None then map_option (told i r) (tasks ?w2 q) else tasks ?w2 q)\<rparr>)"
    by (rule Cons.IH [of ?w2 ?t]) (use Cons.prems in \<open>auto simp: set_task_def split: if_splits\<close>)
  define F where "F = (\<lambda>q. if q = i then Some (?t\<lparr>pc := as\<rparr>)
      else if q \<in> set ps \<and> hm_get (actors ?w2) q \<noteq> None then map_option (told i r) (tasks ?w2 q) else tasks ?w2 q)"
  have "F = (\<lambda>q. if q = i then Some (t\<lparr>pc := as\<rparr>)
      else if q \<in> set (p # ps) \<and> hm_get (actors w) q \<noteq> None then map_option (told i r) (tasks w q) else tasks w q)"
    unfolding F_def using Cons.prems(1,2) by (auto simp: set_task_def fun_eq_iff)
  moreover have "?w2\<lparr>tasks := F\<rparr> = w\<lparr>tasks := F\<rparr>" by (simp add: set_task_def)
  ultimately show ?case unfolding one two F_def [symmetric] by (simp only:)
qed

lemma exit_run:
  assumes reg: "\<And>p e. hm_get (actors w) p = Some e \<Longrightarrow> control_of e = p" and inv: "hm_inv (actors w)"
    and ord: "mset (ord (links t)) = mset (links t)" and dl: "distinct (links t)" and self: "i \<notin> set (links t)"
    and t: "tasks w i = Some t" "status t = Running" "pc t = [AExit r]"
    and post: "fst (dyn_post_stop (actor t) (ast (actor t))) \<noteq> CbPanic"
    and room: "\<And>p tp. p \<in> set (links t) \<Longrightarrow> tasks w p = Some tp \<Longrightarrow> has_room tp"
  obtains k w' t' where "run_actions ord lag races k i w = Some w'"
    "notified w' = notified w @ map (\<lambda>(_, tx). (tx, r)) (monitors t)"
    "tasks w' i = Some t'" "status t' = Ended" "pc t' = []" "hm_get (actors w') i = None"
    "\<And>p. p \<noteq> i \<Longrightarrow> tasks w' p = (if should_propagate_linked_exit r \<and> p \<in> set (links t) \<and> hm_get (actors w) p \<noteq> None
        then map_option (told i r) (tasks w p) else tasks w p)"
proof -
  let ?ps = "ord (links t)" and ?tail = "[AUnregister, AMarkInactive, AEnd]"
  let ?pc = "(if should_propagate_linked_exit r then [APropagate r ?ps] else []) @ ?tail"
  have ps: "distinct ?ps" "set ?ps = set (links t)"
    using mset_eq_imp_distinct_iff [OF ord] dl mset_eq_setD [OF ord] by blast+
  obtain s where s: "dyn_post_stop (actor t) (ast (actor t)) = (CbOk, s) \<or> (\<exists>e. dyn_post_stop (actor t) (ast (actor t)) = (CbErr e, s))"
    using post by (cases "dyn_post_stop (actor t) (ast (actor t))"; cases "fst (dyn_post_stop (actor t) (ast (actor t)))") auto
  define t3 where "t3 = t\<lparr>actor := (actor t)\<lparr>ast := s\<rparr>, pc := ?pc, monitors := []\<rparr>"
  define w3 where "w3 = set_task i t3 (w\<lparr>notified := notified w @ map (\<lambda>(_, tx). (tx, r)) (monitors t)\<rparr>)"
  have three: "run_actions ord lag races (Suc (Suc (Suc k))) i w = run_actions ord lag races k i w3" for k
    using t s by (auto simp: set_task_def finish_actor_def w3_def t3_def)
  have fin: "\<exists>w' t'. run_actions ord lag races 3 i u = Some w' \<and> notified w' = notified u \<and> tasks w' i = Some t'
      \<and> status t' = Ended \<and> pc t' = [] \<and> hm_get (actors w') i = None \<and> (\<forall>p. p \<noteq> i \<longrightarrow> tasks w' p = tasks u p)"
    if "tasks u i = Some v" "pc v = ?tail" "hm_inv (actors u)" for u v
    using that by (simp add: numeral_3_eq_3 set_task_def unregister_actor_def hm.get_remove)
  show ?thesis
  proof (cases "should_propagate_linked_exit r")
    case False
    have "tasks w3 i = Some t3" "pc t3 = ?tail" "hm_inv (actors w3)"
      using False inv by (simp_all add: w3_def t3_def set_task_def)
    from fin [OF this] obtain w' t' where w': "run_actions ord lag races 3 i w3 = Some w'" "notified w' = notified w3"
      "tasks w' i = Some t'" "status t' = Ended" "pc t' = []" "hm_get (actors w') i = None"
      "\<forall>p. p \<noteq> i \<longrightarrow> tasks w' p = tasks w3 p" by blast
    have "run_actions ord lag races (Suc (Suc (Suc 3))) i w = Some w'" by (simp only: three w'(1))
    then show ?thesis
      using w' False by (intro that [of "Suc (Suc (Suc 3))" w' t']) (auto simp: w3_def set_task_def)
  next
    case True
    define w4 where "w4 = w3\<lparr>tasks := (\<lambda>q. if q = i then Some (t3\<lparr>pc := ?tail\<rparr>)
      else if q \<in> set ?ps \<and> hm_get (actors w3) q \<noteq> None then map_option (told i r) (tasks w3 q) else tasks w3 q)\<rparr>"
    have spread: "run_actions ord lag races (Suc (length ?ps) + 3) i w3 = run_actions ord lag races 3 i w4"
      unfolding w4_def
      by (rule run_propagate [OF ps(1), where t = t3])
        (use True ps self reg room in \<open>auto simp: w3_def t3_def set_task_def split: if_splits\<close>)
    have "tasks w4 i = Some (t3\<lparr>pc := ?tail\<rparr>)" "pc (t3\<lparr>pc := ?tail\<rparr>) = ?tail" "hm_inv (actors w4)"
      using inv by (simp_all add: w4_def w3_def set_task_def)
    from fin [OF this] obtain w' t' where w': "run_actions ord lag races 3 i w4 = Some w'" "notified w' = notified w4"
      "tasks w' i = Some t'" "status t' = Ended" "pc t' = []" "hm_get (actors w') i = None"
      "\<forall>p. p \<noteq> i \<longrightarrow> tasks w' p = tasks w4 p" by blast
    have run: "run_actions ord lag races (Suc (Suc (Suc (Suc (length ?ps) + 3)))) i w = Some w'"
      by (simp only: three spread w'(1))
    have "tasks w4 p = (if p \<in> set (links t) \<and> hm_get (actors w) p \<noteq> None then map_option (told i r) (tasks w p) else tasks w p)"
      if "p \<noteq> i" for p using that ps by (auto simp: w4_def w3_def set_task_def)
    then show ?thesis
      using w' True by (intro that [OF run]) (auto simp: w4_def w3_def set_task_def)
  qed
qed

lemma areach_world_inv:
  assumes "areach ord w" and "\<forall>xs. mset (ord xs) = mset xs"
  shows "world_inv w"
proof -
  have "distinct xs \<Longrightarrow> distinct (ord xs)" for xs :: "ActorId list"
    using assms(2) mset_eq_imp_distinct_iff by metis
  then show ?thesis using areach_inv [where ord = ord] assms(1) by blast
qed

lemma astep_world_inv:
  "world_inv w \<Longrightarrow> astep ord w w' \<Longrightarrow> \<forall>xs. mset (ord xs) = mset xs \<Longrightarrow> world_inv w'"
  by (rule world_sys.step_inv) auto

lemma registered_control:
  assumes "world_inv w" and "hm_get (actors w) p = Some e"
  shows "control_of e = p"
proof (cases "tasks w p")
  case None
  then show ?thesis using world_invD(4) [OF assms(1)] assms(2) by simp
next
  case (Some t)
  then show ?thesis using world_invD(5) [OF assms(1)] assms(2) by (auto simp: task_inv_def)
qed

lemma task_links_distinct: "world_inv w \<Longrightarrow> tasks w i = Some t \<Longrightarrow> distinct (links t)"
  using world_invD(5) [of w i t] by (simp add: task_inv_def)

section \<open>Properties\<close>

text \<open>C1. The life of an actor, in every interleaving of tasks, spawns, sends and reference drops, with
  fewer than \<open>2 ^ 64\<close> spawns: the id counter starts at 1, and \<open>astep\<close> spawns only while it has not wrapped
  around to the sentinel. An actor's id is never the sentinel \<open>DEAD\<close>; it reports to its supervisor at most once, and only when it is
  leaving or gone, so it handles nothing after the report; while it has not crashed, its in-flight
  counter is 1 exactly while a handler runs; and once it has ended its registry entry is gone, its
  channels are closed and the counter is 0.\<close>

theorem actor_lifecycle:
  assumes "areach ord w" and "\<forall>xs. mset (ord xs) = mset xs" and "tasks w i = Some t"
  shows "i \<noteq> DEAD \<and> signal_count i (sent w) \<le> 1
    \<and> (signal_count i (sent w) = 1 \<longrightarrow> status t \<noteq> Running \<or> exit_pc (pc t))
    \<and> (status t \<noteq> Crashed \<longrightarrow> (\<exists>c. hm_get (cells w) i = Some c \<and> in_flight c = (if runs_handle (pc t) then 1 else 0)))
    \<and> (status t = Ended \<longrightarrow> pc t = [] \<and> get_control_sender i (actors w) = None
        \<and> \<not> rx_open (mailbox t) \<and> \<not> rx_open (control t))"
  using world_invD(5) [OF areach_world_inv [OF assms(1,2)] assms(3)]
  by (auto simp: task_inv_def get_control_sender_def)

definition demo_world :: "(unit, nat) World" where
  "demo_world = (case spawn (actor_defaults ()) (Some 0) (world_new (\<lambda>_. \<lparr>cap = 4, queue = [], rx_open = True\<rparr>)) of
     Returns (_, w) \<Rightarrow> w | Panics _ \<Rightarrow> undefined)"

lemma demo_world_spawned:
  "spawn_on_runtime (actor_defaults ()) (Some 0) ActorConfig_default
     (world_new (\<lambda>_. \<lparr>cap = 4, queue = [], rx_open = True\<rparr>)) = Returns (\<lparr>ref_id = 1\<rparr>, demo_world)"
  by (simp add: demo_world_def spawning world_new_def)

lemma demo_world_reach: "areach rev demo_world"
  by (rule areach.step [OF areach.start astep.spawns [OF _ demo_world_spawned]]) (simp add: world_new_def)

lemma demo_world_task:
  "tasks demo_world 1 = Some (new_task (actor_defaults ()) ActorConfig_default
     \<lparr>cap = 64, queue = [], rx_open = True\<rparr> \<lparr>cap = 64, queue = [], rx_open = True\<rparr>)"
  by (simp add: demo_world_def spawning world_new_def)

theorem actor_lifecycle_witness:
  "(1 :: ActorId) \<noteq> DEAD \<and> signal_count 1 (sent demo_world) \<le> 1
    \<and> (\<exists>c. hm_get (cells demo_world) 1 = Some c \<and> in_flight c = 0)"
  using actor_lifecycle [OF demo_world_reach _ demo_world_task] by (simp add: new_task_def)

text \<open>Specification of the two ways a run of \<open>handle\<close> comes to its end: within the limit of the
  configuration, or beyond it.\<close>

definition in_time :: "ActorConfig \<Rightarrow> 'a handle_run \<Rightarrow> bool" where
  "in_time cfg run \<longleftrightarrow> (\<exists>t. run_time run = Some t \<and> (\<forall>l. handle_timeout cfg = Some l \<longrightarrow> t \<le> l))"

definition overruns :: "ActorConfig \<Rightarrow> 'a handle_run \<Rightarrow> duration \<Rightarrow> bool" where
  "overruns cfg run l \<longleftrightarrow> handle_timeout cfg = Some l \<and> (\<forall>t. run_time run = Some t \<longrightarrow> l < t)"

lemma run_ends [consumes 0, case_names in_time overruns hangs]:
  obtains "in_time cfg run" | l where "overruns cfg run l" | "handle_timeout cfg = None" "run_time run = None"
  unfolding in_time_def overruns_def by (cases "handle_timeout cfg"; cases "run_time run") (auto simp: not_le [symmetric])

text \<open>The result of \<open>handle_body\<close> in each case, as rewrite rules.\<close>

lemma handle_body_begin:
  "dyn_on_handle_begin a m (ast a) = (CbPanic, t0, s) \<Longrightarrow> handle_body i cfg lag races m a mon = (Unwinds, a\<lparr>ast := s\<rparr>, mon)"
  "dyn_on_handle_begin a m (ast a) = (CbErr x, t0, s) \<Longrightarrow>
     handle_body i cfg lag races m a mon = (Fails (Error x), a\<lparr>ast := s\<rparr>, record_error i mon)"
  by (simp_all add: handle_body_def)

lemma handle_body_in_time:
  assumes "dyn_on_handle_begin a m (ast a) = (CbOk, t0, s)" and "in_time cfg (dyn_handle a m s)"
  shows "handle_body i cfg lag races m a mon =
    (case run_result (dyn_handle a m s) of
       CbOk \<Rightarrow> (Continue, a\<lparr>ast := run_state (dyn_handle a m s)\<rparr>,
                 finish_handle i (t0 + the (run_time (dyn_handle a m s)) + lag) (effective_slow_threshold cfg) races mon)
     | CbErr x \<Rightarrow> (Fails (Error x), a\<lparr>ast := run_state (dyn_handle a m s)\<rparr>, record_error i mon)
     | CbPanic \<Rightarrow> (Fails (Error ''panic in handle''), a\<lparr>ast := run_state (dyn_handle a m s)\<rparr>, record_panic i mon))"
  using assms by (auto simp: handle_body_def in_time_def Let_def split: option.splits callback.splits)

lemma handle_body_overruns:
  assumes "dyn_on_handle_begin a m (ast a) = (CbOk, t0, s)" and "overruns cfg (dyn_handle a m s) l"
    and "dyn_on_handle_stuck a \<lparr>stuck_id = i, elapsed = t0 + l + lag, limit = l\<rparr> (cancelled (dyn_handle a m s)) = (cb, s')"
  shows "handle_body i cfg lag races m a mon =
    (if cb = CbPanic then Unwinds else Fails (HandleTimeout (as_millis_u64 (t0 + l + lag)) (as_millis_u64 l)),
     a\<lparr>ast := s'\<rparr>, record_timeout i (t0 + l + lag) mon)"
  using assms by (auto simp: handle_body_def overruns_def Let_def split: option.splits callback.splits)

lemma handle_body_hangs:
  assumes "dyn_on_handle_begin a m (ast a) = (CbOk, t0, s)" and "handle_timeout cfg = None" "run_time (dyn_handle a m s) = None"
  shows "handle_body i cfg lag races m a mon = (Hangs, a\<lparr>ast := s\<rparr>, mon)"
  using assms by (simp add: handle_body_def)

lemma ways_exclusive:
  "in_time cfg run \<Longrightarrow> \<not> overruns cfg run l" "in_time cfg run \<Longrightarrow> run_time run \<noteq> None"
  "overruns cfg run l \<Longrightarrow> handle_timeout cfg = Some l"
  by (auto simp: in_time_def overruns_def)

text \<open>C8. One message, every outcome. What \<open>on_handle_begin\<close> returns, whether \<open>handle\<close> completes within
  the limit, and with what, decide the result of \<open>handle_message\<close>: it continues exactly when both return
  \<open>Ok\<close> in time; an error of either, or a panic of \<open>handle\<close>, ends the actor with just that \<open>Error\<close>; a
  handler beyond the limit, and only that, with \<open>HandleTimeout\<close> of the time since the call and the limit;
  a panic of \<open>on_handle_begin\<close> or \<open>on_handle_stuck\<close> unwinds the task; and only a handler that never
  completes and has no limit hangs. The actor is left with the state of the last callback. Only this
  actor's counters change, and they agree with the result: one handled message, one error, one panic or
  one timeout, and the in-flight counter back where it was in each of these cases.\<close>

theorem handle_message_accounting:
  assumes inv: "hm_inv mon" and c: "hm_get mon i = Some c"
    and res: "handle_message i cfg lag races m a mon = (e, a', mon')"
    and beg: "dyn_on_handle_begin a m (ast a) = (cb, t0, s)" and run: "dyn_handle a m s = run"
  shows "(e = Continue \<longleftrightarrow> cb = CbOk \<and> in_time cfg run \<and> run_result run = CbOk)
    \<and> (\<forall>x. e = Fails (Error x) \<longleftrightarrow> cb = CbErr x \<or> cb = CbOk \<and> in_time cfg run
          \<and> (run_result run = CbErr x \<or> run_result run = CbPanic \<and> x = ''panic in handle''))
    \<and> (\<forall>el l. e = Fails (HandleTimeout el l) \<longleftrightarrow> cb = CbOk \<and> (\<exists>d. overruns cfg run d
          \<and> fst (dyn_on_handle_stuck a \<lparr>stuck_id = i, elapsed = t0 + d + lag, limit = d\<rparr> (cancelled run)) \<noteq> CbPanic
          \<and> el = as_millis_u64 (t0 + d + lag) \<and> l = as_millis_u64 d))
    \<and> (e = Unwinds \<longleftrightarrow> cb = CbPanic \<or> cb = CbOk \<and> (\<exists>d. overruns cfg run d
          \<and> fst (dyn_on_handle_stuck a \<lparr>stuck_id = i, elapsed = t0 + d + lag, limit = d\<rparr> (cancelled run)) = CbPanic))
    \<and> (e = Hangs \<longleftrightarrow> cb = CbOk \<and> handle_timeout cfg = None \<and> run_time run = None)
    \<and> (cb \<noteq> CbOk \<or> e = Hangs \<longrightarrow> a' = a\<lparr>ast := s\<rparr>)
    \<and> (cb = CbOk \<and> in_time cfg run \<longrightarrow> a' = a\<lparr>ast := run_state run\<rparr>)
    \<and> (\<forall>d. cb = CbOk \<and> overruns cfg run d \<longrightarrow>
          a' = a\<lparr>ast := snd (dyn_on_handle_stuck a \<lparr>stuck_id = i, elapsed = t0 + d + lag, limit = d\<rparr> (cancelled run))\<rparr>)
    \<and> (\<forall>j. j \<noteq> i \<longrightarrow> hm_get mon' j = hm_get mon j) \<and> (\<exists>c'. hm_get mon' i = Some c' \<and>
    (case e of
       Continue \<Rightarrow> in_flight c' = in_flight c \<and> messages_handled c' = messages_handled c + 1
         \<and> handle_errors c' = handle_errors c \<and> panics c' = panics c \<and> handle_timeouts c' = handle_timeouts c
     | Fails (Error x) \<Rightarrow> in_flight c' = in_flight c \<and> messages_handled c' = messages_handled c
         \<and> handle_errors c' = handle_errors c + (if cb = CbOk \<and> run_result run = CbPanic then 0 else 1)
         \<and> panics c' = panics c + (if cb = CbOk \<and> run_result run = CbPanic then 1 else 0) \<and> handle_timeouts c' = handle_timeouts c
     | Fails (HandleTimeout el l) \<Rightarrow> in_flight c' = in_flight c \<and> messages_handled c' = messages_handled c
         \<and> handle_errors c' = handle_errors c \<and> panics c' = panics c \<and> handle_timeouts c' = handle_timeouts c + 1
         \<and> handle_timeout cfg \<noteq> None \<and> l \<le> el
     | Fails _ \<Rightarrow> False
     | Unwinds \<Rightarrow> in_flight c' = in_flight c \<or> in_flight c' = in_flight c + 1 \<and> cb = CbPanic
     | Hangs \<Rightarrow> handle_timeout cfg = None \<and> in_flight c' = in_flight c + 1))"
proof -
  have b: "hm_inv (begin_handle i mon)" "hm_get (begin_handle i mon) i = Some (c\<lparr>in_flight := in_flight c + 1\<rparr>)"
    "j \<noteq> i \<Longrightarrow> hm_get (begin_handle i mon) j = hm_get mon j" for j
    using inv c by (simp_all add: begin_handle_def with_cell_inv with_cell_get)
  note get = with_cell_get [OF b(1)]
  note counters = get finish_handle_def record_error_def record_panic_def record_timeout_def finish_cell_def Let_def
  have res: "handle_body i cfg lag races m a (begin_handle i mon) = (e, a', mon')" using res by (simp add: handle_message_def)
  show ?thesis
  proof (cases cb)
    case CbPanic
    then show ?thesis using res beg b(2,3) by (auto simp: handle_body_begin)
  next
    case (CbErr x)
    then show ?thesis using res beg b(2,3) by (auto simp: handle_body_begin counters)
  next
    case CbOk
    note beg = beg [unfolded CbOk]
    show ?thesis
    proof (cases rule: run_ends [of cfg run])
      case in_time
      then show ?thesis using handle_body_in_time [OF beg] res run b(2,3) CbOk ways_exclusive [of cfg run]
        by (cases "run_result run") (auto simp: counters)
    next
      case (overruns l)
      obtain cb' s' where st: "dyn_on_handle_stuck a \<lparr>stuck_id = i, elapsed = t0 + l + lag, limit = l\<rparr> (cancelled run) = (cb', s')"
        by fastforce
      have "(e, a', mon') = (if cb' = CbPanic then Unwinds else Fails (HandleTimeout (as_millis_u64 (t0 + l + lag)) (as_millis_u64 l)),
          a\<lparr>ast := s'\<rparr>, record_timeout i (t0 + l + lag) (begin_handle i mon))"
        using handle_body_overruns [OF beg] overruns st res run by simp
      then have r: "e = (if cb' = CbPanic then Unwinds else Fails (HandleTimeout (as_millis_u64 (t0 + l + lag)) (as_millis_u64 l)))"
        "a' = a\<lparr>ast := s'\<rparr>" "mon' = record_timeout i (t0 + l + lag) (begin_handle i mon)" by simp_all
      have o: "overruns cfg run d \<longleftrightarrow> d = l" "\<not> in_time cfg run" for d
        using overruns ways_exclusive(1) [of cfg run] by (auto simp: overruns_def)
      have "as_millis_u64 l \<le> as_millis_u64 (t0 + l + lag)" by (rule as_millis_mono) simp
      with b(2,3) CbOk st ways_exclusive(3) [OF overruns] show ?thesis
        by (cases "cb' = CbPanic") (auto simp: r o counters)
    next
      case hangs
      then show ?thesis using handle_body_hangs [OF beg] res run b(2,3) CbOk by (auto simp: in_time_def overruns_def)
    qed
  qed
qed

definition demo_slow :: "(unit, nat) DynActor" where
  "demo_slow = (actor_defaults ())\<lparr>dyn_handle := (\<lambda>_ s.
     \<lparr>run_time = None, run_result = CbOk, run_state = s, cancelled = s\<rparr>)\<rparr>"

theorem handle_message_accounting_witness:
  "\<exists>a' mon' c'. handle_message 1 (ActorConfig_default\<lparr>handle_timeout := Some (millis 5)\<rparr>) 0 [] 7 demo_slow [(1, StatsCell_new)]
      = (Fails (HandleTimeout 5 5), a', mon') \<and> hm_get mon' 1 = Some c' \<and> handle_timeouts c' = 1 \<and> in_flight c' = 0"
proof -
  have m: "hm_inv [(1 :: ActorId, StatsCell_new)]" "hm_get [(1 :: ActorId, StatsCell_new)] 1 = Some StatsCell_new"
    by (simp_all add: hm_inv_def hm_get_def)
  obtain a' mon' where r: "handle_message 1 (ActorConfig_default\<lparr>handle_timeout := Some (millis 5)\<rparr>) 0 [] 7 demo_slow [(1, StatsCell_new)]
      = (Fails (HandleTimeout 5 5), a', mon')"
    by (simp add: handle_message_def handle_body_def demo_slow_def actor_defaults_def Let_def as_millis_u64_def millis_def)
  have b: "dyn_on_handle_begin demo_slow 7 (ast demo_slow) = (CbOk, 0, ())" by (simp add: demo_slow_def actor_defaults_def)
  from handle_message_accounting [OF m r b refl] r show ?thesis by (auto simp: StatsCell_new_def)
qed

text \<open>C6. Leaving. An actor that leaves the loop with reason \<open>r\<close> and whose \<open>post_stop\<close> does not panic
  always completes its exit: every monitor is told \<open>r\<close> once, in order; each registered linked actor with
  an open control channel gets one \<open>LinkedExit\<close> with \<open>r\<close>, unless \<open>r\<close> is \<open>Normal\<close> or \<open>Shutdown\<close>, when no
  one does; no other task is touched; and the registry entry is gone at the end. It needs room in the
  linked actors' control channels, and an actor not linked to itself.\<close>

theorem exit_notifies:
  assumes reach: "areach ord w" and ord: "\<forall>xs. mset (ord xs) = mset xs"
    and t: "tasks w i = Some t" "status t = Running" "pc t = [AExit r]" and self: "i \<notin> set (links t)"
    and post: "fst (dyn_post_stop (actor t) (ast (actor t))) \<noteq> CbPanic"
    and room: "\<forall>p tp. p \<in> set (links t) \<and> tasks w p = Some tp \<longrightarrow> has_room tp"
  shows "\<exists>k w' t'. run_actions ord lag races k i w = Some w'
    \<and> notified w' = notified w @ map (\<lambda>(_, tx). (tx, r)) (monitors t)
    \<and> tasks w' i = Some t' \<and> status t' = Ended \<and> hm_get (actors w') i = None
    \<and> (\<forall>p. p \<noteq> i \<longrightarrow> tasks w' p =
        (if r \<noteq> Normal \<and> r \<noteq> Shutdown \<and> p \<in> set (links t) \<and> hm_get (actors w) p \<noteq> None
         then map_option (told i r) (tasks w p) else tasks w p))"
proof -
  note inv = areach_world_inv [OF reach ord]
  have ol: "mset (ord (links t)) = mset (links t)" using ord by blast
  show ?thesis
  proof (rule exit_run [where ord = ord and lag = lag and races = races,
        OF _ world_invD(1) [OF inv] ol task_links_distinct [OF inv t(1)] self t post])
    show "control_of e = p" if "hm_get (actors w) p = Some e" for p e using registered_control [OF inv that] .
    show "has_room tp" if "p \<in> set (links t)" "tasks w p = Some tp" for p tp using room that by blast
    fix k w' t'
    assume "run_actions ord lag races k i w = Some w'"
      "notified w' = notified w @ map (\<lambda>(_, tx). (tx, r)) (monitors t)"
      "tasks w' i = Some t'" "status t' = Ended" "hm_get (actors w') i = None"
      "\<And>p. p \<noteq> i \<Longrightarrow> tasks w' p = (if should_propagate_linked_exit r \<and> p \<in> set (links t) \<and> hm_get (actors w) p \<noteq> None
        then map_option (told i r) (tasks w p) else tasks w p)"
    then show ?thesis
      by (intro exI [of _ k] exI [of _ w'] exI [of _ t'] conjI) (auto simp: should_propagate_linked_exit_def)
  qed
qed

definition demo_leaving :: "(unit, nat) World" where
  "demo_leaving = set_task 1 ((new_task (actor_defaults ()) ActorConfig_default
      \<lparr>cap = 64, queue = [], rx_open = True\<rparr> \<lparr>cap = 64, queue = [], rx_open = True\<rparr>)\<lparr>pc := [AExit Shutdown]\<rparr>)
     demo_world"

lemma demo_leaving_reach: "areach rev demo_leaving"
proof -
  let ?ch = "\<lparr>cap = 64, queue = [], rx_open = True\<rparr>"
  let ?t0 = "new_task (actor_defaults ()) ActorConfig_default ?ch ?ch :: (unit, nat) Task"
  let ?w1 = "set_task 1 (?t0\<lparr>pc := []\<rparr>) demo_world"
  have 1: "areach rev ?w1"
    by (rule areach.step [OF demo_world_reach astep.acts [OF demo_world_task]])
      (auto simp: new_task_def actor_defaults_def set_task_def)
  let ?w2 = "set_task 1 (?t0\<lparr>pc := [], mailbox := ?ch\<lparr>queue := [Stop]\<rparr>\<rparr>) demo_world"
  have "ref_stop \<lparr>ref_id = 1\<rparr> ?w1 = Some (True, ?w2)"
    by (simp add: ref_stop_def ref_tx_send_def set_task_def chan_send_def new_task_def)
  then have 2: "areach rev ?w2" using areach.step [OF 1 astep.sends] unfolding ref_stop_def by blast
  have reg: "\<not> control_closed 1 ?w2"
    by (simp add: control_closed_def set_task_def demo_world_def spawn_def spawn_on_current_runtime_def
        spawn_on_runtime_def channel_def ActorId_new_def world_new_def register_actor_def hm.get_insert hm.inv_empty)
  have "astep rev ?w2 (set_task 1 (?t0\<lparr>pc := [AExit Shutdown]\<rparr>) (?w2\<lparr>cells := cells ?w2\<rparr>))"
    by (rule astep.takes_envelope [where t = "?t0\<lparr>pc := [], mailbox := ?ch\<lparr>queue := [Stop]\<rparr>\<rparr>" and e = Stop and es = "[]", OF _ _ reg])
      (simp_all add: waiting_def set_task_def new_task_def)
  then have "areach rev (set_task 1 (?t0\<lparr>pc := [AExit Shutdown]\<rparr>) (?w2\<lparr>cells := cells ?w2\<rparr>))"
    by (rule areach.step [OF 2])
  then show ?thesis by (simp add: demo_leaving_def set_task_def)
qed

theorem exit_notifies_witness:
  "\<exists>k w' t'. run_actions rev 0 [] k 1 demo_leaving = Some w' \<and> tasks w' 1 = Some t' \<and> status t' = Ended"
proof -
  have t: "tasks demo_leaving 1 = Some ((new_task (actor_defaults ()) ActorConfig_default
      \<lparr>cap = 64, queue = [], rx_open = True\<rparr> \<lparr>cap = 64, queue = [], rx_open = True\<rparr>)\<lparr>pc := [AExit Shutdown]\<rparr>)"
    by (simp add: demo_leaving_def set_task_def)
  show ?thesis
    using exit_notifies [OF demo_leaving_reach _ t, where lag = 0 and races = "[]" and r = Shutdown]
    by (auto simp: new_task_def actor_defaults_def)
qed

end
