(* ===== verification/Link_Deadlock.thy ===== *)
theory Link_Deadlock
  imports Actor
begin

text \<open>
  Two actors of \<open>src/actor.rs\<close> that link to each other while their control channels are full:
  \<open>send_reverse_link\<close> runs inside the actor loop and waits for room that only the other loop could make.
\<close>

definition full :: "'x chan \<Rightarrow> bool" where
  "full ch \<longleftrightarrow> rx_open ch \<and> cap ch \<le> length (queue ch)"

text \<open>A task that waits in \<open>send_reverse_link\<close> for \<open>peer\<close> and whose own control channel is full.\<close>

definition stuck_on :: "ActorId \<Rightarrow> ('a, 'm) Task \<Rightarrow> bool" where
  "stuck_on peer t \<longleftrightarrow> status t = Running \<and> pc t = [ASendLink peer] \<and> full (control t)"

definition listed :: "ActorId \<Rightarrow> ('a, 'm) World \<Rightarrow> bool" where
  "listed i w \<longleftrightarrow> get_control_sender i (actors w) = Some i"

definition deadlocked :: "ActorId \<Rightarrow> ActorId \<Rightarrow> ('a, 'm) World \<Rightarrow> bool" where
  "deadlocked i j w \<longleftrightarrow> i \<noteq> j \<and> listed i w \<and> listed j w
     \<and> (\<exists>t u. tasks w i = Some t \<and> stuck_on j t \<and> tasks w j = Some u \<and> stuck_on i u)"

text \<open>What a step of another actor cannot change: a full control channel takes nothing.\<close>

definition blocked :: "ActorId \<Rightarrow> ('a, 'm) World \<Rightarrow> bool" where
  "blocked i w \<longleftrightarrow> listed i w \<and> (\<exists>t. tasks w i = Some t \<and> full (control t))"

lemma control_send_blocked:
  assumes "blocked i w" and "control_send p m w = Some w'"
  shows "tasks w' i = tasks w i \<and> actors w' = actors w"
proof (cases "p = i")
  case True
  then show ?thesis using assms by (auto simp: blocked_def listed_def full_def control_send_def chan_send_def)
next
  case False
  then show ?thesis using assms
    by (auto simp: blocked_def listed_def full_def control_send_def chan_send_def set_task_def split: option.splits if_splits)
qed

lemma blocked_set_task: "i \<noteq> k \<Longrightarrow> blocked i (set_task k t w) = blocked i w"
  by (simp add: blocked_def listed_def set_task_def)

lemma control_send_other:
  assumes "blocked i w" and "i \<noteq> k" and "control_send p m (set_task k t w) = Some w'"
  shows "tasks w' i = tasks w i"
proof -
  have "blocked i (set_task k t w)" using assms(1,2) by (simp add: blocked_set_task)
  from control_send_blocked [OF this assms(3)] show ?thesis using assms(2) by (simp add: set_task_def)
qed

lemma exec_blocked:
  assumes i: "blocked i w" "i \<noteq> k" and ex: "exec ord lag races k a t w = Some w'"
  shows "tasks w' i = tasks w i"
  using ex
proof (cases a)
  case (ASendLink p)
  then show ?thesis using ex i control_send_other by simp
next
  case (APropagate r ps)
  then show ?thesis using ex i control_send_other by (cases ps) (auto simp: set_task_def)
qed (use i in \<open>auto simp: set_task_def notify_supervisor_def Let_def split: prod.splits callback.splits handle_end.splits option.splits\<close>)

text \<open>A step keeps a stuck task stuck, unless the task itself can move.\<close>

lemma astep_stuck:
  assumes inv: "world_inv w" and b: "blocked i w" and t: "tasks w i = Some t" "stuck_on j t" and j: "blocked j w" "i \<noteq> j"
    and st: "astep ord w w'"
  shows "\<exists>t'. tasks w' i = Some t' \<and> stuck_on j t'"
  using st
proof (cases rule: astep.cases)
  case (spawns a sv cfg r)
  have "tasks w (counter w) = None" using world_invD(3) [OF inv, of "counter w"] spawns by (metis less_irrefl)
  then have "i \<noteq> counter w" using t by auto
  then have "tasks w' i = tasks w i" using spawns by (auto simp: spawning split: outcome.splits)
  then show ?thesis using t by simp
next
  case (sends r env ok)
  then show ?thesis using t
    by (auto simp: ref_tx_send_def chan_send_def set_task_def stuck_on_def split: option.splits if_splits)
next
  case (drops_refs k u)
  then show ?thesis using t by (auto simp: set_task_def stuck_on_def)
next
  case (acts k u a as lag races)
  show ?thesis
  proof (cases "k = i")
    case True
    then have "control_send j (CtlLink i) (set_task i (t\<lparr>pc := []\<rparr>) w) = Some w'" using acts t by (auto simp: stuck_on_def)
    moreover have "blocked j (set_task i (t\<lparr>pc := []\<rparr>) w)" using j by (simp add: blocked_set_task)
    ultimately show ?thesis by (auto simp: blocked_def listed_def full_def control_send_def chan_send_def)
  next
    case False
    then show ?thesis using exec_blocked [OF b] acts t by metis
  qed
qed (use t in \<open>auto simp: set_task_def stuck_on_def waiting_def\<close>)

lemma deadlocked_step:
  assumes inv: "world_inv w" and d: "deadlocked i j w" and st: "astep ord w w'" and l: "listed i w'" "listed j w'"
  shows "deadlocked i j w'"
proof -
  have b: "blocked i w" "blocked j w" using d by (auto simp: deadlocked_def blocked_def stuck_on_def)
  obtain t u where tu: "tasks w i = Some t" "stuck_on j t" "tasks w j = Some u" "stuck_on i u" "i \<noteq> j"
    using d by (auto simp: deadlocked_def)
  show ?thesis
    using astep_stuck [OF inv b(1) tu(1,2) b(2) tu(5) st] astep_stuck [OF inv b(2) tu(3,4) b(1) tu(5) [symmetric] st] l tu(5)
    by (auto simp: deadlocked_def)
qed

interpretation linked_pair: step_invariant
  "\<lambda>w w'. listed i w' \<and> listed j w' \<and> (\<exists>ord. (\<forall>xs. mset (ord xs) = mset xs) \<and> astep ord w w')"
  "\<lambda>w. world_inv w \<and> deadlocked i j w" for i j
  by unfold_locales (auto intro: deadlocked_step astep_world_inv)

section \<open>Properties\<close>

text \<open>C10. Linking can deadlock for good. Once two actors each wait to send the other the reverse link while
  both control channels are full, no run of the system gets either of them out of it, whatever is sent to
  them or done by other actors, as long as neither is taken out of the actor registry by hand: both keep
  waiting with the same action, so neither handles another message, \<open>Stop\<close> and \<open>Kill\<close> included.\<close>

theorem link_deadlock_is_permanent:
  assumes "(\<lambda>w w'. listed i w' \<and> listed j w' \<and> (\<exists>ord. (\<forall>xs. mset (ord xs) = mset xs) \<and> astep ord w w'))\<^sup>*\<^sup>* w w'"
    and "world_inv w" and "deadlocked i j w"
  shows "\<exists>t u. tasks w' i = Some t \<and> status t = Running \<and> pc t = [ASendLink j]
    \<and> tasks w' j = Some u \<and> status u = Running \<and> pc u = [ASendLink i]"
  using linked_pair.steps_inv [OF assms(1)] assms(2,3) by (auto simp: deadlocked_def stuck_on_def)

text \<open>Two actors with mailboxes of capacity 1, each linking to the other, with one link of a third actor
  waiting in each control channel.\<close>

definition demo_linking :: "ActorId \<Rightarrow> (unit, nat) Task" where
  "demo_linking peer = (new_task (actor_defaults ()) (ActorConfig_default\<lparr>mailbox_capacity := 1\<rparr>)
     \<lparr>cap = 1, queue = [], rx_open = True\<rparr> \<lparr>cap = 1, queue = [CtlLink 3], rx_open = True\<rparr>)\<lparr>links := [peer], pc := [ASendLink peer]\<rparr>"

definition demo_pair :: "(unit, nat) World" where
  "demo_pair = (world_new (\<lambda>_. \<lparr>cap = 4, queue = [], rx_open = True\<rparr>))\<lparr>
     tasks := [1 \<mapsto> demo_linking 2, 2 \<mapsto> demo_linking 1], counter := 4,
     actors := register_actor 1 1 None (register_actor 2 2 None []),
     cells := mon_register 1 (mon_register 2 monitor_new)\<rparr>"

lemma demo_pair_inv: "world_inv demo_pair"
  by (auto simp: world_inv_def demo_pair_def world_new_def monitor_new_def register_actor_def mon_register_inv mon_register_get map_laws
      signal_count_def task_inv_def demo_linking_def new_task_def DEAD_def StatsCell_new_def split: if_splits)

theorem link_deadlock_is_permanent_witness:
  "\<exists>w' t. (\<lambda>w w'. listed 1 w' \<and> listed 2 w' \<and> (\<exists>ord. (\<forall>xs. mset (ord xs) = mset xs) \<and> astep ord w w'))\<^sup>*\<^sup>* demo_pair w'
     \<and> tasks w' 1 = Some t \<and> queue (mailbox t) = [Kill] \<and> pc t = [ASendLink 2]"
proof -
  let ?t = "(demo_linking 2)\<lparr>mailbox := \<lparr>cap = 1, queue = [Kill], rx_open = True\<rparr>\<rparr>"
  let ?w = "set_task 1 ?t demo_pair"
  have l: "listed 1 ?w" "listed 2 ?w" "listed 1 demo_pair" "listed 2 demo_pair"
    by (simp_all add: listed_def set_task_def demo_pair_def get_control_sender_def register_actor_def map_laws)
  have "ref_tx_send \<lparr>ref_id = 1\<rparr> Kill demo_pair = Some (True, ?w)"
    by (simp add: ref_tx_send_def demo_pair_def demo_linking_def new_task_def chan_send_def set_task_def)
  then have "astep rev demo_pair ?w" by (rule astep.sends)
  then have st: "(\<lambda>w w'. listed 1 w' \<and> listed 2 w' \<and> (\<exists>ord. (\<forall>xs. mset (ord xs) = mset xs) \<and> astep ord w w'))\<^sup>*\<^sup>* demo_pair ?w"
    using l by (intro r_into_rtranclp) (auto intro!: exI [of _ rev])
  have "deadlocked 1 2 demo_pair"
    using l by (simp add: deadlocked_def stuck_on_def full_def demo_pair_def demo_linking_def new_task_def)
  from link_deadlock_is_permanent [OF st demo_pair_inv this] st show ?thesis
    by (intro exI [of _ ?w]) (auto simp: set_task_def)
qed

end
