(* ===== verification/Mailbox.thy ===== *)
theory Mailbox
  imports Actor "HOL-Library.Sublist"
begin

text \<open>
  The order of a mailbox. Over any interleaving of the system, an actor takes the envelopes sent to it
  first in, first out, each once; and as long as it runs, its state is its handler folded over what it
  has taken, \<open>Upgrade\<close> replacing the implementation in its place of the sequence. The counters of
  \<open>examples/hot_upgrade.rs\<close> are an instance.
\<close>

section \<open>What an envelope does to the actor\<close>

fun effect :: "('a, 'm) Envelope \<Rightarrow> ('a, 'm) DynActor \<Rightarrow> ('a, 'm) DynActor" where
  "effect (Msg m) a = a\<lparr>ast := run_state (dyn_handle a m (snd (snd (dyn_on_handle_begin a m (ast a)))))\<rparr>"
| "effect (Upgrade b) a = b\<lparr>ast := snd (dyn_on_upgrade b 0 (ast b))\<rparr>"
| "effect _ a = a"

lemma handle_body_effect:
  "handle_body i cfg lag races m a mon = (Continue, a', mon') \<Longrightarrow> a' = effect (Msg m) a"
  by (auto simp: handle_body_def Let_def split: prod.splits callback.splits option.splits if_splits)

section \<open>Histories\<close>

text \<open>What a step takes from the mailbox of \<open>i\<close> and what it accepts into it, as long as the mailbox is open:
  an actor that goes drops the rest of its mailbox, and that is not counted as taken.\<close>

definition mail_open :: "ActorId \<Rightarrow> ('a, 'm) World \<Rightarrow> bool" where
  "mail_open i w = (case tasks w i of Some t \<Rightarrow> rx_open (mailbox t) | None \<Rightarrow> False)"

definition took :: "ActorId \<Rightarrow> ('a, 'm) World \<Rightarrow> ('a, 'm) World \<Rightarrow> ('a, 'm) Envelope list" where
  "took i w w' = (if mail_open i w' \<and> length (mail i w') < length (mail i w) then [hd (mail i w)] else [])"

definition accepted :: "ActorId \<Rightarrow> ('a, 'm) World \<Rightarrow> ('a, 'm) World \<Rightarrow> ('a, 'm) Envelope list" where
  "accepted i w w' = (if mail_open i w' then drop (length (mail i w)) (mail i w') else [])"

lemmas mail_defs = mail_def mail_open_def took_def accepted_def

type_synonym ('a, 'm) history = "('a, 'm) World \<times> ('a, 'm) Envelope list \<times> ('a, 'm) Envelope list"

text \<open>A step of the system, with what has been taken and accepted so far.\<close>

inductive mail_step :: "ActorId \<Rightarrow> ('a, 'm) history \<Rightarrow> ('a, 'm) history \<Rightarrow> bool" for i where
  "\<forall>xs. mset (ord xs) = mset xs \<Longrightarrow> astep ord w w' \<Longrightarrow>
     mail_step i (w, tk, ac) (w', tk @ took i w w', ac @ accepted i w w')"

section \<open>What a step does to a task\<close>

text \<open>A step of others: they may send to the task, on its control channel or its mailbox, or drop it.\<close>

definition touched :: "('a, 'm) Task \<Rightarrow> ('a, 'm) Envelope list \<Rightarrow> ('a, 'm) Task \<Rightarrow> bool" where
  "touched t es t' \<longleftrightarrow> actor t' = actor t \<and> pc t' = pc t \<and> status t' = status t \<and> queue (mailbox t') = queue (mailbox t) @ es
     \<and> prefix (queue (control t)) (queue (control t'))"

lemma touched_refl: "touched t [] t" "touched t [] (t\<lparr>senders := b\<rparr>)"
  by (simp_all add: touched_def)

lemma control_send_touched:
  "control_send p m w = Some w' \<Longrightarrow> tasks w i = Some t \<Longrightarrow> \<exists>t'. tasks w' i = Some t' \<and> touched t [] t'"
  by (auto simp: control_send_def chan_send_def set_task_def touched_def split: option.splits if_splits)

lemma exec_other:
  assumes "exec ord lag races j a tj w = Some w'" and "j \<noteq> i" and "tasks w i = Some t"
  shows "\<exists>t'. tasks w' i = Some t' \<and> touched t [] t'"
proof (cases a)
  case (ASendLink p)
  then show ?thesis using assms control_send_touched [of p _ "set_task j tj w" w' i t] by (simp add: set_task_def)
next
  case (APropagate r ps)
  then show ?thesis using assms control_send_touched [of _ _ "set_task j (tj\<lparr>pc := _\<rparr>) w" w' i t]
    by (cases ps) (auto simp: set_task_def touched_def)
qed (use assms in \<open>auto simp: set_task_def touched_def notify_supervisor_def Let_def split: prod.splits callback.splits handle_end.splits option.splits\<close>)

text \<open>Where a running task can be, and what its actor is there: \<open>tk\<close> is what it has taken, \<open>a0\<close> what it was.\<close>

fun exiting :: "'m action \<Rightarrow> bool" where
  "exiting (ARun m) = False"
| "exiting APreStart = False"
| "exiting (ASendLink p) = False"
| "exiting _ = True"

definition leaving :: "'m action list \<Rightarrow> bool" where
  "leaving as \<longleftrightarrow> as \<noteq> [] \<and> (last as = AEnd \<or> (\<exists>r. last as = AExit r)) \<and> list_all exiting as"

definition phase :: "('a, 'm) DynActor \<Rightarrow> ('a, 'm) Envelope list \<Rightarrow> ('a, 'm) Task \<Rightarrow> bool" where
  "phase a0 tk t \<longleftrightarrow>
     (pc t = [] \<or> (\<exists>p. pc t = [ASendLink p])) \<and> actor t = fold effect tk a0 \<or>
     (\<exists>m es. pc t = [ARun m] \<and> tk = es @ [Msg m] \<and> actor t = fold effect es a0) \<or> leaving (pc t)"

lemma finish_leaving: "leaving (finish_actor r ps)"
  by (simp add: leaving_def finish_actor_def)

lemma leaving_Cons: "leaving (a # as) \<Longrightarrow> a \<noteq> AEnd \<Longrightarrow> \<forall>r. a \<noteq> AExit r \<Longrightarrow> as \<noteq> [] \<and> leaving as"
  by (cases "as = []") (auto simp: leaving_def)

lemma leaving_propagate: "leaving (APropagate r ps # as) \<Longrightarrow> leaving (APropagate r qs # as)"
  by (cases "as = []") (auto simp: leaving_def)

lemma leaving_exiting: "leaving (a # as) \<Longrightarrow> exiting a"
  by (simp add: leaving_def)

lemma exec_leaving:
  assumes ex: "exec ord lag races i a (t\<lparr>pc := as\<rparr>) w = Some w'" and lv: "leaving (a # as)"
    and t': "tasks w' i = Some t'" "status t' = Running"
  shows "leaving (pc t') \<and> queue (mailbox t') = queue (mailbox t)"
proof (cases a)
  case (ANotify r)
  then show ?thesis using ex t' leaving_Cons [OF lv]
    by (auto simp: set_task_def notify_supervisor_def Let_def split: prod.splits option.splits)
next
  case (AExit r)
  then show ?thesis using ex t' finish_leaving by (auto simp: set_task_def)
next
  case APostStop
  then show ?thesis using ex t' leaving_Cons [OF lv] by (auto simp: set_task_def crash_def split: prod.splits callback.splits)
next
  case (APropagate r ps)
  show ?thesis
  proof (cases ps)
    case Nil
    then show ?thesis using APropagate ex t' leaving_Cons [OF lv] by (auto simp: set_task_def)
  next
    case (Cons p qs)
    let ?t = "t\<lparr>pc := APropagate r qs # as\<rparr>"
    have "control_send p (LinkedExit i r) (set_task i ?t w) = Some w'" using ex APropagate Cons by simp
    then show ?thesis
      using control_send_touched [of p _ _ w' i ?t] t' lv leaving_propagate [of r ps as qs] APropagate
      by (auto simp: set_task_def touched_def)
  qed
qed (use leaving_Cons [OF lv] leaving_exiting [OF lv] ex t' in \<open>auto simp: set_task_def\<close>)

lemma control_send_keeps: "control_send p m w = Some w' \<Longrightarrow> tasks w i \<noteq> None \<Longrightarrow> tasks w' i \<noteq> None"
  by (auto simp: control_send_def set_task_def split: option.splits)

lemma exec_keeps:
  "exec ord lag races j a t w = Some w' \<Longrightarrow> tasks w i \<noteq> None \<Longrightarrow> tasks w' i \<noteq> None"
  by (induction ord lag races j a t w rule: exec.induct)
    (auto simp: set_task_def notify_supervisor_def Let_def dest!: control_send_keeps [where i = i]
      split: prod.splits callback.splits handle_end.splits option.splits if_splits)

lemma exec_own:
  assumes ex: "exec ord lag races i a (t\<lparr>pc := as\<rparr>) w = Some w'" and pc: "pc t = a # as" and ph: "phase a0 tk t"
    and t': "tasks w' i = Some t'" "status t' = Running"
  shows "phase a0 tk t' \<and> queue (mailbox t') = queue (mailbox t)"
proof -
  consider p where "a = ASendLink p" "as = []" "actor t = fold effect tk a0"
    | m es where "a = ARun m" "as = []" "tk = es @ [Msg m]" "actor t = fold effect es a0"
    | "leaving (a # as)"
    using ph pc by (auto simp: phase_def)
  then show ?thesis
  proof cases
    case 1
    then show ?thesis using ex t' control_send_touched [of p "CtlLink i" "set_task i (t\<lparr>pc := as\<rparr>) w" w' i "t\<lparr>pc := as\<rparr>"]
      by (auto simp: set_task_def touched_def phase_def)
  next
    case 2
    then show ?thesis using ex t'
      by (auto simp: set_task_def phase_def crash_def leaving_def dest!: handle_body_effect split: prod.splits handle_end.splits)
  next
    case 3
    then show ?thesis using exec_leaving [OF ex _ t'] by (simp add: phase_def)
  qed
qed

section \<open>One step of the system, seen from one task\<close>

text \<open>Others step, and may send; or the task, at its \<open>select!\<close>, takes an envelope; or it does something else.\<close>

definition seen :: "('a, 'm) DynActor \<Rightarrow> ('a, 'm) Envelope list \<Rightarrow> ('a, 'm) Task \<Rightarrow> ('a, 'm) Task \<Rightarrow> bool" where
  "seen a0 tk t t' \<longleftrightarrow>
     (\<exists>es. touched t es t' \<and> (es = [] \<or> rx_open (mailbox t))) \<or>
     status t = Running \<and> (status t' = Running \<longrightarrow>
       (\<exists>e. queue (mailbox t) = e # queue (mailbox t') \<and> phase a0 (tk @ [e]) t') \<or>
       queue (mailbox t') = queue (mailbox t) \<and> phase a0 tk t')"

lemma phase_waiting: "phase a0 tk t \<Longrightarrow> pc t = [] \<Longrightarrow> actor t = fold effect tk a0"
  by (auto simp: phase_def leaving_def)

lemma seen_own:
  "status t = Running \<Longrightarrow> queue (mailbox t') = queue (mailbox t) \<Longrightarrow> phase a0 tk t' \<Longrightarrow> seen a0 tk t t'"
  "status t = Running \<Longrightarrow> queue (mailbox t) = e # queue (mailbox t') \<Longrightarrow> phase a0 (tk @ [e]) t' \<Longrightarrow> seen a0 tk t t'"
  "status t = Running \<Longrightarrow> status t' \<noteq> Running \<Longrightarrow> seen a0 tk t t'"
  by (auto simp: seen_def)

lemma phase_exit: "pc t = [AExit r] \<Longrightarrow> phase a0 tk t"
  by (simp add: phase_def leaving_def)

lemma phase_loop:
  "actor t = fold effect tk a0 \<Longrightarrow> pc t = [] \<Longrightarrow> phase a0 tk t"
  "actor t = fold effect tk a0 \<Longrightarrow> pc t = [ASendLink p] \<Longrightarrow> phase a0 tk t"
  "actor t = fold effect tk a0 \<Longrightarrow> pc t = [ARun m] \<Longrightarrow> phase a0 (tk @ [Msg m]) t"
  by (auto simp: phase_def)

lemma on_control_seen:
  assumes run: "status t = Running" and a: "actor t = fold effect tk a0"
    and u: "actor u = actor t" "mailbox u = mailbox t" "pc u = []"
  shows "seen a0 tk t (on_control i c u)"
proof (rule seen_own(1) [OF run])
  show "phase a0 tk (on_control i c u)"
    using a u by (cases c) (auto simp: add_link_def intro: phase_loop phase_exit split: option.splits)
qed (use u in \<open>cases c; auto simp: add_link_def split: option.splits\<close>)

lemma on_envelope_seen:
  assumes run: "status t = Running" and a: "actor t = fold effect tk a0"
    and u: "actor u = actor t" "queue (mailbox t) = e # queue (mailbox u)" "pc u = []"
    and ev: "on_envelope i e u mon = (t', mon')"
  shows "seen a0 tk t t'"
proof (cases "status t' = Running")
  case True
  then have q: "queue (mailbox t') = queue (mailbox u)"
    using ev by (cases e) (auto simp: add_link_def crash_def split: prod.splits callback.splits if_splits)
  have "phase a0 (tk @ [e]) t'"
  proof (cases e)
    case (Upgrade b)
    then show ?thesis using ev True u(3)
      by (auto simp: crash_def intro: phase_loop phase_exit split: prod.splits callback.splits)
  qed (use ev a u in \<open>auto simp: add_link_def intro: phase_loop phase_exit split: if_splits\<close>)
  then show ?thesis using seen_own(2) [OF run] u(2) q by simp
qed (use seen_own(3) [OF run] in simp)

lemma exec_seen:
  assumes ex: "exec ord lag races j a (tj\<lparr>pc := as\<rparr>) w = Some w'" and tj: "tasks w j = Some tj" "status tj = Running" "pc tj = a # as"
    and t: "tasks w i = Some t" and ph: "status t = Running \<Longrightarrow> phase a0 tk t"
  shows "\<exists>t'. tasks w' i = Some t' \<and> seen a0 tk t t'"
proof (cases "j = i")
  case True
  obtain t' where t': "tasks w' i = Some t'" using exec_keeps [OF ex, of i] t by blast
  then show ?thesis using ex tj True t ph exec_own [of ord lag races i a as t w w' a0 tk t'] by (auto simp: seen_def)
next
  case False
  then show ?thesis using exec_other [OF ex False t] by (auto simp: seen_def)
qed

lemma astep_seen:
  assumes st: "astep ord w w'" and inv: "world_inv w" and t: "tasks w i = Some t"
    and ph: "status t = Running \<Longrightarrow> phase a0 tk t"
  shows "\<exists>t'. tasks w' i = Some t' \<and> seen a0 tk t t'"
  using st
proof cases
  case (spawns a sv cfg r)
  then have "i \<noteq> counter w" using world_invD(3) [OF inv, of i] t by auto
  then show ?thesis using spawns t touched_refl(1) [of t]
    by (auto simp: spawning seen_def split: outcome.splits)
next
  case (sends r env ok)
  then show ?thesis using t
    by (auto simp: ref_tx_send_def chan_send_def set_task_def seen_def touched_def split: option.splits if_splits)
next
  case (drops_refs j tj)
  then show ?thesis using t by (auto simp: set_task_def seen_def touched_def)
next
  case (takes_control j tj c cs)
  show ?thesis
  proof (cases "j = i")
    case True
    then have t': "tj = t" "status t = Running" "pc t = []" using takes_control t by (auto simp: waiting_def)
    show ?thesis using takes_control True t' on_control_seen [OF t'(2) phase_waiting [OF ph [OF t'(2)] t'(3)]]
      by (simp add: set_task_def)
  qed (use takes_control t in \<open>auto simp: set_task_def seen_def touched_def\<close>)
next
  case (control_gone j tj)
  then show ?thesis using t ph by (auto simp: set_task_def waiting_def seen_def touched_def phase_def leaving_def)
next
  case (takes_envelope j tj e es t' mon)
  show ?thesis
  proof (cases "j = i")
    case True
    then have u: "tj = t" "status t = Running" "pc t = []" using takes_envelope t by (auto simp: waiting_def)
    have "seen a0 tk t t'" using takes_envelope(5,6) u
      by (intro on_envelope_seen [OF u(2) phase_waiting [OF ph [OF u(2)] u(3)] _ _ _ takes_envelope(6)]) simp_all
    then show ?thesis using takes_envelope True by (simp add: set_task_def)
  qed (use takes_envelope t in \<open>auto simp: set_task_def seen_def touched_def\<close>)
next
  case (mailbox_gone j tj)
  then show ?thesis using t ph by (auto simp: set_task_def waiting_def seen_def touched_def phase_def leaving_def)
next
  case (acts j tj a as lag races)
  show ?thesis using exec_seen [OF acts(4,1-3) t ph] .
qed (use t touched_refl(1) [of t] in \<open>auto simp: seen_def\<close>)


section \<open>The invariant of a history\<close>

definition mail_inv :: "('a, 'm) DynActor \<Rightarrow> ('a, 'm) Envelope list \<Rightarrow> ActorId \<Rightarrow> ('a, 'm) history \<Rightarrow> bool" where
  "mail_inv a0 q0 i h \<longleftrightarrow> (case h of (w, tk, ac) \<Rightarrow>
     world_inv w \<and> prefix tk (q0 @ ac) \<and>
     (\<exists>t. tasks w i = Some t \<and> (status t = Running \<longrightarrow> phase a0 tk t \<and> q0 @ ac = tk @ queue (mailbox t))))"

lemma phase_touched: "touched t es t' \<Longrightarrow> phase a0 tk t' = phase a0 tk t"
  by (simp add: touched_def phase_def)

lemma open_running: "world_inv w \<Longrightarrow> tasks w i = Some t \<Longrightarrow> rx_open (mailbox t) \<longleftrightarrow> status t = Running"
  using world_invD(5) [of w i t] by (auto simp: task_inv_def)

lemma counts_closed: "tasks w' i = Some t' \<Longrightarrow> \<not> rx_open (mailbox t') \<Longrightarrow> took i w w' = [] \<and> accepted i w w' = []"
  by (simp add: mail_defs)

lemma counts_open:
  assumes "tasks w i = Some t" and "tasks w' i = Some t'" and "rx_open (mailbox t')"
  shows "queue (mailbox t') = queue (mailbox t) @ es \<Longrightarrow> took i w w' = [] \<and> accepted i w w' = es"
    and "queue (mailbox t) = e # queue (mailbox t') \<Longrightarrow> took i w w' = [e] \<and> accepted i w w' = []"
  using assms by (auto simp: mail_defs)

lemma seen_counts:
  assumes t: "tasks w i = Some t" "tasks w' i = Some t'" "rx_open (mailbox t')" and run: "status t' = Running"
    and s: "seen a0 tk t t'" and ph: "status t = Running \<Longrightarrow> phase a0 tk t \<and> q @ ac = tk @ queue (mailbox t)"
  shows "phase a0 (tk @ took i w w') t' \<and> q @ ac @ accepted i w w' = (tk @ took i w w') @ queue (mailbox t')"
proof -
  consider es where "touched t es t'"
    | e where "queue (mailbox t) = e # queue (mailbox t')" "status t = Running" "phase a0 (tk @ [e]) t'"
    | "queue (mailbox t') = queue (mailbox t) @ []" "status t = Running" "phase a0 tk t'"
    using s run by (auto simp: seen_def)
  then show ?thesis
  proof cases
    case (1 es)
    then show ?thesis using ph counts_open(1) [OF t, of es] run phase_touched [of t es t' a0 tk] by (simp add: touched_def)
  next
    case (2 e)
    then show ?thesis using ph counts_open(2) [OF t, of e] by simp
  next
    case 3
    then show ?thesis using ph counts_open(1) [OF t, of "[]"] by simp
  qed
qed

lemma mail_step_inv:
  assumes inv: "mail_inv a0 q0 i h" and st: "mail_step i h h'"
  shows "mail_inv a0 q0 i h'"
  using st
proof cases
  case (1 ord w w' tk ac)
  obtain t where w: "world_inv w" "prefix tk (q0 @ ac)" "tasks w i = Some t"
    and run: "status t = Running \<Longrightarrow> phase a0 tk t \<and> q0 @ ac = tk @ queue (mailbox t)"
    using inv 1 by (auto simp: mail_inv_def)
  obtain t' where t': "tasks w' i = Some t'" and s: "seen a0 tk t t'"
    using astep_seen [OF 1(4) w(1,3)] run by blast
  have w': "world_inv w'" by (rule astep_world_inv [OF w(1) 1(4,3)])
  note open' = open_running [OF w' t']
  show ?thesis
  proof (cases "status t' = Running")
    case False
    then have "took i w w' = [] \<and> accepted i w w' = []" using counts_closed [OF t'] open' by blast
    then show ?thesis using w(2) w' t' False by (simp add: mail_inv_def 1)
  next
    case True
    note c = seen_counts [OF w(3) t' _ True s run]
    then have "prefix (tk @ took i w w') (q0 @ ac @ accepted i w w')" using open' True by (metis prefixI)
    then show ?thesis using c open' True w' t' by (simp add: mail_inv_def 1)
  qed
qed

interpretation mailbox: step_invariant "mail_step i" "mail_inv a0 q0 i" for i a0 q0
  by unfold_locales (rule mail_step_inv)

section \<open>Serving what is queued\<close>

text \<open>Whether an actor in state \<open>a\<close> takes these envelopes without leaving its loop.\<close>

fun serves :: "ActorId \<Rightarrow> ActorConfig \<Rightarrow> ('a, 'm) DynActor \<Rightarrow> ('a, 'm) Envelope list \<Rightarrow> bool" where
  "serves i cfg a [] = True"
| "serves i cfg a (Msg m # es) =
     ((\<forall>mon. fst (handle_body i cfg 0 [] m a mon) = Continue) \<and> serves i cfg (effect (Msg m) a) es)"
| "serves i cfg a (Upgrade b # es) = (fst (dyn_on_upgrade b 0 (ast b)) = CbOk \<and> serves i cfg (effect (Upgrade b) a) es)"
| "serves i cfg a (Unlink p # es) = serves i cfg a es"
| "serves i cfg a (Monitor p tx # es) = serves i cfg a es"
| "serves i cfg a (Demonitor p # es) = serves i cfg a es"
| "serves i cfg a (_ # es) = False"

definition ready :: "ActorId \<Rightarrow> ('a, 'm) World \<Rightarrow> ('a, 'm) Task \<Rightarrow> bool" where
  "ready i w t \<longleftrightarrow> waiting i w t \<and> rx_open (mailbox t) \<and> queue (control t) = [] \<and> \<not> control_closed i w"

lemma serves_Cons: "serves i cfg a (e # es) \<Longrightarrow> serves i cfg (effect e a) es"
  by (cases e) auto

lemma takes_step:
  assumes r: "ready i w t" and q: "queue (mailbox t) = e # es"
    and ev: "on_envelope i e (t\<lparr>mailbox := (mailbox t)\<lparr>queue := es\<rparr>\<rparr>) (cells w) = (t', mon)"
    and t': "queue (mailbox t') = es" "rx_open (mailbox t')"
  shows "mail_step i (w, tk, ac) (set_task i t' (w\<lparr>cells := mon\<rparr>), tk @ [e], ac)"
proof -
  let ?w = "set_task i t' (w\<lparr>cells := mon\<rparr>)"
  have a: "astep (\<lambda>xs. xs) w ?w" using r q ev by (auto simp: ready_def intro: astep.takes_envelope)
  have "took i w ?w = [e] \<and> accepted i w ?w = []"
    using r q t' counts_open(2) [of w i t ?w t' e] by (simp add: ready_def waiting_def set_task_def)
  then show ?thesis using mail_step.intros [OF _ a, of i tk ac] by simp
qed

lemma serve_one:
  assumes r: "ready i w t" and q: "queue (mailbox t) = e # es" and sv: "serves i (config t) (actor t) (e # es)"
  shows "\<exists>w' t'. (mail_step i)\<^sup>*\<^sup>* (w, tk, ac) (w', tk @ [e], ac) \<and> ready i w' t' \<and> config t' = config t
    \<and> actor t' = effect e (actor t) \<and> queue (mailbox t') = es"
proof -
  let ?u = "t\<lparr>mailbox := (mailbox t)\<lparr>queue := es\<rparr>\<rparr>"
  obtain t' mon where ev: "on_envelope i e ?u (cells w) = (t', mon)" by (cases "on_envelope i e ?u (cells w)")
  show ?thesis
  proof (cases "\<exists>m. e = Msg m")
    case False
    then have t': "actor t' = effect e (actor t)" "config t' = config t" "pc t' = []" "status t' = Running"
      "mailbox t' = mailbox ?u" "control t' = control t"
      using sv ev r by (cases e; auto simp: ready_def waiting_def split: prod.splits callback.splits)+
    have "mail_step i (w, tk, ac) (set_task i t' (w\<lparr>cells := mon\<rparr>), tk @ [e], ac)"
      using takes_step [OF r q ev] t'(5) r by (simp add: ready_def)
    then show ?thesis using t' r by (intro exI [of _ "set_task i t' (w\<lparr>cells := mon\<rparr>)"] exI [of _ t'])
      (auto simp: ready_def waiting_def set_task_def control_closed_def)
  next
    case True
    then obtain m where m: "e = Msg m" by blast
    let ?w = "set_task i t' (w\<lparr>cells := mon\<rparr>)"
    have t': "t' = ?u\<lparr>pc := [ARun m]\<rparr>" using ev m by simp
    have 1: "mail_step i (w, tk, ac) (?w, tk @ [e], ac)" using takes_step [OF r q ev] t' r by (simp add: ready_def)
    obtain a mon2 where b: "handle_body i (config t) 0 [] m (actor t) mon = (Continue, a, mon2)"
      using sv m by (metis serves.simps(2) prod.collapse)
    let ?v = "?u\<lparr>pc := [], actor := a\<rparr>"
    let ?w2 = "set_task i ?v (?w\<lparr>cells := mon2\<rparr>)"
    have x: "astep (\<lambda>xs. xs) ?w ?w2"
      using r b by (intro astep.acts [of _ i t' "ARun m" "[]" _ 0 "[]"]) (auto simp: t' set_task_def ready_def waiting_def)
    have "took i ?w ?w2 = [] \<and> accepted i ?w ?w2 = []"
      using r counts_open(1) [of ?w i t' ?w2 ?v "[]"] by (simp add: t' set_task_def ready_def)
    then have "mail_step i (?w, tk @ [e], ac) (?w2, tk @ [e], ac)" using mail_step.intros [OF _ x, of i "tk @ [e]" ac] by simp
    then have "(mail_step i)\<^sup>*\<^sup>* (w, tk, ac) (?w2, tk @ [e], ac)" using 1 by (meson converse_rtranclp_into_rtranclp r_into_rtranclp)
    then show ?thesis using r handle_body_effect [OF b] m by (intro exI [of _ ?w2] exI [of _ ?v])
      (auto simp: ready_def waiting_def set_task_def control_closed_def)
  qed
qed

lemma drains:
  "ready i w t \<Longrightarrow> queue (mailbox t) = es \<Longrightarrow> serves i (config t) (actor t) es \<Longrightarrow>
   \<exists>w' t'. (mail_step i)\<^sup>*\<^sup>* (w, tk, ac) (w', tk @ es, ac) \<and> ready i w' t' \<and> queue (mailbox t') = []"
proof (induction es arbitrary: w t tk)
  case Nil
  then show ?case by (intro exI [of _ w] exI [of _ t]) simp
next
  case (Cons e es)
  obtain w1 t1 where 1: "(mail_step i)\<^sup>*\<^sup>* (w, tk, ac) (w1, tk @ [e], ac)" "ready i w1 t1" "config t1 = config t"
    "actor t1 = effect e (actor t)" "queue (mailbox t1) = es"
    using serve_one [OF Cons.prems] by blast
  obtain w2 t2 where 2: "(mail_step i)\<^sup>*\<^sup>* (w1, tk @ [e], ac) (w2, (tk @ [e]) @ es, ac)" "ready i w2 t2" "queue (mailbox t2) = []"
    using Cons.IH [OF 1(2,5)] serves_Cons [OF Cons.prems(3)] 1(3,4) by fastforce
  show ?case using rtranclp_trans [OF 1(1) 2(1)] 2(2,3) by auto
qed

lemma sends_one:
  assumes r: "ready i w t" and room: "length (queue (mailbox t)) < cap (mailbox t)"
  shows "\<exists>w' t'. mail_step i (w, tk, ac) (w', tk, ac @ [e]) \<and> ready i w' t' \<and> actor t' = actor t \<and> config t' = config t
    \<and> queue (mailbox t') = queue (mailbox t) @ [e] \<and> cap (mailbox t') = cap (mailbox t)"
proof -
  let ?t = "t\<lparr>mailbox := (mailbox t)\<lparr>queue := queue (mailbox t) @ [e]\<rparr>\<rparr>"
  have "ref_tx_send \<lparr>ref_id = i\<rparr> e w = Some (True, set_task i ?t w)"
    using r room by (simp add: ref_tx_send_def ready_def waiting_def chan_send_def)
  then have a: "astep (\<lambda>xs. xs) w (set_task i ?t w)" by (rule astep.sends)
  have "took i w (set_task i ?t w) = [] \<and> accepted i w (set_task i ?t w) = [e]"
    using r counts_open(1) [of w i t "set_task i ?t w" ?t "[e]"] by (simp add: set_task_def ready_def waiting_def)
  then show ?thesis using mail_step.intros [OF _ a, of i tk ac] r
    by (intro exI [of _ "set_task i ?t w"] exI [of _ ?t]) (auto simp: ready_def waiting_def set_task_def control_closed_def)
qed

lemma sends_all:
  "ready i w t \<Longrightarrow> length (queue (mailbox t)) + length es \<le> cap (mailbox t) \<Longrightarrow>
   \<exists>w' t'. (mail_step i)\<^sup>*\<^sup>* (w, tk, ac) (w', tk, ac @ es) \<and> ready i w' t' \<and> actor t' = actor t \<and> config t' = config t
     \<and> queue (mailbox t') = queue (mailbox t) @ es"
proof (induction es arbitrary: w t ac)
  case Nil
  then show ?case by (intro exI [of _ w] exI [of _ t]) simp
next
  case (Cons e es)
  obtain w1 t1 where 1: "mail_step i (w, tk, ac) (w1, tk, ac @ [e])" "ready i w1 t1" "actor t1 = actor t" "config t1 = config t"
    "queue (mailbox t1) = queue (mailbox t) @ [e]" "cap (mailbox t1) = cap (mailbox t)"
    using sends_one [OF Cons.prems(1), of tk ac e] Cons.prems(2) by auto
  obtain w2 t2 where 2: "(mail_step i)\<^sup>*\<^sup>* (w1, tk, ac @ [e]) (w2, tk, (ac @ [e]) @ es)" "ready i w2 t2" "actor t2 = actor t1"
    "config t2 = config t1" "queue (mailbox t2) = queue (mailbox t1) @ es"
    using Cons.IH [OF 1(2), of "ac @ [e]"] 1(5,6) Cons.prems(2) by auto
  show ?case using converse_rtranclp_into_rtranclp [of "mail_step i", OF 1(1) 2(1)] 1(3-5) 2(2-5)
    by (intro exI [of _ w2] exI [of _ t2]) simp
qed

section \<open>Linked exits\<close>






section \<open>Counters\<close>

text \<open>The two versions of the counter of \<open>examples/hot_upgrade.rs\<close>. A handler returns the new state and
  what it sends on reply channels, which are numbers; \<open>+=\<close> on a \<open>u64\<close> wraps, as in a release build. An
  actor's box holds one of the two types and calls that type's handler; its state keeps the replies.\<close>

record CounterV1 =
  count1 :: u64

record CounterV2 =
  count2 :: u64
  label :: string

datatype CounterMsg = Inc | Get nat

fun v1_handle :: "CounterMsg \<Rightarrow> CounterV1 \<Rightarrow> CounterV1 \<times> (nat \<times> u64) list" where
  "v1_handle Inc c = (c\<lparr>count1 := count1 c + 1\<rparr>, [])"
| "v1_handle (Get tx) c = (c, [(tx, count1 c)])"

fun v2_handle :: "CounterMsg \<Rightarrow> CounterV2 \<Rightarrow> CounterV2 \<times> (nat \<times> u64) list" where
  "v2_handle Inc c = (c\<lparr>count2 := count2 c + 2\<rparr>, [])"
| "v2_handle (Get tx) c = (c, [(tx, count2 c)])"

datatype counter_box = V1 CounterV1 | V2 CounterV2

fun counter_handle :: "CounterMsg \<Rightarrow> counter_box \<times> (nat \<times> u64) list \<Rightarrow> counter_box \<times> (nat \<times> u64) list" where
  "counter_handle m (V1 c, out) = (case v1_handle m c of (c', o') \<Rightarrow> (V1 c', out @ o'))"
| "counter_handle m (V2 c, out) = (case v2_handle m c of (c', o') \<Rightarrow> (V2 c', out @ o'))"

definition counter_actor :: "counter_box \<Rightarrow> (counter_box \<times> (nat \<times> u64) list, CounterMsg) DynActor" where
  "counter_actor b = (actor_defaults (b, []))\<lparr>dyn_handle := (\<lambda>m s.
     \<lparr>run_time = Some 0, run_result = CbOk, run_state = counter_handle m s, cancelled = s\<rparr>)\<rparr>"

lemma counter_effect:
  "effect (Msg m) (counter_actor b\<lparr>ast := s\<rparr>) = counter_actor b\<lparr>ast := counter_handle m s\<rparr>"
  by (simp add: counter_actor_def actor_defaults_def)

lemma counter_serves: "serves i ActorConfig_default (counter_actor b\<lparr>ast := s\<rparr>) (Msg m # es)
    \<longleftrightarrow> serves i ActorConfig_default (counter_actor b\<lparr>ast := counter_handle m s\<rparr>) es"
  by (simp add: handle_body_def counter_actor_def actor_defaults_def ActorConfig_default_def)

lemma counter_actor_ast: "counter_actor b = counter_actor b\<lparr>ast := (b, [])\<rparr>"
  by (simp add: counter_actor_def actor_defaults_def)

lemma counter_upgrade:
  "effect (Upgrade (counter_actor b)) a = counter_actor b\<lparr>ast := (b, [])\<rparr>"
  "serves i cfg a (Upgrade (counter_actor b) # es) \<longleftrightarrow> serves i cfg (counter_actor b\<lparr>ast := (b, [])\<rparr>) es"
  by (simp_all add: counter_actor_def actor_defaults_def)

lemma counter_fold: "fold effect (map Msg ms) (counter_actor b\<lparr>ast := s\<rparr>) = counter_actor b\<lparr>ast := fold counter_handle ms s\<rparr>"
  by (induction ms arbitrary: s) (simp_all add: counter_effect del: effect.simps)

text \<open>Whatever was sent before the upgrade, the second version counts from the state it was built with,
  in steps of two.\<close>

lemma v2_fold: "\<exists>out'. fold counter_handle ms (V2 c, out)
    = (V2 (c\<lparr>count2 := count2 c + 2 * of_nat (count_list ms Inc)\<rparr>), out')"
proof (induction ms arbitrary: c out)
  case (Cons m ms)
  show ?case using Cons.IH [of "fst (v2_handle m c)" "out @ snd (v2_handle m c)"] by (cases m) (auto simp: algebra_simps)
qed simp

lemma upgraded_count:
  "\<exists>out. ast (fold effect (es @ Upgrade (counter_actor (V2 c)) # map Msg ms) a)
     = (V2 (c\<lparr>count2 := count2 c + 2 * of_nat (count_list ms Inc)\<rparr>), out)"
  using v2_fold [of ms c "[]"] by (simp add: counter_upgrade counter_fold del: effect.simps)

text \<open>C9. First in, first out. Watch an actor from any moment at which it waits at its \<open>select!\<close>, in any
  interleaving of the system: what it has taken is, in order, a prefix of what was in its mailbox
  followed by what the mailbox has accepted since, so nothing is taken twice, skipped or overtaken; as
  long as it runs, the rest of that sequence is its queue, so nothing is lost; and whenever it waits
  again, its state is the one it had with the envelopes taken applied one after the other: each message
  by its handler, and an \<open>Upgrade\<close> by putting the new implementation in place, so that the messages sent
  before it are handled by the old one and those sent after it by the new one.\<close>

theorem mailbox_in_order:
  assumes "areach ord w0" and "\<forall>xs. mset (ord xs) = mset xs" and "waiting i w0 t0"
    and "(mail_step i)\<^sup>*\<^sup>* (w0, [], []) (w, tk, ac)"
  shows "prefix tk (queue (mailbox t0) @ ac)
    \<and> (\<forall>t. tasks w i = Some t \<and> status t = Running \<longrightarrow> queue (mailbox t0) @ ac = tk @ queue (mailbox t))
    \<and> (\<forall>t. waiting i w t \<longrightarrow> actor t = fold effect tk (actor t0))"
proof -
  have "mail_inv (actor t0) (queue (mailbox t0)) i (w0, [], [])"
    using areach_world_inv [OF assms(1,2)] assms(3) by (auto simp: mail_inv_def waiting_def phase_def)
  then have "mail_inv (actor t0) (queue (mailbox t0)) i (w, tk, ac)" by (rule mailbox.steps_inv [OF assms(4)])
  then show ?thesis using phase_waiting [of "actor t0" tk] by (auto simp: mail_inv_def waiting_def)
qed


text \<open>The session of the example: three increments and a query, the upgrade, an increment and a query.\<close>

definition hot_upgrade_sends :: "(counter_box \<times> (nat \<times> u64) list, CounterMsg) Envelope list" where
  "hot_upgrade_sends = [Msg Inc, Msg Inc, Msg Inc, Msg (Get 0),
     Upgrade (counter_actor (V2 \<lparr>count2 = 3, label = ''upgraded''\<rparr>)), Msg Inc, Msg (Get 1)]"

definition hot_upgrade_world :: "(counter_box \<times> (nat \<times> u64) list, CounterMsg) World" where
  "hot_upgrade_world = (case spawn (counter_actor (V1 \<lparr>count1 = 0\<rparr>)) None (world_new (\<lambda>_. \<lparr>cap = 4, queue = [], rx_open = True\<rparr>)) of
     Returns (_, w) \<Rightarrow> w | Panics _ \<Rightarrow> undefined)"

lemma hot_upgrade_ready:
  "\<exists>w t. areach (\<lambda>xs. xs) w \<and> ready 1 w t \<and> actor t = counter_actor (V1 \<lparr>count1 = 0\<rparr>) \<and> config t = ActorConfig_default
    \<and> queue (mailbox t) = [] \<and> cap (mailbox t) = 64"
proof -
  let ?a = "counter_actor (V1 \<lparr>count1 = 0\<rparr>)" and ?ch = "\<lparr>cap = 64, queue = [], rx_open = True\<rparr>"
  let ?t = "new_task ?a ActorConfig_default ?ch \<lparr>cap = 64, queue = [], rx_open = True\<rparr>"
  have sp: "spawn_on_runtime ?a None ActorConfig_default (world_new (\<lambda>_. \<lparr>cap = 4, queue = [], rx_open = True\<rparr>))
      = Returns (\<lparr>ref_id = 1\<rparr>, hot_upgrade_world)"
    by (simp add: hot_upgrade_world_def spawning world_new_def)
  have 1: "areach (\<lambda>xs. xs) hot_upgrade_world"
    by (rule areach.step [OF areach.start astep.spawns [OF _ sp]]) (simp add: world_new_def)
  have t: "tasks hot_upgrade_world 1 = Some ?t" by (simp add: hot_upgrade_world_def spawning world_new_def)
  let ?w = "set_task 1 (?t\<lparr>pc := []\<rparr>) hot_upgrade_world"
  have "areach (\<lambda>xs. xs) ?w"
    by (rule areach.step [OF 1 astep.acts [OF t]]) (auto simp: new_task_def counter_actor_def actor_defaults_def set_task_def)
  moreover have "\<not> control_closed 1 ?w"
    by (simp add: control_closed_def set_task_def hot_upgrade_world_def spawning world_new_def register_actor_def
        hm.get_insert hm.inv_empty)
  ultimately show ?thesis
    by (intro exI [of _ ?w] exI [of _ "?t\<lparr>pc := []\<rparr>"]) (simp add: ready_def waiting_def set_task_def new_task_def)
qed

text \<open>Run to the end, the session leaves the second version with the count 5, which it has answered.\<close>

theorem mailbox_in_order_witness:
  "\<exists>w w' t'. areach (\<lambda>xs. xs) w \<and> (mail_step 1)\<^sup>*\<^sup>* (w, [], []) (w', hot_upgrade_sends, hot_upgrade_sends) \<and> waiting 1 w' t'
    \<and> queue (mailbox t') = [] \<and> ast (actor t') = (V2 \<lparr>count2 = 5, label = ''upgraded''\<rparr>, [(1, 5)])"
proof -
  obtain w t where r: "areach (\<lambda>xs. xs) w" "ready 1 w t" "actor t = counter_actor (V1 \<lparr>count1 = 0\<rparr>)"
    "config t = ActorConfig_default" "queue (mailbox t) = []" "cap (mailbox t) = 64"
    using hot_upgrade_ready by blast
  obtain w1 t1 where 1: "(mail_step 1)\<^sup>*\<^sup>* (w, [], []) (w1, [], hot_upgrade_sends)" "ready 1 w1 t1" "actor t1 = actor t"
    "config t1 = config t" "queue (mailbox t1) = hot_upgrade_sends"
    using sends_all [OF r(2), of hot_upgrade_sends "[]" "[]"] r(5,6) by (auto simp: hot_upgrade_sends_def)
  have "serves 1 (config t1) (actor t1) hot_upgrade_sends"
    unfolding 1(3,4) r(3,4) hot_upgrade_sends_def
    by (subst counter_actor_ast) (simp add: counter_serves counter_upgrade del: serves.simps, simp)
  then obtain w2 t2 where 2: "(mail_step 1)\<^sup>*\<^sup>* (w1, [], hot_upgrade_sends) (w2, hot_upgrade_sends, hot_upgrade_sends)"
    "ready 1 w2 t2" "queue (mailbox t2) = []"
    using drains [OF 1(2,5), of "[]" hot_upgrade_sends] by auto
  note run = rtranclp_trans [OF 1(1) 2(1)]
  have "waiting 1 w t" "waiting 1 w2 t2" using r(2) 2(2) by (simp_all add: ready_def)
  then have a: "actor t2 = fold effect hot_upgrade_sends (counter_actor (V1 \<lparr>count1 = 0\<rparr>))"
    using mailbox_in_order [OF r(1) _ _ run] r(3) by auto
  have "ast (actor t2) = (V2 \<lparr>count2 = 5, label = ''upgraded''\<rparr>, [(1, 5)])"
    unfolding a by (subst counter_actor_ast) (simp add: hot_upgrade_sends_def counter_effect counter_upgrade del: effect.simps)
  then show ?thesis using r(1) run 2(3) \<open>waiting 1 w2 t2\<close> by blast
qed

end
