(* ===== verification/Hash_Ring.thy ===== *)
theory Hash_Ring
  imports Prelude
begin

text \<open>
  \<open>src/hash_ring.rs\<close>: the consistent-hash ring. The hash function is the third-party crate
  \<open>murmur3\<close>; it is the parameter \<open>mur\<close> (seed and bytes to an optional 128-bit digest, \<open>None\<close>
  for its I/O error). A key is what its \<open>Hash\<close> implementation feeds to the hasher, a byte list.
  The theory shows that the ring never points to a node that is not in the roster, that lookups
  agree with the clockwise successor specification, that replica lists are duplicate free and
  start with the primary node, and that adding or removing a node moves no other node's keys.
\<close>

section \<open>The hasher\<close>

type_synonym murmur = "u32 \<Rightarrow> u8 list \<Rightarrow> 128 word option"

definition RING_HASH_SEED :: u32 where
  "RING_HASH_SEED = 0"

record Murmur3Hasher =
  buf :: "u8 list"

definition hasher_new :: Murmur3Hasher where
  "hasher_new = \<lparr>buf = []\<rparr>"

definition hasher_finish :: "murmur \<Rightarrow> Murmur3Hasher \<Rightarrow> u64" where
  "hasher_finish mur h =
     (case mur RING_HASH_SEED (buf h) of Some d \<Rightarrow> ucast d | None \<Rightarrow> 0)"

definition hasher_write :: "u8 list \<Rightarrow> Murmur3Hasher \<Rightarrow> Murmur3Hasher" where
  "hasher_write bytes h = h\<lparr>buf := buf h @ bytes\<rparr>"

text \<open>\<open>impl Hash for str\<close>: the bytes of the string, then the byte \<open>0xff\<close>.\<close>

definition str_bytes :: "string \<Rightarrow> u8 list" where
  "str_bytes s = map of_char s"

definition str_hash :: "string \<Rightarrow> Murmur3Hasher \<Rightarrow> Murmur3Hasher" where
  "str_hash s h = hasher_write [255] (hasher_write (str_bytes s) h)"

section \<open>Nodes\<close>

record RingNode =
  nid :: string
  host :: string
  port :: u16

definition RingNode_new :: "string \<Rightarrow> string \<Rightarrow> u16 \<Rightarrow> RingNode" where
  "RingNode_new i h p = \<lparr>nid = i, host = h, port = p\<rparr>"

definition parse_host_port :: "string \<Rightarrow> string + (string \<times> u16)" where
  "parse_host_port addr =
     (case rsplit_once (CHR '':'') addr of
        None \<Rightarrow> Inl (''missing port in address: '' @ debug_str addr)
      | Some (h, port_str) \<Rightarrow>
          (case parse_u16 port_str of
             None \<Rightarrow> Inl (''invalid port '' @ debug_str port_str @ '' in address: '' @ debug_str addr)
           | Some p \<Rightarrow> Inr (h, p)))"

definition try_from_socket_addr :: "string \<Rightarrow> string \<Rightarrow> string + RingNode" where
  "try_from_socket_addr i addr =
     (case parse_host_port addr of
        Inl e \<Rightarrow> Inl e
      | Inr (h, p) \<Rightarrow> Inr \<lparr>nid = i, host = h, port = p\<rparr>)"

definition from_socket_addr :: "string \<Rightarrow> string \<Rightarrow> RingNode outcome" where
  "from_socket_addr i addr =
     (case try_from_socket_addr i addr of
        Inl e \<Rightarrow> Panics (''invalid socket address '' @ debug_str addr @ '': '' @ e)
      | Inr n \<Rightarrow> Returns n)"

definition socket_addr :: "RingNode \<Rightarrow> string" where
  "socket_addr n = host n @ CHR '':'' # show_nat (unat (port n))"

section \<open>The ring\<close>

record HashRing =
  nodes :: "(string, RingNode) hashmap"
  ring :: "(u64, string) btreemap"
  virtual_nodes :: u32

definition ring_new :: "u32 \<Rightarrow> HashRing" where
  "ring_new vn = \<lparr>nodes = [], ring = [], virtual_nodes = vn\<rparr>"

definition ring_default :: HashRing where
  "ring_default = ring_new 150"

text \<open>\<open>hash_key\<close>: \<open>feed\<close> is the effect of the key's \<open>Hash::hash\<close> on the hasher.\<close>

definition hash_key :: "murmur \<Rightarrow> (Murmur3Hasher \<Rightarrow> Murmur3Hasher) \<Rightarrow> u64" where
  "hash_key mur feed = hasher_finish mur (feed hasher_new)"

definition virtual_key :: "string \<Rightarrow> nat \<Rightarrow> string" where
  "virtual_key i k = i @ '':vnode:'' @ show_nat k"

definition vnode_hash :: "murmur \<Rightarrow> string \<Rightarrow> nat \<Rightarrow> u64" where
  "vnode_hash mur i k = hash_key mur (str_hash (virtual_key i k))"

definition add_node :: "murmur \<Rightarrow> RingNode \<Rightarrow> HashRing \<Rightarrow> HashRing" where
  "add_node mur n r =
     (let ring' = fold (\<lambda>k. bt_insert (vnode_hash mur (nid n) k) (nid n))
                    [0..<unat (virtual_nodes r)] (ring r)
      in r\<lparr>ring := ring', nodes := hm_insert (nid n) n (nodes r)\<rparr>)"

definition remove_node :: "murmur \<Rightarrow> string \<Rightarrow> HashRing \<Rightarrow> RingNode option \<times> HashRing" where
  "remove_node mur node_id r =
     (case hm_get (nodes r) node_id of
        Some n \<Rightarrow>
          (let ring' = fold (\<lambda>k. bt_remove (vnode_hash mur node_id k))
                         [0..<unat (virtual_nodes r)] (ring r)
           in (Some n, r\<lparr>nodes := hm_remove node_id (nodes r), ring := ring'\<rparr>))
      | None \<Rightarrow> (None, r))"

text \<open>\<open>range(hash..).next().or_else(|| iter().next())\<close>: the clockwise successor, wrapping.\<close>

definition get_node :: "murmur \<Rightarrow> (Murmur3Hasher \<Rightarrow> Murmur3Hasher) \<Rightarrow> HashRing \<Rightarrow> RingNode option" where
  "get_node mur key r =
     (if ring r = [] then None
      else
        let h = hash_key mur key;
            entry = (case bt_range_from h (ring r) of
                       e # _ \<Rightarrow> Some e
                     | [] \<Rightarrow> (case ring r of e # _ \<Rightarrow> Some e | [] \<Rightarrow> None))
        in case entry of
             None \<Rightarrow> None
           | Some (_, node_id) \<Rightarrow> hm_get (nodes r) node_id)"

text \<open>
  The loop of \<open>get_nodes\<close> over the clockwise entries: \<open>seen\<close> is the \<open>HashSet\<close> of identifiers
  met, \<open>result\<close> the nodes collected so far (in order), \<open>count\<close> the number asked for.
\<close>

fun get_nodes_loop ::
  "(string, RingNode) hashmap \<Rightarrow> nat \<Rightarrow> string list \<Rightarrow> RingNode list \<Rightarrow> (u64 \<times> string) list
     \<Rightarrow> RingNode list" where
  "get_nodes_loop ns count seen result [] = result"
| "get_nodes_loop ns count seen result ((_, node_id) # es) =
     (if node_id \<in> set seen then get_nodes_loop ns count seen result es
      else
        let seen' = node_id # seen in
        case hm_get ns node_id of
          Some n \<Rightarrow>
            (let result' = result @ [n] in
             if count \<le> length result' then result'
             else if length ns \<le> length seen' then result'
             else get_nodes_loop ns count seen' result' es)
        | None \<Rightarrow>
            (if length ns \<le> length seen' then result
             else get_nodes_loop ns count seen' result es))"

text \<open>The code reserves the result with \<open>Vec::with_capacity(count)\<close>, which panics when \<open>count\<close> references
  exceed \<open>isize::MAX\<close> bytes; \<open>count\<close> is below that here.\<close>

definition get_nodes ::
  "murmur \<Rightarrow> (Murmur3Hasher \<Rightarrow> Murmur3Hasher) \<Rightarrow> nat \<Rightarrow> HashRing \<Rightarrow> RingNode list" where
  "get_nodes mur key count r =
     (if ring r = [] \<or> count = 0 then []
      else
        let h = hash_key mur key
        in get_nodes_loop (nodes r) count [] [] (bt_range_from h (ring r) @ bt_range_to h (ring r)))"

text \<open>\<open>ord\<close> is the iteration order of the roster's hash map.\<close>

definition get_all_nodes :: "(RingNode list \<Rightarrow> RingNode list) \<Rightarrow> HashRing \<Rightarrow> RingNode list" where
  "get_all_nodes ord r = ord (hm_values (nodes r))"

definition node_count :: "HashRing \<Rightarrow> nat" where
  "node_count r = length (nodes r)"

definition virtual_node_count :: "HashRing \<Rightarrow> nat" where
  "virtual_node_count r = length (ring r)"

definition ring_contains :: "string \<Rightarrow> HashRing \<Rightarrow> bool" where
  "ring_contains node_id r = hm_contains_key (nodes r) node_id"

section \<open>Specification\<close>

text \<open>
  The clockwise distance from \<open>h\<close> to a point \<open>p\<close> is the wrapping difference \<open>p - h\<close>. A point is
  nearest to \<open>h\<close> when no other point has a smaller distance.
\<close>

definition nearest :: "u64 set \<Rightarrow> u64 \<Rightarrow> u64 \<Rightarrow> bool" where
  "nearest P h p \<longleftrightarrow> p \<in> P \<and> (\<forall>q \<in> P. p - h \<le> q - h)"

definition ring_points :: "HashRing \<Rightarrow> u64 set" where
  "ring_points r = dom (bt_get (ring r))"

definition vnode_points :: "murmur \<Rightarrow> u32 \<Rightarrow> string \<Rightarrow> u64 set" where
  "vnode_points mur vn i = vnode_hash mur i ` {0..<unat vn}"

text \<open>The well-formedness invariant: no ring point without its node, only own points.\<close>

definition ring_wf :: "murmur \<Rightarrow> HashRing \<Rightarrow> bool" where
  "ring_wf mur r \<longleftrightarrow>
     hm_inv (nodes r) \<and> bt_inv (ring r) \<and>
     (\<forall>i n. hm_get (nodes r) i = Some n \<longrightarrow> nid n = i) \<and>
     (\<forall>h i. bt_get (ring r) h = Some i \<longrightarrow>
        i \<in> dom (hm_get (nodes r)) \<and> h \<in> vnode_points mur (virtual_nodes r) i)"

text \<open>Every node owns all its virtual points: nothing was lost to a hash collision.\<close>

definition ring_full :: "murmur \<Rightarrow> HashRing \<Rightarrow> bool" where
  "ring_full mur r \<longleftrightarrow>
     (\<forall>i \<in> dom (hm_get (nodes r)). \<forall>h \<in> vnode_points mur (virtual_nodes r) i.
        bt_get (ring r) h = Some i)"

text \<open>The identifiers in the order the walk first meets them.\<close>

fun dedup :: "string list \<Rightarrow> string list \<Rightarrow> string list" where
  "dedup seen [] = []"
| "dedup seen (x # xs) = (if x \<in> set seen then dedup seen xs else x # dedup (x # seen) xs)"

definition clockwise :: "u64 \<Rightarrow> (u64, string) btreemap \<Rightarrow> (u64 \<times> string) list" where
  "clockwise h m = bt_range_from h m @ bt_range_to h m"

definition replicas_spec ::
  "murmur \<Rightarrow> (Murmur3Hasher \<Rightarrow> Murmur3Hasher) \<Rightarrow> nat \<Rightarrow> HashRing \<Rightarrow> RingNode list" where
  "replicas_spec mur key count r =
     take count (map (\<lambda>i. the (hm_get (nodes r) i))
       (dedup [] (map snd (clockwise (hash_key mur key) (ring r)))))"

section \<open>The invariant\<close>

lemma add_node_fields [simp]:
  "nodes (add_node mur n r) = hm_insert (nid n) n (nodes r)"
  "virtual_nodes (add_node mur n r) = virtual_nodes r"
  by (simp_all add: add_node_def Let_def)

lemma add_node_ring_inv: "bt_inv (ring r) \<Longrightarrow> bt_inv (ring (add_node mur n r))"
  by (simp add: add_node_def Let_def bt.inv_fold_insert)

lemma add_node_get:
  "bt_inv (ring r) \<Longrightarrow>
   bt_get (ring (add_node mur n r)) =
     (\<lambda>h. if h \<in> vnode_points mur (virtual_nodes r) (nid n) then Some (nid n) else bt_get (ring r) h)"
  by (simp add: add_node_def Let_def bt.get_fold_insert_const vnode_points_def)

lemma remove_node_None: "hm_get (nodes r) i = None \<Longrightarrow> remove_node mur i r = (None, r)"
  by (simp add: remove_node_def)

lemma remove_node_Some:
  assumes "hm_get (nodes r) i = Some n" and "bt_inv (ring r)" and "remove_node mur i r = (x, r')"
  shows "x = Some n" and "nodes r' = hm_remove i (nodes r)" and "virtual_nodes r' = virtual_nodes r"
    and "bt_inv (ring r')"
    and "bt_get (ring r') =
           (\<lambda>h. if h \<in> vnode_points mur (virtual_nodes r) i then None else bt_get (ring r) h)"
  using assms by (auto simp: remove_node_def Let_def bt.inv_fold_remove bt.get_fold_remove vnode_points_def)

lemma ring_wf_new: "ring_wf mur (ring_new vn)"
  by (simp add: ring_wf_def ring_new_def hm.inv_empty bt.inv_empty hm.get_empty bt.get_empty)

lemma ring_wf_add: "ring_wf mur r \<Longrightarrow> ring_wf mur (add_node mur n r)"
  unfolding ring_wf_def
  by (auto simp: hm.inv_insert hm.get_insert add_node_ring_inv add_node_get split: if_splits)

lemma ring_wf_remove:
  assumes wf: "ring_wf mur r" and rm: "remove_node mur i r = (x, r')"
  shows "ring_wf mur r'"
proof (cases "hm_get (nodes r) i")
  case None
  with wf rm show ?thesis by (simp add: remove_node_None)
next
  case (Some n)
  from wf have inv: "hm_inv (nodes r)" "bt_inv (ring r)" by (simp_all add: ring_wf_def)
  note r' = remove_node_Some [OF Some inv(2) rm]
  show ?thesis
    using wf inv unfolding ring_wf_def r'
    by (auto simp: r' hm.inv_remove hm.get_remove split: if_splits)
qed

lemmas ring_wf_intros = ring_wf_new ring_wf_add ring_wf_remove

lemma ring_wfD:
  assumes "ring_wf mur r"
  shows "hm_inv (nodes r)" and "bt_inv (ring r)"
    and "hm_get (nodes r) i = Some n \<Longrightarrow> nid n = i"
    and "bt_get (ring r) h = Some j \<Longrightarrow> \<exists>m. hm_get (nodes r) j = Some m \<and> nid m = j"
  using assms unfolding ring_wf_def by (blast, blast, blast, metis domD)

section \<open>Lookups are nearest-successor lookups\<close>

lemma clockwise_distance:
  fixes p q h :: u64
  shows "h \<le> p \<Longrightarrow> h \<le> q \<Longrightarrow> p - h \<le> q - h \<longleftrightarrow> p \<le> q"
    and "h \<le> p \<Longrightarrow> q < h \<Longrightarrow> p - h \<le> q - h"
    and "p < h \<Longrightarrow> q < h \<Longrightarrow> p - h \<le> q - h \<longleftrightarrow> p \<le> q"
  by uint_arith+

lemma nearest_unique: "nearest P h p \<Longrightarrow> nearest P h q \<Longrightarrow> p = q"
  unfolding nearest_def by (metis diff_add_cancel order_antisym)

lemma nearest_subset: "nearest P h p \<Longrightarrow> p \<in> Q \<Longrightarrow> Q \<subseteq> P \<Longrightarrow> nearest Q h p"
  unfolding nearest_def by auto

lemma sorted_hd_le: "bt_inv ((k, v) # m) \<Longrightarrow> (k', v') \<in> set ((k, v) # m) \<Longrightarrow> k \<le> k'"
  by (auto simp: bt_inv_def less_imp_le)

lemma set_clockwise: "set (clockwise h m) = set m"
  by (auto simp: clockwise_def bt_range_from_def bt_range_to_def)

lemma clockwise_Nil: "clockwise h m = [] \<longleftrightarrow> m = []"
  by (metis set_clockwise set_empty)

lemma bt_range_from_iff: "(q, j) \<in> set (bt_range_from h m) \<longleftrightarrow> (q, j) \<in> set m \<and> h \<le> q"
  by (auto simp: bt_range_from_def)

lemma hd_clockwise_nearest:
  assumes inv: "bt_inv m" and hd: "clockwise h m = (p, i) # es"
  shows "nearest (fst ` set m) h p" and "(p, i) \<in> set m"
proof -
  from hd show mem: "(p, i) \<in> set m" by (metis list.set_intros(1) set_clockwise)
  have "p - h \<le> q - h" if q: "(q, j) \<in> set m" for q j
  proof (cases "bt_range_from h m")
    case Nil
    then have lt: "\<forall>(q, j) \<in> set m. q < h"
      by (auto simp: bt_range_from_def filter_empty_conv)
    with Nil hd have "m = (p, i) # es"
      by (simp add: clockwise_def bt_range_to_def case_prod_beta)
    then have "p \<le> q" using inv q sorted_hd_le [of p i es q j] by simp
    with lt q mem show ?thesis by (auto simp: clockwise_distance(3))
  next
    case (Cons e rest)
    with hd have rf: "bt_range_from h m = (p, i) # rest" by (auto simp: clockwise_def)
    then have hp: "h \<le> p" using bt_range_from_iff [of p i h m] by simp
    show ?thesis
    proof (cases "h \<le> q")
      case True
      then have "(q, j) \<in> set ((p, i) # rest)"
        using q rf bt_range_from_iff [of q j h m] by simp
      moreover have "bt_inv ((p, i) # rest)"
        using bt_inv_filter [OF inv] rf by (metis bt_range_from_def)
      ultimately have "p \<le> q" by (metis sorted_hd_le)
      with True hp show ?thesis by (simp add: clockwise_distance(1))
    next
      case False
      with hp show ?thesis by (simp add: clockwise_distance(2))
    qed
  qed
  with mem show "nearest (fst ` set m) h p" by (force simp: nearest_def)
qed

text \<open>The wrap-around of \<open>get_node\<close> is the head of the clockwise walk.\<close>

lemma get_node_clockwise:
  "get_node mur key r =
     (case clockwise (hash_key mur key) (ring r) of
        [] \<Rightarrow> None | (_, i) # _ \<Rightarrow> hm_get (nodes r) i)"
proof (cases "bt_range_from (hash_key mur key) (ring r)")
  case Nil
  then have "bt_range_to (hash_key mur key) (ring r) = ring r"
    by (auto simp: bt_range_from_def bt_range_to_def filter_empty_conv intro!: filter_True)
  with Nil show ?thesis
    by (auto simp: get_node_def clockwise_def Let_def split: list.splits)
next
  case (Cons e es)
  then have "ring r \<noteq> []" by (auto simp: bt_range_from_def)
  with Cons show ?thesis
    by (auto simp: get_node_def clockwise_def Let_def split: list.splits)
qed

lemma ring_points_set: "bt_inv (ring r) \<Longrightarrow> ring_points r = fst ` set (ring r)"
  unfolding ring_points_def bt_get_def by (simp add: dom_map_of_conv_image_fst)

lemma get_node_nearest:
  assumes wf: "ring_wf mur r" and near: "nearest (ring_points r) (hash_key mur key) p"
    and own: "bt_get (ring r) p = Some i"
  shows "get_node mur key r = hm_get (nodes r) i"
proof -
  note inv = ring_wfD(2) [OF wf]
  from near have "ring r \<noteq> []" by (auto simp: nearest_def ring_points_def bt_get_def)
  then obtain q j es where cw: "clockwise (hash_key mur key) (ring r) = (q, j) # es"
    by (metis clockwise_Nil neq_Nil_conv surj_pair)
  note h = hd_clockwise_nearest [OF inv cw]
  have "q = p" using h(1) near ring_points_set [OF inv] nearest_unique by metis
  with h(2) own bt_get_in_set [OF inv] have "j = i" by (metis option.inject)
  with cw show ?thesis by (simp add: get_node_clockwise)
qed

lemma nearest_exists:
  assumes wf: "ring_wf mur r" and ne: "ring r \<noteq> []"
  obtains p i n where "nearest (ring_points r) h p" "bt_get (ring r) p = Some i"
    "hm_get (nodes r) i = Some n" "nid n = i"
proof -
  note inv = ring_wfD(2) [OF wf]
  obtain q j es where cw: "clockwise h (ring r) = (q, j) # es"
    using ne by (metis clockwise_Nil neq_Nil_conv surj_pair)
  note hd_clockwise_nearest [OF inv cw]
  then have "nearest (ring_points r) h q" "bt_get (ring r) q = Some j"
    using ring_points_set [OF inv] bt_get_in_set [OF inv] by metis+
  moreover obtain n where "hm_get (nodes r) j = Some n" "nid n = j"
    using ring_wfD(4) [OF wf] calculation(2) by blast
  ultimately show ?thesis using that by blast
qed

section \<open>Key movement\<close>

lemma ring_fullD:
  "ring_full mur r \<Longrightarrow> hm_get (nodes r) i = Some n \<Longrightarrow>
   h \<in> vnode_points mur (virtual_nodes r) i \<Longrightarrow> bt_get (ring r) h = Some i"
  by (auto simp: ring_full_def)

lemma ring_points_add:
  "bt_inv (ring r) \<Longrightarrow>
   ring_points (add_node mur n r) = ring_points r \<union> vnode_points mur (virtual_nodes r) (nid n)"
  by (auto simp: ring_points_def add_node_get split: if_splits)

lemma get_node_add:
  assumes wf: "ring_wf mur r" and got: "get_node mur key (add_node mur n r) = Some m"
  shows "m = n \<or> get_node mur key r = Some m"
proof -
  let ?r' = "add_node mur n r" and ?h = "hash_key mur key"
  note inv = ring_wfD(2) [OF wf] and hinv = ring_wfD(1) [OF wf]
  have wf': "ring_wf mur ?r'" by (rule ring_wf_add [OF wf])
  from got have "ring ?r' \<noteq> []" by (auto simp: get_node_def)
  then obtain p i m' where p: "nearest (ring_points ?r') ?h p" "bt_get (ring ?r') p = Some i"
    "hm_get (nodes ?r') i = Some m'" by (rule nearest_exists [OF wf'])
  from get_node_nearest [OF wf' p(1,2)] p(3) got have m: "hm_get (nodes ?r') i = Some m" by simp
  show ?thesis
  proof (cases "i = nid n")
    case True
    with m hinv show ?thesis by (simp add: hm.get_insert)
  next
    case False
    then have own: "bt_get (ring r) p = Some i"
      using p(2) inv by (auto simp: add_node_get split: if_splits)
    then have "p \<in> ring_points r" by (auto simp: ring_points_def)
    then have "nearest (ring_points r) ?h p"
      by (rule nearest_subset [OF p(1)]) (simp add: ring_points_add [OF inv])
    then have "get_node mur key r = hm_get (nodes r) i"
      using own by (rule get_node_nearest [OF wf])
    with False m hinv show ?thesis by (simp add: hm.get_insert)
  qed
qed

lemma get_node_remove:
  assumes wf: "ring_wf mur r" and full: "ring_full mur r"
    and got: "get_node mur key r = Some m" and other: "nid m \<noteq> i"
    and rm: "remove_node mur i r = (x, r')"
  shows "get_node mur key r' = Some m"
proof (cases "hm_get (nodes r) i")
  case None
  with got rm show ?thesis by (simp add: remove_node_None)
next
  case (Some n)
  let ?h = "hash_key mur key"
  note inv = ring_wfD(2) [OF wf] and hinv = ring_wfD(1) [OF wf]
  note r' = remove_node_Some [OF Some inv rm]
  from got have "ring r \<noteq> []" by (auto simp: get_node_def)
  then obtain p j m' where p: "nearest (ring_points r) ?h p" "bt_get (ring r) p = Some j"
    "hm_get (nodes r) j = Some m'" "nid m' = j" by (rule nearest_exists [OF wf])
  from get_node_nearest [OF wf p(1,2)] p(3) got have mm: "m' = m" by simp
  with other p(4) have ji: "j \<noteq> i" by simp
  have "p \<notin> vnode_points mur (virtual_nodes r) i"
    using ring_fullD [OF full Some] p(2) ji by auto
  then have own: "bt_get (ring r') p = Some j" using p(2) r'(5) by simp
  then have "p \<in> ring_points r'" by (auto simp: ring_points_def)
  then have "nearest (ring_points r') ?h p"
    by (rule nearest_subset [OF p(1)]) (auto simp: ring_points_def r'(5) split: if_splits)
  then have "get_node mur key r' = hm_get (nodes r') j"
    using own by (rule get_node_nearest [OF ring_wf_remove [OF wf rm]])
  then show ?thesis using r'(2) hinv ji p(3) mm by (simp add: hm.get_remove)
qed

lemma ring_full_new: "ring_full mur (ring_new vn)"
  by (simp add: ring_full_def ring_new_def hm.get_empty)

lemma ring_full_add:
  assumes wf: "ring_wf mur r" and full: "ring_full mur r"
    and free: "\<And>j. j \<in> dom (hm_get (nodes r)) \<Longrightarrow> j \<noteq> nid n \<Longrightarrow>
      vnode_points mur (virtual_nodes r) (nid n) \<inter> vnode_points mur (virtual_nodes r) j = {}"
  shows "ring_full mur (add_node mur n r)"
  using full free ring_wfD(1,2) [OF wf]
  by (auto simp: ring_full_def add_node_get hm.get_insert split: if_splits)

lemma ring_full_remove:
  assumes wf: "ring_wf mur r" and full: "ring_full mur r" and rm: "remove_node mur i r = (x, r')"
  shows "ring_full mur r'"
proof (cases "hm_get (nodes r) i")
  case None
  with full rm show ?thesis by (simp add: remove_node_None)
next
  case (Some n)
  note r' = remove_node_Some [OF Some ring_wfD(2) [OF wf] rm]
  show ?thesis
    unfolding ring_full_def r'
  proof (intro ballI)
    fix j h
    assume j: "j \<in> dom (hm_get (hm_remove i (nodes r)))"
      and h: "h \<in> vnode_points mur (virtual_nodes r) j"
    from j have ji: "j \<noteq> i" and jn: "j \<in> dom (hm_get (nodes r))"
      using ring_wfD(1) [OF wf] by (auto simp: hm.get_remove split: if_splits)
    with h full have "bt_get (ring r) h = Some j" by (simp add: ring_full_def)
    moreover from this ji Some full have "h \<notin> vnode_points mur (virtual_nodes r) i"
      using ring_fullD [OF full Some] by auto
    ultimately show "(if h \<in> vnode_points mur (virtual_nodes r) i then None
        else bt_get (ring r) h) = Some j" by simp
  qed
qed

lemma get_node_total:
  assumes wf: "ring_wf mur r" and full: "ring_full mur r"
    and vn: "virtual_nodes r \<noteq> 0" and ne: "nodes r \<noteq> []"
  shows "\<exists>n. get_node mur key r = Some n \<and> hm_get (nodes r) (nid n) = Some n"
proof -
  from ne obtain i n where "(i, n) \<in> set (nodes r)" by (metis list.set_intros(1) neq_Nil_conv surj_pair)
  then have i: "i \<in> dom (hm_get (nodes r))"
    using hm_get_in_set [OF ring_wfD(1) [OF wf]] by blast
  from vn have "0 < unat (virtual_nodes r)" by (simp add: unat_gt_0)
  then have "vnode_hash mur i 0 \<in> vnode_points mur (virtual_nodes r) i" by (simp add: vnode_points_def)
  with full i have "bt_get (ring r) (vnode_hash mur i 0) = Some i" by (simp add: ring_full_def)
  then have "ring r \<noteq> []" by (auto simp: bt_get_def)
  then obtain p j m where p: "nearest (ring_points r) (hash_key mur key) p" "bt_get (ring r) p = Some j"
    "hm_get (nodes r) j = Some m" "nid m = j" by (rule nearest_exists [OF wf])
  with get_node_nearest [OF wf p(1,2)] show ?thesis by simp
qed

lemma remove_add_roundtrip:
  assumes wf: "ring_wf mur r" and new: "hm_get (nodes r) (nid n) = None"
    and free: "vnode_points mur (virtual_nodes r) (nid n) \<inter> ring_points r = {}"
  shows "remove_node mur (nid n) (add_node mur n r) = (Some n, r)"
proof -
  let ?r' = "add_node mur n r"
  note inv = ring_wfD(2) [OF wf] and hinv = ring_wfD(1) [OF wf]
  have some: "hm_get (nodes ?r') (nid n) = Some n" using hinv by (simp add: hm.get_insert)
  obtain x r'' where rm: "remove_node mur (nid n) ?r' = (x, r'')" by fastforce
  note r'' = remove_node_Some [OF some add_node_ring_inv [OF inv] rm]
  have "bt_get (ring r) h = None" if "h \<in> vnode_points mur (virtual_nodes r) (nid n)" for h
    using free that by (auto simp: ring_points_def)
  then have "bt_get (ring r'') = bt_get (ring r)"
    using inv by (auto simp: r''(5) add_node_get fun_eq_iff)
  then have "ring r'' = ring r" using bt_ext r''(4) inv by blast
  moreover have "nodes r'' = nodes r" using new by (simp add: r''(2) hm_remove_insert_new)
  moreover have "virtual_nodes r'' = virtual_nodes r" using r''(3) by simp
  ultimately show ?thesis using rm r''(1) by (cases r'', cases r) auto
qed

section \<open>Replica lists\<close>

lemma dedup_all_seen: "set xs \<subseteq> set seen \<Longrightarrow> dedup seen xs = []"
  by (induction xs) auto

lemma set_dedup: "set (dedup seen xs) = set xs - set seen"
  by (induction seen xs rule: dedup.induct) auto

lemma distinct_dedup: "distinct (dedup seen xs)"
  by (induction seen xs rule: dedup.induct) (auto simp: set_dedup)

lemma seen_all:
  assumes "hm_inv ns" and "distinct seen" and "set seen \<subseteq> dom (hm_get ns)"
    and "length ns \<le> length seen"
  shows "set seen = dom (hm_get ns)"
proof -
  have dom: "dom (hm_get ns) = fst ` set ns"
    using hm_keys_set [of ns] by (simp add: hm_keys_def)
  have "card (dom (hm_get ns)) = length ns"
    using assms(1) unfolding dom hm_inv_def by (metis distinct_card length_map set_map)
  moreover have "card (set seen) = length seen" using assms(2) by (rule distinct_card)
  ultimately show ?thesis
    using assms(3,4) by (metis card_seteq dom finite_imageI List.finite_set)
qed

lemma get_nodes_loop_spec:
  assumes "hm_inv ns" and "\<forall>(h, i) \<in> set es. i \<in> dom (hm_get ns)"
    and "distinct seen" and "set seen \<subseteq> dom (hm_get ns)" and "length result < count"
  shows "get_nodes_loop ns count seen result es =
    result @ take (count - length result) (map (\<lambda>i. the (hm_get ns i)) (dedup seen (map snd es)))"
  using assms
proof (induction ns count seen result es rule: get_nodes_loop.induct)
  case (2 ns count seen result h i es)
  from "2.prems"(2) obtain n where n: "hm_get ns i = Some n" by auto
  let ?f = "\<lambda>i. the (hm_get ns i)"
  show ?case
  proof (cases "i \<in> set seen")
    case True
    with "2.IH"(1) "2.prems" show ?thesis by simp
  next
    case new: False
    have split: "take (count - length result) (map ?f (dedup seen (map snd ((h, i) # es))))
      = n # take (count - length (result @ [n])) (map ?f (dedup (i # seen) (map snd es)))"
    proof -
      have "count - length result = Suc (count - length (result @ [n]))"
        using "2.prems"(5) by simp
      then show ?thesis using new n by simp
    qed
    consider (enough) "count \<le> length (result @ [n])"
      | (all) "\<not> count \<le> length (result @ [n])" "length ns \<le> length (i # seen)"
      | (more) "\<not> count \<le> length (result @ [n])" "\<not> length ns \<le> length (i # seen)" by blast
    then show ?thesis
    proof cases
      case enough
      with new n split show ?thesis by simp
    next
      case all
      have "set (i # seen) = dom (hm_get ns)"
        using "2.prems" new n all(2) by (intro seen_all) auto
      then have "dedup (i # seen) (map snd es) = []"
        using "2.prems"(2) by (intro dedup_all_seen) auto
      with new n split all show ?thesis by simp
    next
      case more
      have "get_nodes_loop ns count (i # seen) (result @ [n]) es = (result @ [n]) @
          take (count - length (result @ [n])) (map ?f (dedup (i # seen) (map snd es)))"
        using "2.prems" new n more by (intro "2.IH"(3) [OF new refl n refl]) auto
      with new n split more show ?thesis by simp
    qed
  qed
qed simp

lemma get_nodes_eq_spec:
  assumes "ring_wf mur r"
  shows "get_nodes mur key count r = replicas_spec mur key count r"
proof (cases "ring r = [] \<or> count = 0")
  case True
  then show ?thesis
    using clockwise_Nil [of _ "[]"] by (auto simp: get_nodes_def replicas_spec_def)
next
  case False
  let ?cw = "clockwise (hash_key mur key) (ring r)"
  have "\<forall>(h, i) \<in> set ?cw. i \<in> dom (hm_get (nodes r))"
    using ring_wfD [OF assms] bt_get_in_set [of "ring r"] by (fastforce simp: set_clockwise)
  then show ?thesis
    using False get_nodes_loop_spec [OF ring_wfD(1) [OF assms], of ?cw "[]" "[]" count]
    by (simp add: get_nodes_def replicas_spec_def Let_def flip: clockwise_def)
qed

lemma replica_ids:
  assumes wf: "ring_wf mur r"
  shows "map nid (get_nodes mur key count r) =
    take count (dedup [] (map snd (clockwise (hash_key mur key) (ring r))))"
proof -
  have "nid (the (hm_get (nodes r) i)) = i" if "i \<in> snd ` set (ring r)" for i
  proof -
    from that obtain h where "(h, i) \<in> set (ring r)" by auto
    then have "bt_get (ring r) h = Some i" using bt_get_in_set [OF ring_wfD(2) [OF wf]] by simp
    then show ?thesis using ring_wfD(4) [OF wf] by force
  qed
  then have "map (nid \<circ> (\<lambda>i. the (hm_get (nodes r) i))) (dedup [] (map snd (clockwise (hash_key mur key) (ring r))))
    = dedup [] (map snd (clockwise (hash_key mur key) (ring r)))"
    by (intro map_idI) (auto simp: set_dedup set_clockwise)
  then show ?thesis
    by (simp add: get_nodes_eq_spec [OF wf] replicas_spec_def flip: take_map)
qed

lemma ring_ids_full:
  assumes wf: "ring_wf mur r" and full: "ring_full mur r" and vn: "virtual_nodes r \<noteq> 0"
  shows "snd ` set (ring r) = dom (hm_get (nodes r))"
proof
  show "snd ` set (ring r) \<subseteq> dom (hm_get (nodes r))"
    using ring_wfD(2,4) [OF wf] bt_get_in_set [of "ring r"] by fastforce
next
  show "dom (hm_get (nodes r)) \<subseteq> snd ` set (ring r)"
  proof
    fix i assume "i \<in> dom (hm_get (nodes r))"
    moreover from vn have "vnode_hash mur i 0 \<in> vnode_points mur (virtual_nodes r) i"
      by (simp add: vnode_points_def unat_gt_0)
    ultimately have "(vnode_hash mur i 0, i) \<in> set (ring r)"
      using full bt_get_in_set [OF ring_wfD(2) [OF wf]] by (auto simp: ring_full_def)
    then show "i \<in> snd ` set (ring r)" by (rule rev_image_eqI) simp
  qed
qed

lemma length_get_nodes:
  assumes wf: "ring_wf mur r" and full: "ring_full mur r" and vn: "virtual_nodes r \<noteq> 0"
  shows "length (get_nodes mur key count r) = min count (node_count r)"
proof -
  let ?ids = "dedup [] (map snd (clockwise (hash_key mur key) (ring r)))"
  have "set ?ids = dom (hm_get (nodes r))"
    using ring_ids_full [OF wf full vn] by (simp add: set_dedup set_clockwise)
  also have "dom (hm_get (nodes r)) = set (map fst (nodes r))"
    using hm_keys_set [of "nodes r"] by (simp add: hm_keys_def)
  finally have "length ?ids = length (map fst (nodes r))"
    using distinct_dedup ring_wfD(1) [OF wf] unfolding hm_inv_def by (metis distinct_card)
  then show ?thesis
    using arg_cong [OF replica_ids [OF wf, of key count], of length] by (simp add: node_count_def)
qed

section \<open>Reachable rings\<close>

text \<open>The rings a program can build: a fresh one, then any sequence of joins and leaves.\<close>

inductive ring_reach :: "murmur \<Rightarrow> u32 \<Rightarrow> HashRing \<Rightarrow> bool" for mur vn where
  new: "ring_reach mur vn (ring_new vn)"
| add: "ring_reach mur vn r \<Longrightarrow> ring_reach mur vn (add_node mur n r)"
| remove: "ring_reach mur vn r \<Longrightarrow> remove_node mur i r = (x, r') \<Longrightarrow> ring_reach mur vn r'"

lemma ring_reach_wf: "ring_reach mur vn r \<Longrightarrow> ring_wf mur r"
  by (induction rule: ring_reach.induct) (auto intro: ring_wf_intros)

text \<open>A small stand-in digest on which the witnesses are evaluated.\<close>

definition demo_mur :: murmur where
  "demo_mur seed bs =
     (case bs of [] \<Rightarrow> None | b # _ \<Rightarrow> Some (ucast b * 256 + ucast (last (butlast bs))))"

definition demo_node :: "string \<Rightarrow> RingNode" where
  "demo_node i = RingNode_new i ''10.0.0.1'' 9001"

definition demo_ring :: HashRing where
  "demo_ring = add_node demo_mur (demo_node ''b'') (add_node demo_mur (demo_node ''a'') (ring_new 2))"

lemma vnode_points_2: "vnode_points mur 2 i = {vnode_hash mur i 0, vnode_hash mur i 1}"
proof -
  have "{0..<unat (2 :: u32)} = {0, 1}" by auto
  then show ?thesis by (simp add: vnode_points_def)
qed

lemma demo_ring_reach: "ring_reach demo_mur 2 demo_ring"
  unfolding demo_ring_def by (intro ring_reach.intros)

section \<open>Properties\<close>

text \<open>C17. For every ring that can be built, a key is routed to the node that owns the ring point
  with the least clockwise (wrapping) distance from the key's hash, and that node is in the
  roster under its own identifier; no lookup fails while the ring holds a point.\<close>

theorem get_node_routes_to_successor:
  assumes "ring_reach mur vn r" and "ring r \<noteq> []"
  shows "\<exists>p n. nearest (ring_points r) (hash_key mur key) p \<and> bt_get (ring r) p = Some (nid n)
    \<and> hm_get (nodes r) (nid n) = Some n \<and> get_node mur key r = Some n"
proof -
  have wf: "ring_wf mur r" using assms(1) by (rule ring_reach_wf)
  obtain p i n where p: "nearest (ring_points r) (hash_key mur key) p" "bt_get (ring r) p = Some i"
    "hm_get (nodes r) i = Some n" "nid n = i" by (rule nearest_exists [OF wf assms(2)])
  with get_node_nearest [OF wf p(1,2)] show ?thesis by auto
qed

theorem get_node_routes_to_successor_witness:
  "ring demo_ring \<noteq> [] \<and> (\<exists>n. get_node demo_mur (str_hash ''job'') demo_ring = Some n)"
proof -
  have ne: "ring demo_ring \<noteq> []" by code_simp
  show ?thesis
    using get_node_routes_to_successor [OF demo_ring_reach ne, of "str_hash ''job''"] ne by blast
qed

text \<open>C18. \<open>get_nodes\<close>, with its early exits, returns exactly the first \<open>count\<close> distinct nodes met
  on the clockwise walk from the key's hash: distinct identifiers, and the primary node first.\<close>

theorem get_nodes_replicas:
  assumes "ring_reach mur vn r"
  shows "get_nodes mur key count r = replicas_spec mur key count r
    \<and> distinct (map nid (get_nodes mur key count r))
    \<and> length (get_nodes mur key count r) \<le> count
    \<and> (get_nodes mur key (Suc count) r = [] \<longleftrightarrow> get_node mur key r = None)
    \<and> (\<forall>n ns. get_nodes mur key (Suc count) r = n # ns \<longrightarrow> get_node mur key r = Some n)"
proof -
  have wf: "ring_wf mur r" using assms by (rule ring_reach_wf)
  let ?cw = "clockwise (hash_key mur key) (ring r)"
  have cw: "hm_get (nodes r) i \<noteq> None" if "?cw = (p, i) # es" for p i es
    using hd_clockwise_nearest(2) [OF ring_wfD(2) [OF wf] that] bt_get_in_set [OF ring_wfD(2) [OF wf]]
      ring_wfD(4) [OF wf] by (metis option.discI)
  have ids: "distinct (map nid (get_nodes mur key count r))"
    by (simp add: replica_ids [OF wf] distinct_dedup)
  have len: "length (get_nodes mur key count r) \<le> count"
    by (simp add: get_nodes_eq_spec [OF wf] replicas_spec_def)
  show ?thesis
    using ids len cw
    by (auto simp: get_nodes_eq_spec [OF wf] get_node_clockwise replicas_spec_def split: list.splits)
qed

theorem get_nodes_replicas_witness:
  "distinct (map nid (get_nodes demo_mur (str_hash ''job'') 2 demo_ring))
   \<and> length (get_nodes demo_mur (str_hash ''job'') 2 demo_ring) = 2"
proof -
  have "length (get_nodes demo_mur (str_hash ''job'') 2 demo_ring) = 2" by code_simp
  then show ?thesis using get_nodes_replicas [OF demo_ring_reach, of "str_hash ''job''" 2] by blast
qed

text \<open>When no virtual node was lost to a hash collision, every key is routed while the roster
  is not empty, and a replica request is answered by as many nodes as exist, up to \<open>count\<close>.\<close>

theorem ring_serves_every_key:
  assumes "ring_reach mur vn r" and "ring_full mur r" and "virtual_nodes r \<noteq> 0" and "nodes r \<noteq> []"
  shows "get_node mur key r \<noteq> None \<and> length (get_nodes mur key count r) = min count (node_count r)"
  using get_node_total [OF ring_reach_wf [OF assms(1)] assms(2-4), of key]
    length_get_nodes [OF ring_reach_wf [OF assms(1)] assms(2,3), of key count] by auto

theorem ring_serves_every_key_witness:
  "get_node demo_mur (str_hash ''job'') demo_ring \<noteq> None
   \<and> length (get_nodes demo_mur (str_hash ''job'') 3 demo_ring) = 2"
proof -
  have full: "ring_full demo_mur demo_ring"
  proof -
    have r1: "ring_full demo_mur (add_node demo_mur (demo_node ''a'') (ring_new 2))"
      by (rule ring_full_add [OF ring_wf_new ring_full_new]) (simp add: ring_new_def hm.get_empty)
    show ?thesis unfolding demo_ring_def
    proof (rule ring_full_add [OF ring_wf_add [OF ring_wf_new] r1])
      fix j assume "j \<in> dom (hm_get (nodes (add_node demo_mur (demo_node ''a'') (ring_new 2))))"
      then have j: "j = ''a''"
        by (auto simp: ring_new_def demo_node_def RingNode_new_def hm.get_insert hm.inv_empty hm.get_empty)
      have "{vnode_hash demo_mur ''b'' 0, vnode_hash demo_mur ''b'' 1}
          \<inter> {vnode_hash demo_mur ''a'' 0, vnode_hash demo_mur ''a'' 1} = {}"
        by code_simp
      then show "vnode_points demo_mur (virtual_nodes (add_node demo_mur (demo_node ''a'') (ring_new 2)))
          (nid (demo_node ''b'')) \<inter> vnode_points demo_mur
          (virtual_nodes (add_node demo_mur (demo_node ''a'') (ring_new 2))) j = {}"
        by (simp add: j vnode_points_2 ring_new_def demo_node_def RingNode_new_def)
    qed
  qed
  have vn: "virtual_nodes demo_ring \<noteq> 0" and ne: "nodes demo_ring \<noteq> []"
    and nc: "node_count demo_ring = 2" by code_simp+
  show ?thesis
    using ring_serves_every_key [OF demo_ring_reach full vn ne, of "str_hash ''job''" 3] nc by simp
qed

text \<open>C19. Adding a node moves keys to the new node only: a key that is routed to some other node
  after the join was routed to that same node before it.\<close>

theorem add_node_moves_keys_to_new_node:
  assumes "ring_reach mur vn r" and "get_node mur key (add_node mur n r) = Some m" and "m \<noteq> n"
  shows "get_node mur key r = Some m"
  using get_node_add [OF ring_reach_wf [OF assms(1)] assms(2)] assms(3) by blast

theorem add_node_moves_keys_to_new_node_witness:
  "\<exists>k. get_node demo_mur (str_hash k) (add_node demo_mur (demo_node ''c'') demo_ring)
        = Some (demo_node ''a'')
     \<and> get_node demo_mur (str_hash k) demo_ring = Some (demo_node ''a'')"
proof -
  have got: "get_node demo_mur (str_hash ''a:vnode:0'') (add_node demo_mur (demo_node ''c'') demo_ring)
      = Some (demo_node ''a'')"
    by code_simp
  have ne: "demo_node ''a'' \<noteq> demo_node ''c''" by code_simp
  show ?thesis
    using add_node_moves_keys_to_new_node [OF demo_ring_reach got ne] got by blast
qed

text \<open>C20. Removing a node leaves every key of every other node where it was, provided no virtual
  node was lost to a collision.\<close>

theorem remove_node_keeps_other_keys:
  assumes "ring_reach mur vn r" and "ring_full mur r" and "get_node mur key r = Some m"
    and "nid m \<noteq> i"
  shows "get_node mur key (snd (remove_node mur i r)) = Some m"
  using get_node_remove [OF ring_reach_wf [OF assms(1)] assms(2-4)] by (metis prod.collapse)

theorem remove_node_keeps_other_keys_witness:
  "get_node demo_mur (str_hash ''x'')
     (snd (remove_node demo_mur ''b'' (add_node demo_mur (demo_node ''a'') (ring_new 1))))
   = Some (demo_node ''a'')"
proof -
  let ?r = "add_node demo_mur (demo_node ''a'') (ring_new 1)"
  have reach: "ring_reach demo_mur 1 ?r" by (intro ring_reach.intros)
  have full: "ring_full demo_mur ?r"
    by (rule ring_full_add [OF ring_wf_new ring_full_new]) (simp add: ring_new_def hm.get_empty)
  have got: "get_node demo_mur (str_hash ''x'') ?r = Some (demo_node ''a'')" by code_simp
  have other: "nid (demo_node ''a'') \<noteq> ''b''" by code_simp
  show ?thesis by (rule remove_node_keeps_other_keys [OF reach full got other])
qed

text \<open>An address printed by \<open>socket_addr\<close> is parsed back to the same node, for every host and
  every port; and \<open>try_from_socket_addr\<close> rejects an address exactly when it has no colon or its
  part after the last colon is not a \<open>u16\<close>.\<close>

theorem socket_addr_roundtrip:
  "try_from_socket_addr (nid n) (socket_addr n) = Inr \<lparr>nid = nid n, host = host n, port = port n\<rparr>
   \<and> ((\<exists>e. try_from_socket_addr i addr = Inl e) \<longleftrightarrow>
       CHR '':'' \<notin> set addr \<or> (\<exists>h p. rsplit_once (CHR '':'') addr = Some (h, p) \<and> parse_u16 p = None))"
proof
  show "try_from_socket_addr (nid n) (socket_addr n) = Inr \<lparr>nid = nid n, host = host n, port = port n\<rparr>"
    by (simp add: try_from_socket_addr_def parse_host_port_def socket_addr_def rsplit_once_last
      parse_u16_show)
next
  show "(\<exists>e. try_from_socket_addr i addr = Inl e) \<longleftrightarrow>
      CHR '':'' \<notin> set addr \<or> (\<exists>h p. rsplit_once (CHR '':'') addr = Some (h, p) \<and> parse_u16 p = None)"
    using rsplit_once_None [of "CHR '':''" addr]
    by (auto simp: try_from_socket_addr_def parse_host_port_def split: option.splits sum.splits)
qed

theorem socket_addr_roundtrip_witness:
  "try_from_socket_addr ''a'' (socket_addr \<lparr>nid = ''a'', host = ''::1'', port = 80\<rparr>)
     = Inr \<lparr>nid = ''a'', host = ''::1'', port = 80\<rparr>
   \<and> (\<exists>e. try_from_socket_addr ''a'' ''nohost'' = Inl e)"
  using socket_addr_roundtrip [of "\<lparr>nid = ''a'', host = ''::1'', port = 80\<rparr>" "''a''" "''nohost''"] by simp

end
