(* ===== verification/Frames.thy ===== *)
theory Frames
  imports Prelude Config
begin

text \<open>
  The wire protocol of \<open>src/distributed.rs\<close>: length-prefixed JSON frames over a byte stream.
  \<open>serde_json\<close> is third-party: the record \<open>codec\<close> holds its three entry points, and \<open>codec_ok\<close>
  states the documented round trip. The peer is a byte list with an end (closed, silent past the
  read timeout, or failing); an outgoing connection accepts a number of bytes and then fails.
  Shown: what a sequence of \<open>write_frame\<close> calls puts on the wire is read back by \<open>handle_conn\<close>
  as the same messages in the same order, no frame above the limit is ever read or written, and
  how a truncated, oversized or undecodable frame ends the connection.
\<close>

unbundle bit_operations_syntax

section \<open>Byte streams\<close>

datatype stream_end = Eof | Stalled | Failed io_error

record instream =
  bytes :: "u8 list"
  tail :: stream_end

text \<open>\<open>timeout(d, fut).await\<close>: \<open>Elapsed\<close>, or the result of the read.\<close>

datatype 'a timed = Elapsed | Ready "'a io_result"

definition eof_error :: io_error where
  "eof_error = IoError UnexpectedEof ''early eof''"

definition read_exact :: "nat \<Rightarrow> instream \<Rightarrow> u8 list timed \<times> instream" where
  "read_exact n s =
     (if n \<le> length (bytes s) then (Ready (Inr (take n (bytes s))), s\<lparr>bytes := drop n (bytes s)\<rparr>)
      else case tail s of
             Eof \<Rightarrow> (Ready (Inl eof_error), s\<lparr>bytes := []\<rparr>)
           | Stalled \<Rightarrow> (Elapsed, s\<lparr>bytes := []\<rparr>)
           | Failed e \<Rightarrow> (Ready (Inl e), s\<lparr>bytes := []\<rparr>))"

definition u32_to_le :: "u32 \<Rightarrow> u8 list" where
  "u32_to_le w = [ucast w, ucast (drop_bit 8 w), ucast (drop_bit 16 w), ucast (drop_bit 24 w)]"

definition u32_from_le :: "u8 list \<Rightarrow> u32" where
  "u32_from_le bs = foldr (\<lambda>b acc. ucast b OR push_bit 8 acc) bs 0"

definition read_u32_le :: "instream \<Rightarrow> u32 timed \<times> instream" where
  "read_u32_le s =
     (case read_exact 4 s of
        (Elapsed, s') \<Rightarrow> (Elapsed, s')
      | (Ready (Inl e), s') \<Rightarrow> (Ready (Inl e), s')
      | (Ready (Inr bs), s') \<Rightarrow> (Ready (Inr (u32_from_le bs)), s'))"

record outstream =
  written :: "u8 list"
  accepts :: "nat option"  \<comment> \<open>bytes the connection still takes; \<open>None\<close>: it never fails\<close>
  on_fail :: io_error

definition write_all :: "u8 list \<Rightarrow> outstream \<Rightarrow> unit io_result \<times> outstream" where
  "write_all bs out =
     (case accepts out of
        None \<Rightarrow> (Inr (), out\<lparr>written := written out @ bs\<rparr>)
      | Some n \<Rightarrow>
          (if length bs \<le> n
           then (Inr (), out\<lparr>written := written out @ bs, accepts := Some (n - length bs)\<rparr>)
           else (Inl (on_fail out), out\<lparr>written := written out @ take n bs, accepts := Some 0\<rparr>)))"

section \<open>Frames\<close>

record 'j Frame =
  target :: string
  payload :: 'j

record ('m, 'j) codec =
  to_vec :: "string \<Rightarrow> 'm \<Rightarrow> string + u8 list"        \<comment> \<open>\<open>to_vec(&FrameOut)\<close>\<close>
  from_slice :: "u8 list \<Rightarrow> string + 'j Frame"        \<comment> \<open>\<open>from_slice::<Frame>\<close>\<close>
  from_value :: "'j \<Rightarrow> string + 'm"                   \<comment> \<open>\<open>from_value::<M>\<close>\<close>

definition codec_ok :: "('m, 'j) codec \<Rightarrow> bool" where
  "codec_ok c \<longleftrightarrow>
     (\<forall>t m b. to_vec c t m = Inr b \<longrightarrow>
        b \<noteq> [] \<and> (\<exists>f. from_slice c b = Inr f \<and> target f = t \<and> from_value c (payload f) = Inr m))"

definition too_large :: "nat \<Rightarrow> io_error" where
  "too_large n = IoError InvalidData (''frame too large: '' @ show_nat n @ '' bytes'')"

definition write_frame ::
  "('m, 'j) codec \<Rightarrow> string \<Rightarrow> 'm \<Rightarrow> u32 \<Rightarrow> outstream \<Rightarrow> unit io_result \<times> outstream" where
  "write_frame c t m maxb out =
     (case to_vec c t m of
        Inl e \<Rightarrow> (Inl (IoError InvalidData e), out)
      | Inr body \<Rightarrow>
          (if unat maxb < length body then (Inl (too_large (length body)), out)
           else case write_all (u32_to_le (of_nat (length body))) out of
                  (Inl e, out') \<Rightarrow> (Inl e, out')
                | (Inr _, out') \<Rightarrow> write_all body out'))"

definition read_u32_le_timeout :: "DistributedConfig \<Rightarrow> instream \<Rightarrow> u32 option io_result \<times> instream" where
  "read_u32_le_timeout cfg s =
     (case read_u32_le s of
        (Ready (Inr n), s') \<Rightarrow>
          (if n = 0 then (Inr None, s')
           else if max_frame_bytes cfg < n then (Inl (too_large (unat n)), s')
           else (Inr (Some n), s'))
      | (Ready (Inl e), s') \<Rightarrow>
          (if kind e = UnexpectedEof then (Inr None, s') else (Inl e, s'))
      | (Elapsed, s') \<Rightarrow> (Inl (IoError TimedOut ''frame read timed out''), s'))"

text \<open>
  One turn of the loop of \<open>handle_conn\<close>: \<open>Inl r\<close> ends the connection with result \<open>r\<close>, \<open>Inr\<close> is a
  decoded frame handed to a dispatch task, with the rest of the stream.
\<close>

definition conn_turn ::
  "('m, 'j) codec \<Rightarrow> DistributedConfig \<Rightarrow> instream \<Rightarrow> unit io_result + ((string \<times> 'm) \<times> instream)" where
  "conn_turn c cfg s =
     (case read_u32_le_timeout cfg s of
        (Inl e, _) \<Rightarrow> Inl (Inl e)
      | (Inr None, _) \<Rightarrow> Inl (Inr ())
      | (Inr (Some len), s') \<Rightarrow>
          (case read_exact (unat len) s' of
             (Elapsed, _) \<Rightarrow> Inl (Inl (IoError TimedOut ''frame body read timed out''))
           | (Ready (Inl e), _) \<Rightarrow> Inl (Inl e)
           | (Ready (Inr body), s'') \<Rightarrow>
               (case from_slice c body of
                  Inl e \<Rightarrow> Inl (Inl (IoError InvalidData e))
                | Inr frame \<Rightarrow>
                    (case from_value c (payload frame) of
                       Inl e \<Rightarrow> Inl (Inl (IoError InvalidData e))
                     | Inr m \<Rightarrow> Inr ((target frame, m), s'')))))"

text \<open>The loop: the frames handed to dispatch tasks, in order, and the result of the connection.\<close>

function handle_conn ::
  "('m, 'j) codec \<Rightarrow> DistributedConfig \<Rightarrow> instream \<Rightarrow> (string \<times> 'm) list \<times> unit io_result" where
  "handle_conn c cfg s =
     (case conn_turn c cfg s of
        Inl r \<Rightarrow> ([], r)
      | Inr (d, s') \<Rightarrow> (let (ds, r) = handle_conn c cfg s' in (d # ds, r)))"
  by pat_completeness auto

lemma read_exact_consumes:
  "read_exact n s = (Ready (Inr bs), s') \<Longrightarrow>
   length (bytes s) = n + length (bytes s') \<and> length bs = n \<and> tail s' = tail s"
  by (auto simp: read_exact_def split: if_splits stream_end.splits)

lemma read_u32_le_timeout_consumes:
  "read_u32_le_timeout cfg s = (Inr (Some n), s') \<Longrightarrow>
   length (bytes s) = 4 + length (bytes s') \<and> n \<le> max_frame_bytes cfg \<and> n \<noteq> 0"
  by (auto simp: read_u32_le_timeout_def read_u32_le_def not_less
    dest!: read_exact_consumes split: prod.splits timed.splits sum.splits if_splits)

lemma conn_turn_consumes:
  "conn_turn c cfg s = Inr (d, s') \<Longrightarrow> length (bytes s') < length (bytes s)"
  by (auto simp: conn_turn_def dest!: read_u32_le_timeout_consumes read_exact_consumes
    split: prod.splits timed.splits sum.splits option.splits)

termination handle_conn
  by (relation "measure (\<lambda>(c, cfg, s). length (bytes s))") (auto dest: conn_turn_consumes)

declare handle_conn.simps [simp del]

text \<open>Sending a list of messages: stop at the first error.\<close>

fun write_frames ::
  "('m, 'j) codec \<Rightarrow> u32 \<Rightarrow> (string \<times> 'm) list \<Rightarrow> outstream \<Rightarrow> unit io_result \<times> outstream" where
  "write_frames c maxb [] out = (Inr (), out)"
| "write_frames c maxb ((t, m) # ms) out =
     (case write_frame c t m maxb out of
        (Inl e, out') \<Rightarrow> (Inl e, out')
      | (Inr _, out') \<Rightarrow> write_frames c maxb ms out')"

text \<open>Specification: the bytes of one frame, how many whole frames a prefix of the wire holds, and how many
  bytes of the next one.\<close>

definition frame_body :: "('m, 'j) codec \<Rightarrow> string \<times> 'm \<Rightarrow> u8 list" where
  "frame_body c d = (case to_vec c (fst d) (snd d) of Inr b \<Rightarrow> b | Inl _ \<Rightarrow> [])"

definition wire :: "('m, 'j) codec \<Rightarrow> string \<times> 'm \<Rightarrow> u8 list" where
  "wire c d = u32_to_le (of_nat (length (frame_body c d))) @ frame_body c d"

definition sendable :: "('m, 'j) codec \<Rightarrow> u32 \<Rightarrow> string \<times> 'm \<Rightarrow> bool" where
  "sendable c maxb d \<longleftrightarrow>
     (\<exists>b. to_vec c (fst d) (snd d) = Inr b \<and> length b \<le> unat maxb)"

fun complete_frames :: "nat \<Rightarrow> nat list \<Rightarrow> nat" where
  "complete_frames k [] = 0"
| "complete_frames k (l # ls) = (if l \<le> k then Suc (complete_frames (k - l) ls) else 0)"

fun partial_bytes :: "nat \<Rightarrow> nat list \<Rightarrow> nat" where
  "partial_bytes k [] = 0"
| "partial_bytes k (l # ls) = (if l \<le> k then partial_bytes (k - l) ls else k)"

section \<open>Writing and reading one frame\<close>

lemma bit_u32_from_le_to_le: "u32_from_le (u32_to_le w) = w"
proof (rule bit_eqI)
  fix n assume "possible_bit TYPE(u32) n"
  then have n: "n < 32" by simp
  have "n \<in> {0..<8} \<or> n \<in> {8..<16} \<or> n \<in> {16..<24} \<or> n \<in> {24..<32}" using n by auto
  then show "bit (u32_from_le (u32_to_le w)) n \<longleftrightarrow> bit w n"
    by (auto simp: u32_from_le_def u32_to_le_def bit_simps dest: bit_imp_le_length)
qed

lemma length_u32_to_le [simp]: "length (u32_to_le w) = 4"
  by (simp add: u32_to_le_def)

lemma unat_of_nat_len: "n \<le> unat (maxb :: u32) \<Longrightarrow> unat (of_nat n :: u32) = n"
  using unsigned_less [of maxb, where ?'a = nat] by (simp add: unat_of_nat take_bit_nat_eq_self)

lemma of_nat_le_maxb: "n \<le> unat (maxb :: u32) \<Longrightarrow> (of_nat n :: u32) \<le> maxb"
  by (simp add: word_le_nat_alt unat_of_nat_len)

lemma write_frame_ok:
  assumes "sendable c maxb (t, m)" and "accepts out = None"
  shows "write_frame c t m maxb out = (Inr (), out\<lparr>written := written out @ wire c (t, m)\<rparr>)"
  using assms by (auto simp: sendable_def write_frame_def write_all_def wire_def frame_body_def)

lemma read_u32_le_timeout_frame:
  assumes "bs = u32_to_le n @ rest" and "n \<noteq> 0" and "n \<le> max_frame_bytes cfg"
  shows "read_u32_le_timeout cfg \<lparr>bytes = bs, tail = e\<rparr> = (Inr (Some n), \<lparr>bytes = rest, tail = e\<rparr>)"
  using assms
  by (simp add: read_u32_le_timeout_def read_u32_le_def read_exact_def bit_u32_from_le_to_le not_less)

lemma sendable_body:
  assumes "codec_ok c" and "sendable c maxb d"
  shows "\<exists>f. from_slice c (frame_body c d) = Inr f \<and> target f = fst d
      \<and> from_value c (payload f) = Inr (snd d)"
    and "frame_body c d \<noteq> []" and "length (frame_body c d) \<le> unat maxb"
  using assms by (auto simp: codec_ok_def sendable_def frame_body_def)

lemma sendable_len:
  assumes "codec_ok c" and "sendable c (max_frame_bytes cfg) d"
  shows "(of_nat (length (frame_body c d)) :: u32) \<noteq> 0"
    and "(of_nat (length (frame_body c d)) :: u32) \<le> max_frame_bytes cfg"
    and "unat (of_nat (length (frame_body c d)) :: u32) = length (frame_body c d)"
proof -
  note b = sendable_body [OF assms]
  show u: "unat (of_nat (length (frame_body c d)) :: u32) = length (frame_body c d)"
    using b(3) by (rule unat_of_nat_len)
  show "(of_nat (length (frame_body c d)) :: u32) \<noteq> 0"
    using u b(2) by (metis length_0_conv unat_0)
  show "(of_nat (length (frame_body c d)) :: u32) \<le> max_frame_bytes cfg"
    using b(3) by (rule of_nat_le_maxb)
qed

lemma conn_turn_frame:
  assumes "codec_ok c" and "sendable c (max_frame_bytes cfg) d"
  shows "conn_turn c cfg \<lparr>bytes = wire c d @ rest, tail = e\<rparr> = Inr (d, \<lparr>bytes = rest, tail = e\<rparr>)"
proof -
  note l = sendable_len [OF assms]
  obtain f where "from_slice c (frame_body c d) = Inr f" "target f = fst d"
    "from_value c (payload f) = Inr (snd d)" using sendable_body(1) [OF assms] by blast
  then show ?thesis
    using read_u32_le_timeout_frame [OF _ l(1,2), of _ "frame_body c d @ rest" e]
    by (simp add: conn_turn_def wire_def read_exact_def l(3))
qed

lemma conn_turn_short_header:
  "length bs < 4 \<Longrightarrow> conn_turn c cfg \<lparr>bytes = bs, tail = Eof\<rparr> = Inl (Inr ())"
  by (simp add: conn_turn_def read_u32_le_timeout_def read_u32_le_def read_exact_def eof_error_def)

lemma conn_turn_cut_body:
  assumes "codec_ok c" and "sendable c (max_frame_bytes cfg) d"
    and "4 \<le> k" and "k < length (wire c d)"
  shows "conn_turn c cfg \<lparr>bytes = take k (wire c d), tail = Eof\<rparr> = Inl (Inl eof_error)"
proof -
  note l = sendable_len [OF assms(1,2)]
  have "take k (wire c d) = u32_to_le (of_nat (length (frame_body c d))) @ take (k - 4) (frame_body c d)"
    using assms(3) by (simp add: wire_def)
  moreover have "k - 4 < length (frame_body c d)" using assms(3,4) by (simp add: wire_def)
  ultimately show ?thesis
    using read_u32_le_timeout_frame [OF _ l(1,2), of _ "take (k - 4) (frame_body c d)" Eof]
    by (simp add: conn_turn_def read_exact_def l(3))
qed

section \<open>Whole connections\<close>

lemma write_frames_wire:
  assumes "\<forall>d \<in> set ms. sendable c maxb d" and "accepts out = None"
  shows "write_frames c maxb ms out =
    (Inr (), out\<lparr>written := written out @ concat (map (wire c) ms)\<rparr>)"
  using assms
proof (induction ms arbitrary: out)
  case (Cons d ms)
  obtain t m where "d = (t, m)" by (cases d)
  with Cons show ?case by (simp add: write_frame_ok)
qed simp

lemma handle_conn_step:
  "conn_turn c cfg s = Inr (d, s') \<Longrightarrow> handle_conn c cfg s' = (ds, r) \<Longrightarrow>
   handle_conn c cfg s = (d # ds, r)"
  by (subst handle_conn.simps) simp

lemma handle_conn_stop: "conn_turn c cfg s = Inl r \<Longrightarrow> handle_conn c cfg s = ([], r)"
  by (subst handle_conn.simps) simp

lemma handle_conn_prefix:
  assumes "codec_ok c" and "\<forall>d \<in> set ms. sendable c (max_frame_bytes cfg) d"
  shows "handle_conn c cfg \<lparr>bytes = take k (concat (map (wire c) ms)), tail = Eof\<rparr>
      = (take (complete_frames k (map (\<lambda>d. length (wire c d)) ms)) ms,
         if partial_bytes k (map (\<lambda>d. length (wire c d)) ms) < 4 then Inr () else Inl eof_error)"
  using assms(2)
proof (induction ms arbitrary: k)
  case Nil
  then show ?case by (simp add: handle_conn_stop [OF conn_turn_short_header])
next
  case (Cons d ms)
  let ?w = "concat (map (wire c) ms)" and ?l = "length (wire c d)"
  have d: "sendable c (max_frame_bytes cfg) d" using Cons.prems by simp
  consider (whole) "?l \<le> k" | (header) "k < 4" "k < ?l" | (body) "4 \<le> k" "k < ?l" by linarith
  then show ?case
  proof cases
    case whole
    note r = Cons.IH [of "k - ?l"]
    show ?thesis
      using handle_conn_step [OF conn_turn_frame [OF assms(1) d] r] Cons.prems whole by simp
  next
    case header
    then have "conn_turn c cfg \<lparr>bytes = take k (wire c d @ ?w), tail = Eof\<rparr> = Inl (Inr ())"
      by (intro conn_turn_short_header) simp
    with header show ?thesis by (simp add: handle_conn_stop)
  next
    case body
    with handle_conn_stop [OF conn_turn_cut_body [OF assms(1) d body]] show ?thesis by simp
  qed
qed

lemma complete_frames_all: "sum_list ls \<le> k \<Longrightarrow> complete_frames k ls = length ls"
  by (induction ls arbitrary: k) auto

lemma partial_bytes_all: "sum_list ls \<le> k \<Longrightarrow> partial_bytes k ls = 0"
  by (induction ls arbitrary: k) auto

lemma complete_frames_wire: "complete_frames (length (concat (map (wire c) ms))) (map (\<lambda>d. length (wire c d)) ms) = length ms"
    "partial_bytes (length (concat (map (wire c) ms))) (map (\<lambda>d. length (wire c d)) ms) = 0"
  by (simp_all add: complete_frames_all partial_bytes_all length_concat comp_def)

lemma handle_conn_all:
  assumes "codec_ok c" and "\<forall>d \<in> set ms. sendable c (max_frame_bytes cfg) d"
  shows "handle_conn c cfg \<lparr>bytes = concat (map (wire c) ms), tail = Eof\<rparr> = (ms, Inr ())"
  using handle_conn_prefix [OF assms, of "length (concat (map (wire c) ms))"]
  by (auto simp: complete_frames_wire)

section \<open>Properties\<close>

text \<open>A small codec for the witnesses: one-byte messages to the target \<open>w\<close>.\<close>

definition demo_codec :: "(u8, u8) codec" where
  "demo_codec =
     \<lparr>to_vec = (\<lambda>t m. if t = ''w'' then Inr [m, 1] else Inl ''unknown target''),
      from_slice = (\<lambda>bs. if length bs = 2 then Inr \<lparr>target = ''w'', payload = hd bs\<rparr> else Inl ''syntax''),
      from_value = Inr\<rparr>"

lemma demo_codec_ok: "codec_ok demo_codec"
  by (auto simp: codec_ok_def demo_codec_def)

lemma demo_sendable: "\<forall>d \<in> set [(''w'', 7), (''w'', 9)]. sendable demo_codec 16 d"
  by (simp add: sendable_def demo_codec_def)

definition fresh_out :: outstream where
  "fresh_out = \<lparr>written = [], accepts = None, on_fail = eof_error\<rparr>"

text \<open>C21. What a list of \<open>write_frame\<close> calls puts on a healthy connection, \<open>handle_conn\<close> reads
  back as exactly the same targets and messages in the same order, and ends with \<open>Ok\<close>.\<close>

theorem frames_roundtrip:
  assumes "codec_ok c" and "\<forall>d \<in> set ms. sendable c (max_frame_bytes cfg) d" and "accepts out = None"
    and "written out = []"
  shows "\<exists>out'. write_frames c (max_frame_bytes cfg) ms out = (Inr (), out')
    \<and> handle_conn c cfg \<lparr>bytes = written out', tail = Eof\<rparr> = (ms, Inr ())"
  using handle_conn_all [OF assms(1,2)] write_frames_wire [OF assms(2,3)] assms(4) by simp

theorem frames_roundtrip_witness:
  "\<exists>out'. write_frames demo_codec 16 [(''w'', 7), (''w'', 9)] fresh_out = (Inr (), out')
    \<and> handle_conn demo_codec (DistributedConfig_default\<lparr>max_frame_bytes := 16\<rparr>)
        \<lparr>bytes = written out', tail = Eof\<rparr> = ([(''w'', 7), (''w'', 9)], Inr ())"
  using frames_roundtrip [OF demo_codec_ok, of "[(''w'', 7), (''w'', 9)]"
      "DistributedConfig_default\<lparr>max_frame_bytes := 16\<rparr>" fresh_out] demo_sendable
  by (simp add: fresh_out_def)

text \<open>C23. A connection cut after any number \<open>k\<close> of bytes dispatches exactly the frames that arrived
  whole, never a partial one. It ends with \<open>Ok\<close> when fewer than four bytes of the next frame arrived (a cut
  between frames or in a length prefix is a clean close), and with \<open>UnexpectedEof\<close> when its length prefix
  arrived and its body did not.\<close>

theorem cut_connection_dispatches_whole_frames:
  assumes "codec_ok c" and "\<forall>d \<in> set ms. sendable c (max_frame_bytes cfg) d"
  shows "fst (handle_conn c cfg \<lparr>bytes = take k (concat (map (wire c) ms)), tail = Eof\<rparr>)
      = take (complete_frames k (map (\<lambda>d. length (wire c d)) ms)) ms
    \<and> snd (handle_conn c cfg \<lparr>bytes = take k (concat (map (wire c) ms)), tail = Eof\<rparr>)
      = (if partial_bytes k (map (\<lambda>d. length (wire c d)) ms) < 4 then Inr () else Inl eof_error)"
  using handle_conn_prefix [OF assms, of k] by simp

theorem cut_connection_dispatches_whole_frames_witness:
  "handle_conn demo_codec (DistributedConfig_default\<lparr>max_frame_bytes := 16\<rparr>)
     \<lparr>bytes = take 9 (concat (map (wire demo_codec) [(''w'', 7), (''w'', 9)])), tail = Eof\<rparr> = ([(''w'', 7)], Inr ())
   \<and> handle_conn demo_codec (DistributedConfig_default\<lparr>max_frame_bytes := 16\<rparr>)
     \<lparr>bytes = take 11 (concat (map (wire demo_codec) [(''w'', 7), (''w'', 9)])), tail = Eof\<rparr> = ([(''w'', 7)], Inl eof_error)"
  using cut_connection_dispatches_whole_frames [OF demo_codec_ok, of "[(''w'', 7), (''w'', 9)]"
      "DistributedConfig_default\<lparr>max_frame_bytes := 16\<rparr>" 9]
    cut_connection_dispatches_whole_frames [OF demo_codec_ok, of "[(''w'', 7), (''w'', 9)]"
      "DistributedConfig_default\<lparr>max_frame_bytes := 16\<rparr>" 11] demo_sendable
  by (simp add: wire_def frame_body_def demo_codec_def prod_eq_iff)

text \<open>The frame limit holds in both directions: a length the reader accepts is between 1 and
  \<open>max_frame_bytes\<close>, so the buffer it allocates is bounded, and a frame the writer sends has a body
  within the limit whose length prefix is exact (the cast to \<open>u32\<close> never truncates).\<close>

theorem frame_limit:
  "(read_u32_le_timeout cfg s = (Inr (Some n), s') \<longrightarrow> 0 < unat n \<and> unat n \<le> unat (max_frame_bytes cfg))
   \<and> (write_frame c t m maxb out = (Inr (), out') \<longrightarrow>
       (\<exists>body. to_vec c t m = Inr body \<and> length body \<le> unat maxb
          \<and> written out' = written out @ u32_to_le (of_nat (length body)) @ body
          \<and> unat (of_nat (length body) :: u32) = length body))"
proof (intro conjI impI)
  assume r: "read_u32_le_timeout cfg s = (Inr (Some n), s')"
  show "0 < unat n" "unat n \<le> unat (max_frame_bytes cfg)"
    using read_u32_le_timeout_consumes [OF r] by (simp_all add: word_le_nat_alt unat_gt_0)
next
  assume w: "write_frame c t m maxb out = (Inr (), out')"
  then obtain body where body: "to_vec c t m = Inr body" "length body \<le> unat maxb"
    by (auto simp: write_frame_def split: sum.splits if_splits)
  moreover from w body have "written out' = written out @ u32_to_le (of_nat (length body)) @ body"
    by (auto simp: write_frame_def write_all_def split: sum.splits if_splits option.splits)
  ultimately show "\<exists>body. to_vec c t m = Inr body \<and> length body \<le> unat maxb
      \<and> written out' = written out @ u32_to_le (of_nat (length body)) @ body
      \<and> unat (of_nat (length body) :: u32) = length body"
    by (auto simp: unat_of_nat_len)
qed

theorem frame_limit_witness:
  "\<exists>n s'. read_u32_le_timeout DistributedConfig_default \<lparr>bytes = [2, 0, 0, 0], tail = Eof\<rparr> = (Inr (Some n), s')
      \<and> unat n \<le> unat (max_frame_bytes DistributedConfig_default)"
proof -
  have r: "read_u32_le_timeout DistributedConfig_default \<lparr>bytes = [2, 0, 0, 0], tail = Eof\<rparr>
      = (Inr (Some 2), \<lparr>bytes = [], tail = Eof\<rparr>)"
    by (rule read_u32_le_timeout_frame) (simp_all add: u32_to_le_def DistributedConfig_default_def)
  show ?thesis using frame_limit [THEN conjunct1, THEN mp, OF r] r by blast
qed

end
