(* ===== verification/Remote.thy ===== *)
theory Remote
  imports Frames
begin

text \<open>
  The outgoing and the incoming half of a TCP node in \<open>src/distributed.rs\<close>. Outgoing: the write
  loop behind a \<open>RemoteActorRef\<close> as a machine driven by events (a connection attempt ends, one
  message is taken from the channel, the message taken is written or lost with the connection, the last
  sender goes away). Incoming: the dispatch table of a
  \<open>Node\<close> with the tasks \<open>handle_conn\<close> spawns per frame and the semaphore that bounds them, as a
  step relation, since the tasks run concurrently. Both sides keep the capacity of their channels: a
  send into a full one is \<open>None\<close>, or a step that is not enabled, until there is room.
\<close>

section \<open>The write loop\<close>

type_synonym tls_handle = nat

record 'm Writer =
  w_addr :: string
  w_target :: string
  w_capacity :: nat
  w_config :: DistributedConfig
  w_tls :: "tls_handle option"
  w_queue :: "'m list"
  w_hand :: "'m option"                        \<comment> \<open>the message \<open>rx.recv()\<close> returned, being written\<close>
  w_closed :: bool                             \<comment> \<open>every sender was dropped\<close>
  w_conn :: "outstream option"
  w_done :: bool                               \<comment> \<open>the loop has returned\<close>

datatype 'm writer_event =
    Connected "outstream io_result"            \<comment> \<open>\<open>tls::connect\<close> has returned\<close>
  | Pump                                       \<comment> \<open>\<open>rx.recv()\<close> or \<open>write_frame\<close> has returned\<close>
  | SendersGone

fun remote_write_step :: "('m, 'j) codec \<Rightarrow> 'm Writer \<Rightarrow> 'm writer_event \<Rightarrow> 'm Writer" where
  "remote_write_step c w SendersGone = w\<lparr>w_closed := True\<rparr>"
| "remote_write_step c w (Connected r) =
     (if w_done w \<or> w_conn w \<noteq> None then w
      else case r of
             Inr stream \<Rightarrow> w\<lparr>w_conn := Some stream\<rparr>
           | Inl e \<Rightarrow> (if w_closed w then w\<lparr>w_done := True\<rparr> else w))"
| "remote_write_step c w Pump =
     (if w_done w then w
      else case w_conn w of
             None \<Rightarrow> w
           | Some stream \<Rightarrow>
               (case w_hand w of
                  None \<Rightarrow>
                    (case w_queue w of
                       [] \<Rightarrow> (if w_closed w then w\<lparr>w_done := True\<rparr> else w)
                     | m # q \<Rightarrow> w\<lparr>w_queue := q, w_hand := Some m\<rparr>)
                | Some m \<Rightarrow>
                    (case write_frame c (w_target w) m (max_frame_bytes (w_config w)) stream of
                       (Inr _, stream') \<Rightarrow> w\<lparr>w_hand := None, w_conn := Some stream'\<rparr>
                     | (Inl e, _) \<Rightarrow> w\<lparr>w_hand := None, w_conn := None\<rparr>)))"

fun remote_write_loop :: "('m, 'j) codec \<Rightarrow> 'm Writer \<Rightarrow> 'm writer_event list \<Rightarrow> 'm Writer" where
  "remote_write_loop c w [] = w"
| "remote_write_loop c w (e # es) = remote_write_loop c (remote_write_step c w e) es"

section \<open>Remote references\<close>

record RemoteActorRef =
  ref_addr :: string
  ref_target :: string
  ref_writer :: nat      \<comment> \<open>the shared \<open>Arc<PeerWriter>\<close>: an index into the writers\<close>

type_synonym 'm writers = "'m Writer list"

definition with_config ::
  "string \<Rightarrow> string \<Rightarrow> DistributedConfig \<Rightarrow> tls_handle option \<Rightarrow> 'm writers
     \<Rightarrow> RemoteActorRef \<times> 'm writers" where
  "with_config addr t cfg tls ws =
     (\<lparr>ref_addr = addr, ref_target = t, ref_writer = length ws\<rparr>,
      ws @ [\<lparr>w_addr = addr, w_target = t, w_capacity = max (remote_send_capacity cfg) 1,
             w_config = cfg, w_tls = tls, w_queue = [], w_hand = None, w_closed = False,
             w_conn = None, w_done = False\<rparr>])"

definition RemoteActorRef_new :: "string \<Rightarrow> string \<Rightarrow> 'm writers \<Rightarrow> RemoteActorRef \<times> 'm writers" where
  "RemoteActorRef_new addr t ws = with_config addr t DistributedConfig_default None ws"

definition with_tls ::
  "string \<Rightarrow> string \<Rightarrow> DistributedConfig \<Rightarrow> tls_handle \<Rightarrow> 'm writers \<Rightarrow> RemoteActorRef \<times> 'm writers" where
  "with_tls addr t cfg tls ws = with_config addr t cfg (Some tls) ws"

definition channel_closed_error :: io_error where
  "channel_closed_error = IoError NotConnected ''remote peer write channel closed''"

text \<open>\<open>RemoteActorRef::send\<close>: \<open>None\<close> while the channel of the write loop is full; an error when the loop
  has returned.\<close>

definition remote_send :: "RemoteActorRef \<Rightarrow> 'm \<Rightarrow> 'm writers \<Rightarrow> (unit io_result \<times> 'm writers) option" where
  "remote_send r m ws =
     (if length ws \<le> ref_writer r \<or> w_done (ws ! ref_writer r) then Some (Inl channel_closed_error, ws)
      else if length (w_queue (ws ! ref_writer r)) < w_capacity (ws ! ref_writer r)
      then Some (Inr (), ws[ref_writer r := (ws ! ref_writer r)\<lparr>w_queue := w_queue (ws ! ref_writer r) @ [m]\<rparr>])
      else None)"

section \<open>The dispatch table and its tasks\<close>

text \<open>A dispatch task first looks its target up, then sends to the channel it found.\<close>

datatype 'm task = Lookup string 'm | Send nat 'm

record 'm NodeState =
  dispatch :: "(string, nat) hashmap"
  permits :: nat                               \<comment> \<open>free permits of the semaphore\<close>
  tasks :: "'m task list"                      \<comment> \<open>each holds one permit\<close>
  channels :: "nat \<Rightarrow> 'm chan"                 \<comment> \<open>those whose senders are in the table; others are closed\<close>
  dropped :: "'m list"

definition no_chan :: "'m chan" where
  "no_chan = \<lparr>cap = 0, queue = [], rx_open = False\<rparr>"

text \<open>\<open>Semaphore::new\<close> panics above \<open>Semaphore::MAX_PERMITS\<close> permits; \<open>max_in_flight\<close> is below that here.\<close>

definition node_bound :: "DistributedConfig \<Rightarrow> 'm NodeState" where
  "node_bound cfg =
     \<lparr>dispatch = [], permits = max (max_in_flight cfg) 1, tasks = [], channels = (\<lambda>_. no_chan), dropped = []\<rparr>"

definition node_register :: "string \<Rightarrow> nat \<Rightarrow> 'm NodeState \<Rightarrow> 'm NodeState" where
  "node_register t tx s = s\<lparr>dispatch := hm_insert t tx (dispatch s)\<rparr>"

definition node_unregister :: "string \<Rightarrow> 'm NodeState \<Rightarrow> 'm NodeState" where
  "node_unregister t s = s\<lparr>dispatch := hm_remove t (dispatch s)\<rparr>"

definition remove_task :: "nat \<Rightarrow> 'm NodeState \<Rightarrow> 'm NodeState" where
  "remove_task i s =
     s\<lparr>tasks := take i (tasks s) @ drop (Suc i) (tasks s), permits := Suc (permits s)\<rparr>"

text \<open>
  The steps of a node: a connection handler takes a permit and spawns the task for a frame; a task
  looks its target up under the lock; a task that found a channel sends, when the channel has room or
  its receiver is gone, and gives its permit back. Others put senders in the table, of channels they
  have or of new ones, and take them out.
\<close>

inductive node_step :: "'m NodeState \<Rightarrow> 'm NodeState \<Rightarrow> bool" where
  spawn_dispatch: "0 < permits s \<Longrightarrow>
     node_step s (s\<lparr>permits := permits s - 1, tasks := tasks s @ [Lookup t m]\<rparr>)"
| lookup_found: "i < length (tasks s) \<Longrightarrow> tasks s ! i = Lookup t m \<Longrightarrow> hm_get (dispatch s) t = Some ch \<Longrightarrow>
     node_step s (s\<lparr>tasks := (tasks s)[i := Send ch m]\<rparr>)"
| lookup_missing: "i < length (tasks s) \<Longrightarrow> tasks s ! i = Lookup t m \<Longrightarrow> hm_get (dispatch s) t = None \<Longrightarrow>
     node_step s (remove_task i (s\<lparr>dropped := dropped s @ [m]\<rparr>))"
| send_ok: "i < length (tasks s) \<Longrightarrow> tasks s ! i = Send ch m \<Longrightarrow> chan_send m (channels s ch) = Some (True, q) \<Longrightarrow>
     node_step s (remove_task i (s\<lparr>channels := (channels s)(ch := q)\<rparr>))"
| send_closed: "i < length (tasks s) \<Longrightarrow> tasks s ! i = Send ch m \<Longrightarrow> chan_send m (channels s ch) = Some (False, q) \<Longrightarrow>
     node_step s (remove_task i (s\<lparr>dropped := dropped s @ [m]\<rparr>))"
| register: "node_step s (node_register t ch s)"
| register_new: "channel n = Returns q \<Longrightarrow> \<forall>t. hm_get (dispatch s) t \<noteq> Some ch \<Longrightarrow> \<forall>m. Send ch m \<notin> set (tasks s) \<Longrightarrow>
     node_step s (node_register t ch (s\<lparr>channels := (channels s)(ch := q)\<rparr>))"
| unregister: "node_step s (node_unregister t s)"

inductive node_reach :: "DistributedConfig \<Rightarrow> 'm NodeState \<Rightarrow> bool" for cfg where
  bound: "node_reach cfg (node_bound cfg)"
| step: "node_reach cfg s \<Longrightarrow> node_step s s' \<Longrightarrow> node_reach cfg s'"

section \<open>Interleavings of senders and write loops\<close>

datatype 'm net_action = Offer RemoteActorRef 'm | Event nat "'m writer_event"

text \<open>An \<open>Offer\<close> that finds the channel full changes nothing: the sender waits, and offers again.\<close>

fun net_act :: "('m, 'j) codec \<Rightarrow> 'm writers \<Rightarrow> 'm net_action \<Rightarrow> 'm writers" where
  "net_act c ws (Offer r m) = (case remote_send r m ws of None \<Rightarrow> ws | Some (_, ws') \<Rightarrow> ws')"
| "net_act c ws (Event i e) =
     (if i < length ws then ws[i := remote_write_step c (ws ! i) e] else ws)"

fun net_run :: "('m, 'j) codec \<Rightarrow> 'm writers \<Rightarrow> 'm net_action list \<Rightarrow> 'm writers" where
  "net_run c ws [] = ws"
| "net_run c ws (a # acts) = net_run c (net_act c ws a) acts"







section \<open>The write loop loses at most the message it was writing\<close>

text \<open>The messages a writer still has to write.\<close>

definition unwritten :: "'m Writer \<Rightarrow> 'm list" where
  "unwritten w = (case w_hand w of None \<Rightarrow> [] | Some m \<Rightarrow> [m]) @ w_queue w"


definition failed :: "('m \<times> unit io_result) list \<Rightarrow> nat" where
  "failed rs = length (filter (\<lambda>(m, r). isl r) rs)"

lemma failed_append [simp]: "failed (xs @ ys) = failed xs + failed ys"
  by (simp add: failed_def)


lemma remote_write_step_static [simp]:
  "w_target (remote_write_step c w e) = w_target w"
  "w_config (remote_write_step c w e) = w_config w"
  "w_addr (remote_write_step c w e) = w_addr w"
  by (cases e; auto split: option.splits list.splits sum.splits prod.splits)+

lemma pump_drains:
  assumes "\<forall>m \<in> set (w_queue w). sendable c (max_frame_bytes (w_config w)) (w_target w, m)"
    and "w_conn w = Some stream" and "accepts stream = None" and "\<not> w_done w" and "w_hand w = None"
  shows "\<exists>stream'. remote_write_loop c w (replicate (2 * length (w_queue w)) Pump) = w\<lparr>w_queue := [], w_conn := Some stream'\<rparr>
    \<and> written stream' = written stream @ concat (map (\<lambda>m. wire c (w_target w, m)) (w_queue w))"
  using assms
proof (induction "w_queue w" arbitrary: w stream)
  case Nil
  then have "w = w\<lparr>w_queue := [], w_conn := Some stream\<rparr>" by (cases w) simp
  with Nil show ?case by (intro exI [of _ stream]) simp
next
  case (Cons m q)
  let ?s = "stream\<lparr>written := written stream @ wire c (w_target w, m)\<rparr>"
  let ?w = "w\<lparr>w_queue := q, w_conn := Some ?s\<rparr>"
  have q: "w_queue w = m # q" using Cons.hyps(2) by simp
  have "sendable c (max_frame_bytes (w_config w)) (w_target w, m)" using Cons.prems(1) q by simp
  then have "remote_write_step c (remote_write_step c w Pump) Pump = w\<lparr>w_queue := q, w_hand := None, w_conn := Some ?s\<rparr>"
    using Cons.prems q by (simp add: write_frame_ok)
  also have "\<dots> = ?w" using Cons.prems(5) by (cases w) simp
  finally have step: "remote_write_step c (remote_write_step c w Pump) Pump = ?w" .
  have "\<exists>stream'. remote_write_loop c ?w (replicate (2 * length (w_queue ?w)) Pump) = ?w\<lparr>w_queue := [], w_conn := Some stream'\<rparr>
    \<and> written stream' = written ?s @ concat (map (\<lambda>m. wire c (w_target ?w, m)) (w_queue ?w))"
    using Cons.prems q by (intro Cons.hyps(1)) auto
  then show ?case by (simp add: q step del: remote_write_step.simps)
qed

section \<open>The semaphore bound\<close>

lemma length_remove_task:
  "i < length (tasks s) \<Longrightarrow> length (tasks (remove_task i s)) = length (tasks s) - 1
     \<and> permits (remove_task i s) = Suc (permits s)"
  by (simp add: remove_task_def)

lemma node_step_permits:
  "node_step s s' \<Longrightarrow> permits s' + length (tasks s') = permits s + length (tasks s)"
  by (induction rule: node_step.induct) (auto simp: remove_task_def node_register_def node_unregister_def)

interpretation node_sys: conserving node_step "\<lambda>_. True" "\<lambda>s. permits s + length (tasks s)"
  by unfold_locales (auto dest: node_step_permits)

lemma node_reach_steps: "node_reach cfg s \<Longrightarrow> node_step\<^sup>*\<^sup>* (node_bound cfg) s"
  by (induction rule: node_reach.induct) (auto intro: rtranclp.rtrancl_into_rtrancl)

lemma node_reach_permits:
  "node_reach cfg s \<Longrightarrow> permits s + length (tasks s) = max (max_in_flight cfg) 1"
  using node_sys.steps_quantity [OF node_reach_steps] by (simp add: node_bound_def)

section \<open>Conservation over interleavings\<close>

lemma remote_send_cases:
  obtains (waits) "remote_send r m ws = None" "ref_writer r < length ws" "\<not> w_done (ws ! ref_writer r)"
      "w_capacity (ws ! ref_writer r) \<le> length (w_queue (ws ! ref_writer r))"
    | (gone) "remote_send r m ws = Some (Inl channel_closed_error, ws)" "length ws \<le> ref_writer r \<or> w_done (ws ! ref_writer r)"
    | (sent) "remote_send r m ws
        = Some (Inr (), ws[ref_writer r := (ws ! ref_writer r)\<lparr>w_queue := w_queue (ws ! ref_writer r) @ [m]\<rparr>])"
      "ref_writer r < length ws" "\<not> w_done (ws ! ref_writer r)"
      "length (w_queue (ws ! ref_writer r)) < w_capacity (ws ! ref_writer r)"
  by (cases "length ws \<le> ref_writer r \<or> w_done (ws ! ref_writer r)"; cases "length (w_queue (ws ! ref_writer r)) < w_capacity (ws ! ref_writer r)")
    (auto simp: remote_send_def not_less)

lemma net_act_length [simp]: "length (net_act c ws a) = length ws"
proof (cases a)
  case (Offer r m)
  then show ?thesis by (cases rule: remote_send_cases [where r = r and m = m and ws = ws]) auto
qed simp

lemma net_run_length [simp]: "length (net_run c ws acts) = length ws"
  by (induction acts arbitrary: ws) auto








section \<open>Properties\<close>


definition demo_writers :: "u8 writers" where
  "demo_writers = snd (RemoteActorRef_new ''h:1'' ''w'' [])"




text \<open>C22. End to end over one healthy connection: the write loop drains its queue in two turns per
  message (one takes it, one writes it), and the peer's \<open>handle_conn\<close> dispatches exactly these messages,
  to the reference's target, in the order they were sent.\<close>

theorem remote_delivery_in_order:
  assumes "codec_ok c" and "max_frame_bytes cfg = max_frame_bytes (w_config w)"
    and "\<forall>m \<in> set (w_queue w). sendable c (max_frame_bytes cfg) (w_target w, m)"
    and "w_conn w = Some stream" and "accepts stream = None" and "written stream = []" and "\<not> w_done w" and "w_hand w = None"
  shows "\<exists>stream'. w_conn (remote_write_loop c w (replicate (2 * length (w_queue w)) Pump)) = Some stream'
    \<and> unwritten (remote_write_loop c w (replicate (2 * length (w_queue w)) Pump)) = []
    \<and> handle_conn c cfg \<lparr>bytes = written stream', tail = Eof\<rparr>
        = (map (\<lambda>m. (w_target w, m)) (w_queue w), Inr ())"
proof -
  let ?ds = "map (\<lambda>m. (w_target w, m)) (w_queue w)"
  obtain stream' where s: "remote_write_loop c w (replicate (2 * length (w_queue w)) Pump) = w\<lparr>w_queue := [], w_conn := Some stream'\<rparr>"
    "written stream' = concat (map (wire c) ?ds)"
    using pump_drains [of w c stream] assms by (auto simp: comp_def)
  have "\<forall>d \<in> set ?ds. sendable c (max_frame_bytes cfg) d" using assms(3) by auto
  then have "handle_conn c cfg \<lparr>bytes = written stream', tail = Eof\<rparr> = (?ds, Inr ())"
    unfolding s(2) by (rule handle_conn_all [OF assms(1)])
  with s(1) assms(8) show ?thesis by (simp add: unwritten_def)
qed

theorem remote_delivery_in_order_witness:
  "\<exists>stream' :: outstream. handle_conn demo_codec DistributedConfig_default \<lparr>bytes = written stream', tail = Eof\<rparr>
    = ([(''w'', 7), (''w'', 9)], Inr ())"
proof -
  let ?w = "(demo_writers ! 0)\<lparr>w_queue := [7, 9], w_conn := Some fresh_out\<rparr>"
  have send: "\<forall>m \<in> set (w_queue ?w). sendable demo_codec (max_frame_bytes DistributedConfig_default) (w_target ?w, m)"
    by (simp add: sendable_def demo_codec_def DistributedConfig_default_def demo_writers_def
      RemoteActorRef_new_def with_config_def)
  have cfg: "max_frame_bytes DistributedConfig_default = max_frame_bytes (w_config ?w)"
    and conn: "w_conn ?w = Some fresh_out" "accepts fresh_out = None" "written fresh_out = []"
    and run: "\<not> w_done ?w" "w_hand ?w = None" and ds: "map (\<lambda>m. (w_target ?w, m)) (w_queue ?w) = [(''w'', 7), (''w'', 9)]"
    by (simp_all add: fresh_out_def demo_writers_def RemoteActorRef_new_def with_config_def)
  from remote_delivery_in_order [OF demo_codec_ok cfg send conn run] obtain stream' :: outstream
    where "handle_conn demo_codec DistributedConfig_default \<lparr>bytes = written stream', tail = Eof\<rparr>
      = (map (\<lambda>m. (w_target ?w, m)) (w_queue ?w), Inr ())" by blast
  then show ?thesis unfolding ds by blast
qed

text \<open>C24. In every reachable state of a node the number of dispatch tasks in flight and the free
  permits add up to \<open>max(max_in_flight, 1)\<close>: the load limit is never exceeded, no permit leaks,
  and a new frame is admitted exactly while the limit is not reached.\<close>

theorem in_flight_bounded:
  assumes "node_reach cfg s"
  shows "length (tasks s) + permits s = max (max_in_flight cfg) 1
    \<and> length (tasks s) \<le> max (max_in_flight cfg) 1
    \<and> (0 < permits s \<longleftrightarrow> length (tasks s) < max (max_in_flight cfg) 1)"
  using node_reach_permits [OF assms] by auto

theorem in_flight_bounded_witness:
  "length (tasks ((node_bound DistributedConfig_default :: u8 NodeState)
     \<lparr>permits := 31, tasks := [Lookup ''w'' 7]\<rparr>)) \<le> 32"
proof -
  let ?s = "node_bound DistributedConfig_default :: u8 NodeState"
  have "node_step ?s (?s\<lparr>permits := permits ?s - 1, tasks := tasks ?s @ [Lookup ''w'' 7]\<rparr>)"
    by (rule node_step.spawn_dispatch) (simp add: node_bound_def DistributedConfig_default_def)
  then have "node_reach DistributedConfig_default
      (?s\<lparr>permits := permits ?s - 1, tasks := tasks ?s @ [Lookup ''w'' 7]\<rparr>)"
    by (rule node_reach.step [OF node_reach.bound])
  from in_flight_bounded [OF this] show ?thesis
    by (simp add: node_bound_def DistributedConfig_default_def)
qed

text \<open>Frames of one connection may be delivered out of order: from the state in which two
  frames for the same target were spawned in the order \<open>m1\<close>, \<open>m2\<close>, the node can deliver \<open>m2\<close>
  before \<open>m1\<close>, because every frame is dispatched by a task of its own.\<close>

theorem dispatch_may_reorder:
  fixes m1 m2 :: 'm
  defines "st \<equiv> \<lambda>p ts q. \<lparr>dispatch = [(''w'', 0 :: nat)], permits = p, tasks = ts,
      channels = (\<lambda>_. no_chan)(0 := \<lparr>cap = 2, queue = q, rx_open = True\<rparr>), dropped = []\<rparr> :: 'm NodeState"
  shows "node_step\<^sup>*\<^sup>* (st 30 [Lookup ''w'' m1, Lookup ''w'' m2] []) (st 32 [] [m2, m1])"
proof -
  have 1: "node_step (st 30 [Lookup ''w'' m1, Lookup ''w'' m2] []) (st 30 [Lookup ''w'' m1, Send 0 m2] [])"
    using node_step.lookup_found [of 1 "st 30 [Lookup ''w'' m1, Lookup ''w'' m2] []" "''w''" m2 0]
    by (simp add: st_def hm_get_def)
  have 2: "node_step (st 30 [Lookup ''w'' m1, Send 0 m2] []) (st 31 [Lookup ''w'' m1] [m2])"
    using node_step.send_ok [of 1 "st 30 [Lookup ''w'' m1, Send 0 m2] []" 0 m2]
    by (simp add: st_def remove_task_def chan_send_def)
  have 3: "node_step (st 31 [Lookup ''w'' m1] [m2]) (st 31 [Send 0 m1] [m2])"
    using node_step.lookup_found [of 0 "st 31 [Lookup ''w'' m1] [m2]" "''w''" m1 0]
    by (simp add: st_def hm_get_def)
  have 4: "node_step (st 31 [Send 0 m1] [m2]) (st 32 [] [m2, m1])"
    using node_step.send_ok [of 0 "st 31 [Send 0 m1] [m2]" 0 m1]
    by (simp add: st_def remove_task_def chan_send_def)
  show ?thesis
    by (rule converse_rtranclp_into_rtranclp [of node_step, OF 1], rule converse_rtranclp_into_rtranclp [of node_step, OF 2],
        rule converse_rtranclp_into_rtranclp [of node_step, OF 3], rule r_into_rtranclp [of node_step, OF 4])
qed

end
