(* ===== verification/Cluster.thy ===== *)
theory Cluster
  imports Hash_Ring Remote
begin

text \<open>
  The roster of \<open>src/distributed.rs\<close>: \<open>ClusterMember\<close> and \<open>Cluster\<close>, with the parallel vectors of
  members and references, the index by name and the hash ring. \<open>join\<close> may panic on a malformed
  address, \<open>swap_remove\<close> and the indexing of \<open>refs\<close> may panic out of range: these are outcomes of
  the model, and the invariant \<open>cluster_wf\<close> excludes the index panics. Dropping a reference ends
  its writer; the writers are a store of their own, so a removed reference leaves the store alone.
\<close>

section \<open>Members\<close>

record ClusterMember =
  name :: string
  node_addr :: string
  member_target :: string

definition ClusterMember_new :: "string \<Rightarrow> string \<Rightarrow> string \<Rightarrow> ClusterMember" where
  "ClusterMember_new n a t = \<lparr>name = n, node_addr = a, member_target = t\<rparr>"

definition remote_ref :: "ClusterMember \<Rightarrow> 'm writers \<Rightarrow> RemoteActorRef \<times> 'm writers" where
  "remote_ref m ws = RemoteActorRef_new (node_addr m) (member_target m) ws"

definition remote_ref_with ::
  "ClusterMember \<Rightarrow> DistributedConfig \<Rightarrow> tls_handle option \<Rightarrow> 'm writers
     \<Rightarrow> RemoteActorRef \<times> 'm writers" where
  "remote_ref_with m cfg tls ws = with_config (node_addr m) (member_target m) cfg tls ws"

definition ring_node :: "ClusterMember \<Rightarrow> RingNode outcome" where
  "ring_node m = from_socket_addr (name m) (node_addr m)"

section \<open>The cluster\<close>

record Cluster =
  members :: "ClusterMember list"
  refs :: "RemoteActorRef list"
  refs_by_id :: "(string, nat) hashmap"
  cluster_ring :: HashRing
  next_counter :: usize
  distributed_config :: DistributedConfig
  tls :: "tls_handle option"

definition with_virtual_nodes :: "u32 \<Rightarrow> Cluster" where
  "with_virtual_nodes vn =
     \<lparr>members = [], refs = [], refs_by_id = [], cluster_ring = ring_new vn, next_counter = 0,
      distributed_config = DistributedConfig_default, tls = None\<rparr>"

definition Cluster_new :: Cluster where
  "Cluster_new = with_virtual_nodes 150"

definition Cluster_default :: Cluster where
  "Cluster_default = Cluster_new"

definition set_tls_connector :: "tls_handle option \<Rightarrow> Cluster \<Rightarrow> Cluster" where
  "set_tls_connector t cl = cl\<lparr>tls := t\<rparr>"

definition tls_connector :: "Cluster \<Rightarrow> tls_handle option" where
  "tls_connector cl = tls cl"

definition set_distributed_config :: "DistributedConfig \<Rightarrow> Cluster \<Rightarrow> Cluster" where
  "set_distributed_config cfg cl = cl\<lparr>distributed_config := cfg\<rparr>"

definition cluster_len :: "Cluster \<Rightarrow> nat" where
  "cluster_len cl = length (refs cl)"

definition cluster_is_empty :: "Cluster \<Rightarrow> bool" where
  "cluster_is_empty cl \<longleftrightarrow> refs cl = []"

definition join ::
  "murmur \<Rightarrow> ClusterMember \<Rightarrow> Cluster \<Rightarrow> 'm writers \<Rightarrow> (Cluster \<times> 'm writers) outcome" where
  "join mur m cl ws =
     (let idx = length (refs cl) in
      case ring_node m of
        Panics e \<Rightarrow> Panics e
      | Returns n \<Rightarrow>
          (let cl1 = cl\<lparr>cluster_ring := add_node mur n (cluster_ring cl),
                        refs_by_id := hm_insert (name m) idx (refs_by_id cl)\<rparr>;
               (r, ws') = remote_ref_with m (distributed_config cl) (tls cl) ws
           in Returns (cl1\<lparr>refs := refs cl1 @ [r], members := members cl1 @ [m]\<rparr>, ws')))"

text \<open>\<open>leave\<close>: the two early returns keep what was changed before them.\<close>

definition leave :: "murmur \<Rightarrow> string \<Rightarrow> Cluster \<Rightarrow> (ClusterMember option \<times> Cluster) outcome" where
  "leave mur node_id cl =
     (case remove_node mur node_id (cluster_ring cl) of
        (None, ring') \<Rightarrow> Returns (None, cl\<lparr>cluster_ring := ring'\<rparr>)
      | (Some _, ring') \<Rightarrow>
          (case hm_get (refs_by_id cl) node_id of
             None \<Rightarrow> Returns (None, cl\<lparr>cluster_ring := ring'\<rparr>)
           | Some idx \<Rightarrow>
               (case (vec_swap_remove idx (refs cl), vec_swap_remove idx (members cl)) of
                  (Some (_, refs'), Some (member, members')) \<Rightarrow>
                    (let by_id = hm_remove node_id (refs_by_id cl);
                         by_id' = (if idx < length members'
                                   then hm_insert (name (members' ! idx)) idx by_id else by_id)
                     in Returns (Some member,
                          cl\<lparr>cluster_ring := ring', refs := refs', members := members',
                             refs_by_id := by_id'\<rparr>))
                | _ \<Rightarrow> Panics ''swap_remove index out of bounds'')))"

definition member_for_key ::
  "murmur \<Rightarrow> (Murmur3Hasher \<Rightarrow> Murmur3Hasher) \<Rightarrow> Cluster \<Rightarrow> ClusterMember option" where
  "member_for_key mur key cl =
     (case get_node mur key (cluster_ring cl) of
        None \<Rightarrow> None
      | Some n \<Rightarrow> List.find (\<lambda>m. name m = nid n) (members cl))"

text \<open>\<open>&self.refs[i]\<close>: a panic out of range.\<close>

definition ref_at :: "Cluster \<Rightarrow> nat \<Rightarrow> RemoteActorRef outcome" where
  "ref_at cl i = (if i < length (refs cl) then Returns (refs cl ! i) else Panics ''index out of bounds'')"

definition ref_by_name :: "string \<Rightarrow> Cluster \<Rightarrow> RemoteActorRef option outcome" where
  "ref_by_name n cl =
     (case hm_get (refs_by_id cl) n of
        None \<Rightarrow> Returns None
      | Some i \<Rightarrow> (case ref_at cl i of Panics e \<Rightarrow> Panics e | Returns r \<Rightarrow> Returns (Some r)))"

definition ref_for_key ::
  "murmur \<Rightarrow> (Murmur3Hasher \<Rightarrow> Murmur3Hasher) \<Rightarrow> Cluster \<Rightarrow> RemoteActorRef option outcome" where
  "ref_for_key mur key cl =
     (case get_node mur key (cluster_ring cl) of
        None \<Rightarrow> Returns None
      | Some n \<Rightarrow> ref_by_name (nid n) cl)"

definition no_members :: io_error where
  "no_members = IoError NotConnected ''cluster has no members''"

definition send_by_key ::
  "murmur \<Rightarrow> (Murmur3Hasher \<Rightarrow> Murmur3Hasher) \<Rightarrow> 'm \<Rightarrow> Cluster \<Rightarrow> 'm writers
     \<Rightarrow> (unit io_result \<times> 'm writers) option outcome" where
  "send_by_key mur key m cl ws =
     (case ref_for_key mur key cl of
        Panics e \<Rightarrow> Panics e
      | Returns (Some r) \<Rightarrow> Returns (remote_send r m ws)
      | Returns None \<Rightarrow> Returns (Some (Inl no_members, ws)))"

text \<open>\<open>next\<close>: the index of the reference and the advanced counter (\<open>fetch_add\<close> wraps).\<close>

definition next_ref :: "Cluster \<Rightarrow> nat io_result \<times> Cluster" where
  "next_ref cl =
     (if refs cl = [] then (Inl no_members, cl)
      else (Inr (unat (next_counter cl mod of_nat (length (refs cl)))), cl\<lparr>next_counter := next_counter cl + 1\<rparr>))"

definition send_round_robin ::
  "'m \<Rightarrow> Cluster \<Rightarrow> 'm writers \<Rightarrow> ((unit io_result \<times> 'm writers) option \<times> Cluster) outcome" where
  "send_round_robin m cl ws =
     (case next_ref cl of
        (Inl e, cl') \<Rightarrow> Returns (Some (Inl e, ws), cl')
      | (Inr i, cl') \<Rightarrow>
          (case ref_at cl' i of
             Panics e \<Rightarrow> Panics e
           | Returns r \<Rightarrow> Returns (remote_send r m ws, cl')))"

text \<open>The loops that send one message to several references, one after the other. A send that finds the
  queue of its writer full stops the loop there until there is room: the results so far, the references
  not sent to, the first of which is being waited for, and the writers. The loop goes on as the same
  function on those left.\<close>

fun send_each ::
  "'m \<Rightarrow> (string \<times> RemoteActorRef) list \<Rightarrow> 'm writers
     \<Rightarrow> (string \<times> unit io_result) list \<times> (string \<times> RemoteActorRef) list \<times> 'm writers" where
  "send_each m [] ws = ([], [], ws)"
| "send_each m ((n, r) # rs) ws =
     (case remote_send r m ws of
        None \<Rightarrow> ([], (n, r) # rs, ws)
      | Some (res, ws1) \<Rightarrow> (let (out, left, ws2) = send_each m rs ws1 in ((n, res) # out, left, ws2)))"

definition send_all ::
  "'m \<Rightarrow> Cluster \<Rightarrow> 'm writers
     \<Rightarrow> (string \<times> unit io_result) list \<times> (string \<times> RemoteActorRef) list \<times> 'm writers" where
  "send_all m cl ws = send_each m (zip (map name (members cl)) (refs cl)) ws"

text \<open>\<open>first_err.get_or_insert(e)\<close> over the results.\<close>

fun first_error :: "(string \<times> unit io_result) list \<Rightarrow> io_error option" where
  "first_error [] = None"
| "first_error ((_, Inl e) # rs) = Some e"
| "first_error ((_, Inr _) # rs) = first_error rs"

text \<open>\<open>broadcast\<close>: no result while \<open>send_all\<close> waits.\<close>

definition broadcast :: "'m \<Rightarrow> Cluster \<Rightarrow> 'm writers \<Rightarrow> unit io_result option \<times> 'm writers" where
  "broadcast m cl ws =
     (case send_all m cl ws of
        (rs, [], ws') \<Rightarrow> (Some (case first_error rs of Some e \<Rightarrow> Inl e | None \<Rightarrow> Inr ()), ws')
      | (rs, _ # _, ws') \<Rightarrow> (None, ws'))"

fun send_named ::
  "'m \<Rightarrow> string list \<Rightarrow> Cluster \<Rightarrow> 'm writers
     \<Rightarrow> ((string \<times> unit io_result) list \<times> string list \<times> 'm writers) outcome" where
  "send_named m [] cl ws = Returns ([], [], ws)"
| "send_named m (n # ns) cl ws =
     (case ref_by_name n cl of
        Panics e \<Rightarrow> Panics e
      | Returns None \<Rightarrow> send_named m ns cl ws
      | Returns (Some r) \<Rightarrow>
          (case remote_send r m ws of
             None \<Rightarrow> Returns ([], n # ns, ws)
           | Some (res, ws1) \<Rightarrow>
               (case send_named m ns cl ws1 of
                  Panics e \<Rightarrow> Panics e
                | Returns (out, left, ws2) \<Rightarrow> Returns ((n, res) # out, left, ws2))))"

definition send_to ::
  "string list \<Rightarrow> 'm \<Rightarrow> Cluster \<Rightarrow> 'm writers
     \<Rightarrow> ((string \<times> unit io_result) list \<times> string list \<times> 'm writers) outcome" where
  "send_to names m cl ws = send_named m names cl ws"

definition send_replicas ::
  "murmur \<Rightarrow> (Murmur3Hasher \<Rightarrow> Murmur3Hasher) \<Rightarrow> nat \<Rightarrow> 'm \<Rightarrow> Cluster \<Rightarrow> 'm writers
     \<Rightarrow> ((string \<times> unit io_result) list \<times> string list \<times> 'm writers) outcome" where
  "send_replicas mur key count m cl ws =
     send_named m (map nid (get_nodes mur key count (cluster_ring cl))) cl ws"

section \<open>The invariant\<close>

text \<open>The index maps the name at every position to that position, and nothing else.\<close>

definition index_ok :: "string list \<Rightarrow> (string, nat) hashmap \<Rightarrow> bool" where
  "index_ok ns ix \<longleftrightarrow>
     hm_inv ix \<and> (\<forall>n i. hm_get ix n = Some i \<longleftrightarrow> i < length ns \<and> ns ! i = n)"

definition cluster_wf :: "murmur \<Rightarrow> Cluster \<Rightarrow> bool" where
  "cluster_wf mur cl \<longleftrightarrow>
     map (\<lambda>r. (ref_addr r, ref_target r)) (refs cl)
       = map (\<lambda>m. (node_addr m, member_target m)) (members cl) \<and>
     index_ok (map name (members cl)) (refs_by_id cl) \<and>
     ring_wf mur (cluster_ring cl) \<and>
     dom (hm_get (nodes (cluster_ring cl))) = name ` set (members cl)"

text \<open>Every reference of the roster has a writer of its own, for its own address and target.\<close>

definition refs_ok :: "Cluster \<Rightarrow> 'm writers \<Rightarrow> bool" where
  "refs_ok cl ws \<longleftrightarrow>
     distinct (map ref_writer (refs cl)) \<and>
     (\<forall>r \<in> set (refs cl). ref_writer r < length ws
        \<and> w_addr (ws ! ref_writer r) = ref_addr r \<and> w_target (ws ! ref_writer r) = ref_target r)"

text \<open>The clusters a program can build when it joins each name once at a time.\<close>

inductive cluster_reach :: "murmur \<Rightarrow> ('m, 'j) codec \<Rightarrow> Cluster \<Rightarrow> 'm writers \<Rightarrow> bool" for mur c where
  new: "cluster_reach mur c (with_virtual_nodes vn) ws"
| join: "cluster_reach mur c cl ws \<Longrightarrow> name m \<notin> name ` set (members cl) \<Longrightarrow>
     join mur m cl ws = Returns (cl', ws') \<Longrightarrow> cluster_reach mur c cl' ws'"
| leave: "cluster_reach mur c cl ws \<Longrightarrow> leave mur i cl = Returns (x, cl') \<Longrightarrow> cluster_reach mur c cl' ws"
| send_next: "cluster_reach mur c cl ws \<Longrightarrow> next_ref cl = (x, cl') \<Longrightarrow> cluster_reach mur c cl' ws"
| remote: "cluster_reach mur c cl ws \<Longrightarrow> cluster_reach mur c cl (net_act c ws a)"

text \<open>The reference indices chosen by \<open>k\<close> consecutive calls of \<open>next\<close>.\<close>

fun take_next :: "nat \<Rightarrow> Cluster \<Rightarrow> nat list" where
  "take_next 0 cl = []"
| "take_next (Suc k) cl =
     (case next_ref cl of (Inr i, cl') \<Rightarrow> i # take_next k cl' | (Inl _, _) \<Rightarrow> [])"

lemma index_okD:
  assumes "index_ok ns ix"
  shows "hm_inv ix" and "hm_get ix n = Some i \<longleftrightarrow> i < length ns \<and> ns ! i = n" and "distinct ns"
  using assms unfolding index_ok_def distinct_conv_nth by (blast, blast, metis option.inject)

lemma index_ok_None: "index_ok ns ix \<Longrightarrow> hm_get ix n = None \<longleftrightarrow> n \<notin> set ns"
  using index_okD(2) [of ns ix n] by (metis in_set_conv_nth not_Some_eq)

lemma index_ok_empty: "index_ok [] []"
  by (simp add: index_ok_def hm.inv_empty hm.get_empty)

lemma index_ok_snoc:
  assumes "index_ok ns ix" and "n \<notin> set ns"
  shows "index_ok (ns @ [n]) (hm_insert n (length ns) ix)"
  using assms unfolding index_ok_def
  by (auto simp: hm.inv_insert hm.get_insert nth_append less_Suc_eq split: if_splits)

lemma nth_swap_remove:
  "j < length xs - 1 \<Longrightarrow> i < length xs \<Longrightarrow>
   butlast (xs[i := last xs]) ! j = (if j = i then xs ! (length xs - 1) else xs ! j)"
  by (subgoal_tac "xs \<noteq> []") (auto simp: nth_butlast nth_list_update last_conv_nth)

lemma index_ok_swap_remove:
  assumes ok: "index_ok ns ix" and i: "hm_get ix n = Some i"
    and ns': "ns' = butlast (ns[i := last ns])"
    and ix': "ix' = (if i < length ns' then hm_insert (ns' ! i) i (hm_remove n ix) else hm_remove n ix)"
  shows "index_ok ns' ix'"
proof -
  note inv = index_okD(1) [OF ok] and get = index_okD(2) [OF ok] and dist = index_okD(3) [OF ok]
  have il: "i < length ns" "ns ! i = n" using get i by auto
  have len: "length ns' = length ns - 1" by (simp add: ns')
  have nth: "j < length ns - 1 \<Longrightarrow> ns' ! j = (if j = i then ns ! (length ns - 1) else ns ! j)" for j
    unfolding ns' using il(1) by (rule nth_swap_remove [rotated])
  have neq: "j < length ns \<Longrightarrow> k < length ns \<Longrightarrow> ns ! j = ns ! k \<longleftrightarrow> j = k" for j k
    using dist by (simp add: nth_eq_iff_index_eq)
  let ?L = "length ns - 1"
  have L: "?L < length ns" using il(1) by simp
  have old: "hm_get ix m = Some j \<longleftrightarrow> j < ?L \<and> ns ! j = m" if "m \<noteq> ns ! ?L" for m j
    using that get [of m j] by (metis L Suc_pred' less_Suc_eq less_trans not_gr_zero)
  have "hm_get ix' m = Some j \<longleftrightarrow> j < length ns' \<and> ns' ! j = m" for m j
  proof (cases "i = ?L")
    case True
    then have g: "hm_get ix' m = (if m = ns ! ?L then None else hm_get ix m)"
      using inv len il(2) by (simp add: ix' hm.get_remove)
    have n: "j < ?L \<Longrightarrow> ns' ! j = ns ! j" using nth [of j] True by simp
    have nL: "j < ?L \<Longrightarrow> ns ! j \<noteq> ns ! ?L" using neq [OF _ L, of j] by simp
    show ?thesis
    proof (cases "m = ns ! ?L")
      case True
      with g have "hm_get ix' m = None" by simp
      with True len n nL show ?thesis by auto
    next
      case False
      with g have "hm_get ix' m = hm_get ix m" by simp
      with old [OF False] len n show ?thesis by metis
    qed
  next
    case False
    then have iL: "i < ?L" using il(1) by simp
    then have g: "hm_get ix' m = (if m = ns ! ?L then Some i else if m = n then None else hm_get ix m)"
      using inv len nth [of i] by (simp add: ix' hm.get_insert hm.get_remove hm.inv_remove)
    have nL: "n \<noteq> ns ! ?L" using iL il L neq [of i ?L] by auto
    have at_i: "ns' ! i = ns ! ?L" using nth [OF iL] by simp
    have at_j: "j < ?L \<Longrightarrow> j \<noteq> i \<Longrightarrow> ns' ! j = ns ! j" using nth [of j] by simp
    have jL: "j < ?L \<Longrightarrow> ns ! j \<noteq> ns ! ?L" using neq [OF _ L, of j] by simp
    have ji: "j < ?L \<Longrightarrow> j \<noteq> i \<Longrightarrow> ns ! j \<noteq> n" using neq [OF _ il(1), of j] il(2) by simp
    consider (last) "m = ns ! ?L" | (gone) "m = n" | (other) "m \<noteq> ns ! ?L" "m \<noteq> n" by blast
    then show ?thesis
    proof cases
      case last
      with g have "hm_get ix' m = Some j \<longleftrightarrow> j = i" by auto
      with last show ?thesis unfolding len using iL at_i at_j jL by metis
    next
      case gone
      with g nL have "hm_get ix' m \<noteq> Some j" by simp
      with gone show ?thesis unfolding len using at_i at_j ji nL by metis
    next
      case other
      with g have "hm_get ix' m = hm_get ix m" by simp
      with other old [OF other(1), of j] show ?thesis unfolding len using il(2) at_i at_j by metis
    qed
  qed
  moreover have "hm_inv ix'" using inv by (simp add: ix' hm.inv_insert hm.inv_remove)
  ultimately show ?thesis by (simp add: index_ok_def)
qed

section \<open>Operations keep the invariant\<close>

lemma cluster_wfD:
  assumes "cluster_wf mur cl"
  shows "length (refs cl) = length (members cl)"
    and "index_ok (map name (members cl)) (refs_by_id cl)"
    and "ring_wf mur (cluster_ring cl)"
    and "dom (hm_get (nodes (cluster_ring cl))) = name ` set (members cl)"
    and "i < length (members cl) \<Longrightarrow>
      ref_addr (refs cl ! i) = node_addr (members cl ! i) \<and> ref_target (refs cl ! i) = member_target (members cl ! i)"
proof -
  have eq: "map (\<lambda>r. (ref_addr r, ref_target r)) (refs cl)
      = map (\<lambda>m. (node_addr m, member_target m)) (members cl)"
    using assms by (simp add: cluster_wf_def)
  then show len: "length (refs cl) = length (members cl)" by (metis length_map)
  assume "i < length (members cl)"
  then show "ref_addr (refs cl ! i) = node_addr (members cl ! i)
      \<and> ref_target (refs cl ! i) = member_target (members cl ! i)"
    using arg_cong [OF eq, of "\<lambda>xs. xs ! i"] len by simp
qed (use assms in \<open>simp_all add: cluster_wf_def\<close>)

lemma cluster_wf_new: "cluster_wf mur (with_virtual_nodes vn)"
  by (simp add: cluster_wf_def with_virtual_nodes_def index_ok_empty ring_wf_new)
    (simp add: ring_new_def hm.get_empty)

lemma ring_node_nid: "ring_node m = Returns n \<Longrightarrow> nid n = name m"
  by (auto simp: ring_node_def from_socket_addr_def try_from_socket_addr_def
    split: sum.splits prod.splits)

lemma join_Returns:
  assumes "join mur m cl ws = Returns (cl', ws')"
  obtains n where "ring_node m = Returns n" "nid n = name m"
    "members cl' = members cl @ [m]"
    "refs cl' = refs cl @ [\<lparr>ref_addr = node_addr m, ref_target = member_target m, ref_writer = length ws\<rparr>]"
    "refs_by_id cl' = hm_insert (name m) (length (refs cl)) (refs_by_id cl)"
    "cluster_ring cl' = add_node mur n (cluster_ring cl)"
    "ws' = snd (with_config (node_addr m) (member_target m) (distributed_config cl) (tls cl) ws)"
    "next_counter cl' = next_counter cl"
  using assms ring_node_nid [of m]
  by (auto simp: join_def Let_def remote_ref_with_def with_config_def split: outcome.splits)

lemma cluster_wf_join:
  assumes wf: "cluster_wf mur cl" and new: "name m \<notin> name ` set (members cl)"
    and j: "join mur m cl ws = Returns (cl', ws')"
  shows "cluster_wf mur cl'"
proof -
  from j obtain n where n: "ring_node m = Returns n" "nid n = name m"
    "members cl' = members cl @ [m]"
    "refs cl' = refs cl @ [\<lparr>ref_addr = node_addr m, ref_target = member_target m, ref_writer = length ws\<rparr>]"
    "refs_by_id cl' = hm_insert (name m) (length (refs cl)) (refs_by_id cl)"
    "cluster_ring cl' = add_node mur n (cluster_ring cl)" by (rule join_Returns)
  have "index_ok (map name (members cl) @ [name m])
      (hm_insert (name m) (length (map name (members cl))) (refs_by_id cl))"
    by (rule index_ok_snoc [OF cluster_wfD(2) [OF wf]]) (use new in auto)
  moreover have "map (\<lambda>r. (ref_addr r, ref_target r)) (refs cl)
      = map (\<lambda>m. (node_addr m, member_target m)) (members cl)"
    using wf by (simp add: cluster_wf_def)
  ultimately show ?thesis
    using cluster_wfD [OF wf] ring_wfD(1) [OF cluster_wfD(3) [OF wf]]
    by (simp add: cluster_wf_def n ring_wf_add hm.get_insert)
qed

lemma vec_swap_remove_map:
  "vec_swap_remove i (map f xs) = map_option (\<lambda>(x, ys). (f x, map f ys)) (vec_swap_remove i xs)"
  by (cases "xs = []") (auto simp: vec_swap_remove_def map_butlast map_update last_map)

lemma swap_remove_set:
  assumes "distinct xs" and "i < length xs"
  shows "set (butlast (xs[i := last xs])) = set xs - {xs ! i}"
proof -
  let ?L = "length xs - 1" and ?ys = "butlast (xs[i := last xs])"
  have neq: "j < length xs \<Longrightarrow> k < length xs \<Longrightarrow> xs ! j = xs ! k \<longleftrightarrow> j = k" for j k
    using assms(1) by (simp add: nth_eq_iff_index_eq)
  have nth: "j < ?L \<Longrightarrow> ?ys ! j = (if j = i then xs ! ?L else xs ! j)" for j
    using assms(2) by (rule nth_swap_remove [rotated])
  show ?thesis
  proof (intro equalityI subsetI)
    fix x assume "x \<in> set ?ys"
    then obtain j where j: "j < ?L" "x = ?ys ! j" by (auto simp: in_set_conv_nth)
    then have "x = xs ! (if j = i then ?L else j)" using nth [of j] by simp
    moreover have "(if j = i then ?L else j) < length xs" "(if j = i then ?L else j) \<noteq> i" using j by auto
    ultimately show "x \<in> set xs - {xs ! i}" using neq assms(2) by auto
  next
    fix x assume x: "x \<in> set xs - {xs ! i}"
    then obtain j where j: "j < length xs" "x = xs ! j" "j \<noteq> i" by (auto simp: in_set_conv_nth)
    show "x \<in> set ?ys"
    proof (cases "j = ?L")
      case True
      then have "i < ?L" using j(3) assms(2) by simp
      then have "?ys ! i = x" using nth [of i] j(2) True by simp
      then show ?thesis using \<open>i < ?L\<close> by (metis length_butlast length_list_update nth_mem)
    next
      case False
      then have "j < ?L" using j(1) by simp
      then have "?ys ! j = x" using nth [of j] j by simp
      then show ?thesis using \<open>j < ?L\<close> by (metis length_butlast length_list_update nth_mem)
    qed
  qed
qed

lemma leave_cases:
  assumes wf: "cluster_wf mur cl"
  obtains (absent) "i \<notin> name ` set (members cl)" "leave mur i cl = Returns (None, cl)"
  | (present) k cl' where "k < length (members cl)" "name (members cl ! k) = i"
      "leave mur i cl = Returns (Some (members cl ! k), cl')"
      "members cl' = butlast ((members cl)[k := last (members cl)])"
      "refs cl' = butlast ((refs cl)[k := last (refs cl)])"
      "cluster_ring cl' = snd (remove_node mur i (cluster_ring cl))"
      "cluster_wf mur cl'" "next_counter cl' = next_counter cl"
proof (cases "hm_get (nodes (cluster_ring cl)) i")
  case None
  then have "i \<notin> name ` set (members cl)" using cluster_wfD(4) [OF wf] by auto
  then show ?thesis using absent None by (simp add: leave_def remove_node_None)
next
  case (Some n)
  note ix = cluster_wfD(2) [OF wf] and len = cluster_wfD(1) [OF wf] and rwf = cluster_wfD(3) [OF wf]
  obtain x ring' where rm: "remove_node mur i (cluster_ring cl) = (x, ring')" by fastforce
  note r' = remove_node_Some [OF Some ring_wfD(2) [OF rwf] rm]
  from Some cluster_wfD(4) [OF wf] have "i \<in> set (map name (members cl))" by auto
  then obtain k where k: "hm_get (refs_by_id cl) i = Some k"
    using index_ok_None [OF ix] by (metis not_None_eq)
  then have kl: "k < length (members cl)" "name (members cl ! k) = i"
    using index_okD(2) [OF ix, of i k] by auto
  let ?ms = "butlast ((members cl)[k := last (members cl)])"
  let ?rs = "butlast ((refs cl)[k := last (refs cl)])"
  let ?ix = "if k < length ?ms then hm_insert (name (?ms ! k)) k (hm_remove i (refs_by_id cl))
             else hm_remove i (refs_by_id cl)"
  let ?cl = "cl\<lparr>cluster_ring := ring', refs := ?rs, members := ?ms, refs_by_id := ?ix\<rparr>"
  have names: "map name ?ms = butlast ((map name (members cl))[k := last (map name (members cl))])"
    using kl by (cases "members cl = []") (auto simp: map_butlast map_update last_map)
  have "index_ok (map name ?ms) ?ix"
    by (rule index_ok_swap_remove [OF ix k names]) simp
  moreover have "map (\<lambda>r. (ref_addr r, ref_target r)) ?rs = map (\<lambda>m. (node_addr m, member_target m)) ?ms"
    using wf vec_swap_remove_map [of k "\<lambda>r. (ref_addr r, ref_target r)" "refs cl"]
      vec_swap_remove_map [of k "\<lambda>m. (node_addr m, member_target m)" "members cl"] kl(1) len
    by (simp add: cluster_wf_def vec_swap_remove_def)
  moreover have "dom (hm_get (nodes ring')) = name ` set ?ms"
  proof -
    have "name ` set ?ms = set (map name (members cl)) - {map name (members cl) ! k}"
      using swap_remove_set [OF index_okD(3) [OF ix], of k] kl(1) names by (metis length_map list.set_map)
    also have "\<dots> = dom (hm_get (nodes (cluster_ring cl))) - {i}"
      using kl cluster_wfD(4) [OF wf] by simp
    finally show ?thesis
      using ring_wfD(1) [OF rwf] by (auto simp: r'(2) hm.get_remove)
  qed
  ultimately have "cluster_wf mur ?cl"
    using ring_wf_remove [OF rwf rm] by (simp add: cluster_wf_def)
  moreover have "leave mur i cl = Returns (Some (members cl ! k), ?cl)"
    using rm r'(1) k kl(1) len by (simp add: leave_def vec_swap_remove_def Let_def)
  ultimately show ?thesis using kl rm by (intro present [of k ?cl]) simp_all
qed

lemma leave_wf:
  assumes "cluster_wf mur cl" and "leave mur i cl = Returns (x, cl')"
  shows "cluster_wf mur cl'"
  using leave_cases [OF assms(1), of i] assms by (metis outcome.inject(1) prod.inject)

section \<open>Reachable clusters\<close>

lemma refs_ok_join:
  assumes "refs_ok cl ws" and "join mur m cl ws = Returns (cl', ws')"
  shows "refs_ok cl' ws'"
proof -
  from assms(2) obtain n where r: "refs cl' = refs cl @ [\<lparr>ref_addr = node_addr m, ref_target = member_target m,
      ref_writer = length ws\<rparr>]"
    and w: "ws' = snd (with_config (node_addr m) (member_target m) (distributed_config cl) (tls cl) ws)"
    by (rule join_Returns)
  show ?thesis using assms(1) unfolding refs_ok_def r w with_config_def by (auto simp: nth_append)
qed

lemma refs_ok_leave:
  assumes wf: "cluster_wf mur cl" and ok: "refs_ok cl ws" and l: "leave mur i cl = Returns (x, cl')"
  shows "refs_ok cl' ws"
  using wf
proof (cases rule: leave_cases [where i = i])
  case absent
  with ok l show ?thesis by simp
next
  case (present k cl'')
  have k: "k < length (refs cl)" using present(1) cluster_wfD(1) [OF wf] by simp
  have d: "distinct (map ref_writer (refs cl))" using ok by (simp add: refs_ok_def)
  have "map ref_writer (refs cl'') = butlast ((map ref_writer (refs cl))[k := last (map ref_writer (refs cl))])"
    using k unfolding present(5) by (cases "refs cl = []") (auto simp: map_butlast map_update last_map)
  moreover have "distinct (butlast (xs[k := last xs]))" if "distinct xs" "k < length xs" for xs :: "nat list"
    using that swap_remove_set [OF that] card_distinct [of "butlast (xs[k := last xs])"]
    by (simp add: distinct_card)
  moreover have "set (refs cl'') \<subseteq> set (refs cl)"
    using swap_remove_set [OF distinct_map [THEN iffD1, OF d, THEN conjunct1] k] unfolding present(5) by auto
  ultimately show ?thesis using ok d k l present(3) by (auto simp: refs_ok_def)
qed

lemma next_ref_frame:
  "next_ref cl = (x, cl') \<Longrightarrow> members cl' = members cl \<and> refs cl' = refs cl
     \<and> refs_by_id cl' = refs_by_id cl \<and> cluster_ring cl' = cluster_ring cl"
  by (auto simp: next_ref_def split: if_splits)

lemma net_act_static:
  "w_addr (net_act c ws a ! i) = w_addr (ws ! i) \<and> w_target (net_act c ws a ! i) = w_target (ws ! i)"
proof (cases a)
  case (Offer r m)
  then show ?thesis by (cases rule: remote_send_cases [where r = r and m = m and ws = ws]) (auto simp: nth_list_update)
qed (auto simp: nth_list_update)

lemma cluster_reach_inv: "cluster_reach mur c cl ws \<Longrightarrow> cluster_wf mur cl \<and> refs_ok cl ws"
proof (induction rule: cluster_reach.induct)
  case (new vn ws)
  show ?case by (simp add: cluster_wf_new) (simp add: refs_ok_def with_virtual_nodes_def)
next
  case (join cl ws m cl' ws')
  then show ?case using cluster_wf_join refs_ok_join by blast
next
  case (leave cl ws i x cl')
  then show ?case using leave_wf refs_ok_leave by blast
next
  case (send_next cl ws x cl')
  then show ?case using next_ref_frame [OF send_next.hyps(2)] by (simp add: cluster_wf_def refs_ok_def)
next
  case (remote cl ws a)
  then show ?case by (simp add: refs_ok_def net_act_static)
qed

lemma member_index:
  assumes "cluster_wf mur cl" and "n \<in> name ` set (members cl)"
  obtains k where "k < length (members cl)" "name (members cl ! k) = n" "hm_get (refs_by_id cl) n = Some k"
    "List.find (\<lambda>m. name m = n) (members cl) = Some (members cl ! k)"
proof -
  note ix = cluster_wfD(2) [OF assms(1)]
  from assms(2) obtain k where k: "k < length (members cl)" "name (members cl ! k) = n"
    by (auto simp: in_set_conv_nth image_iff)
  have "\<not> name (members cl ! j) = n" if "j < k" for j
    using index_okD(3) [OF ix] k that by (auto simp: distinct_conv_nth)
  then have "List.find (\<lambda>m. name m = n) (members cl) = Some (members cl ! k)"
    using k by (auto simp: find_Some_iff)
  moreover have "hm_get (refs_by_id cl) n = Some k" using index_okD(2) [OF ix, of n k] k by simp
  ultimately show ?thesis using k that by blast
qed

lemma get_node_member:
  assumes "cluster_wf mur cl" and "get_node mur key (cluster_ring cl) = Some n"
  shows "nid n \<in> name ` set (members cl)"
proof -
  note wf = cluster_wfD(3) [OF assms(1)]
  from assms(2) have "ring (cluster_ring cl) \<noteq> []" by (auto simp: get_node_def)
  then obtain p i m where p: "nearest (ring_points (cluster_ring cl)) (hash_key mur key) p"
    "bt_get (ring (cluster_ring cl)) p = Some i" "hm_get (nodes (cluster_ring cl)) i = Some m" "nid m = i"
    using nearest_exists [OF wf] by blast
  with get_node_nearest [OF wf p(1,2)] assms(2) have "n = m" by simp
  with p(3,4) show ?thesis using cluster_wfD(4) [OF assms(1)] by auto
qed

lemma ref_for_key_member:
  assumes wf: "cluster_wf mur cl" and ok: "refs_ok cl ws" and n: "get_node mur key (cluster_ring cl) = Some n"
  obtains r m where "ref_for_key mur key cl = Returns (Some r)" "member_for_key mur key cl = Some m"
    "m \<in> set (members cl)" "name m = nid n" "ref_addr r = node_addr m" "ref_target r = member_target m"
    "ref_writer r < length ws" "w_addr (ws ! ref_writer r) = node_addr m"
    "w_target (ws ! ref_writer r) = member_target m"
proof -
  obtain k where k: "k < length (members cl)" "name (members cl ! k) = nid n"
    "hm_get (refs_by_id cl) (nid n) = Some k"
    "List.find (\<lambda>m. name m = nid n) (members cl) = Some (members cl ! k)"
    by (rule member_index [OF wf get_node_member [OF wf n]])
  have kr: "k < length (refs cl)" using k(1) cluster_wfD(1) [OF wf] by simp
  then have "refs cl ! k \<in> set (refs cl)" by simp
  with ok have "ref_writer (refs cl ! k) < length ws"
    "w_addr (ws ! ref_writer (refs cl ! k)) = ref_addr (refs cl ! k)"
    "w_target (ws ! ref_writer (refs cl ! k)) = ref_target (refs cl ! k)"
    by (simp_all add: refs_ok_def)
  moreover note cluster_wfD(5) [OF wf k(1)]
  moreover have "members cl ! k \<in> set (members cl)" using k(1) by simp
  ultimately show ?thesis
    using that [of "refs cl ! k" "members cl ! k"] n k kr
    by (simp add: ref_for_key_def ref_by_name_def ref_at_def member_for_key_def)
qed

section \<open>Round robin\<close>

lemma take_next_eq:
  assumes "refs cl \<noteq> []" and "length (refs cl) < 2 ^ 64"
    and "unat (next_counter cl) + k < 2 ^ 64"
  shows "take_next k cl = map (\<lambda>j. (unat (next_counter cl) + j) mod length (refs cl)) [0..<k]"
  using assms
proof (induction k arbitrary: cl)
  case (Suc k)
  let ?n = "length (refs cl)" and ?c = "next_counter cl"
  have un: "unat (of_nat ?n :: usize) = ?n" using Suc.prems(2) by (simp add: unat_of_nat take_bit_nat_eq_self)
  have step: "next_ref cl = (Inr (unat ?c mod ?n), cl\<lparr>next_counter := ?c + 1\<rparr>)"
    using Suc.prems(1) un by (simp add: next_ref_def unat_mod)
  have uc: "unat (?c + 1) = Suc (unat ?c)"
    using Suc.prems(3) by (simp add: unat_word_ariths)
  have "take_next k (cl\<lparr>next_counter := ?c + 1\<rparr>) = map (\<lambda>j. (Suc (unat ?c) + j) mod ?n) [0..<k]"
    using Suc.IH [of "cl\<lparr>next_counter := ?c + 1\<rparr>"] Suc.prems by (simp add: uc)
  then have "take_next (Suc k) cl = unat ?c mod ?n # map (\<lambda>j. (unat ?c + Suc j) mod ?n) [0..<k]"
    by (simp add: step)
  also have "\<dots> = map (\<lambda>j. (unat ?c + j) mod ?n) (0 # map Suc [0..<k])" by (simp add: comp_def)
  finally show ?case by (simp only: upt_conv_Cons [of 0 "Suc k"] map_Suc_upt zero_less_Suc)
qed simp

lemma mod_window:
  assumes "0 < (n :: nat)"
  shows "distinct (map (\<lambda>j. (a + j) mod n) [0..<n])" and "set (map (\<lambda>j. (a + j) mod n) [0..<n]) = {0..<n}"
proof -
  have le: "i = j" if "i \<le> j" "j < n" "(a + j) mod n = (a + i) mod n" for i j
  proof -
    from that have "n dvd (a + j) - (a + i)" by (simp add: mod_eq_dvd_iff_nat)
    then show ?thesis using that by (auto dest: dvd_imp_le)
  qed
  have inj: "inj_on (\<lambda>j. (a + j) mod n) {0..<n}"
    by (rule inj_onI) (metis atLeastLessThan_iff le linorder_le_cases)
  then show "distinct (map (\<lambda>j. (a + j) mod n) [0..<n])" by (simp add: distinct_map)
  have "(\<lambda>j. (a + j) mod n) ` {0..<n} \<subseteq> {0..<n}" using assms by auto
  then have "(\<lambda>j. (a + j) mod n) ` {0..<n} = {0..<n}"
    using inj by (intro card_subset_eq) (auto simp: card_image)
  then show "set (map (\<lambda>j. (a + j) mod n) [0..<n]) = {0..<n}" by simp
qed

section \<open>Sending to several references\<close>

definition offered :: "'m \<Rightarrow> 'm Writer \<Rightarrow> 'm Writer" where
  "offered m w = (if w_done w then w else w\<lparr>w_queue := w_queue w @ [m]\<rparr>)"

definition queue_full :: "'m Writer \<Rightarrow> bool" where
  "queue_full w \<longleftrightarrow> \<not> w_done w \<and> w_capacity w \<le> length (w_queue w)"

text \<open>What a send to a writer that is not full returns.\<close>

definition sent_result :: "'m Writer \<Rightarrow> unit io_result" where
  "sent_result w = (if w_done w then Inl channel_closed_error else Inr ())"

lemma remote_send_spec:
  "ref_writer r < length ws \<Longrightarrow>
   remote_send r m ws =
     (if queue_full (ws ! ref_writer r) then None
      else Some (sent_result (ws ! ref_writer r), ws[ref_writer r := offered m (ws ! ref_writer r)]))"
  by (auto simp: remote_send_def queue_full_def sent_result_def offered_def not_le)

text \<open>The references before the first whose queue is full.\<close>

definition reached :: "'m writers \<Rightarrow> (string \<times> RemoteActorRef) list \<Rightarrow> (string \<times> RemoteActorRef) list" where
  "reached ws rs = takeWhile (\<lambda>(n, r). \<not> queue_full (ws ! ref_writer r)) rs"

lemma send_each_spec:
  assumes "distinct (map (ref_writer \<circ> snd) rs)" and "\<forall>(n, r) \<in> set rs. ref_writer r < length ws"
  shows "\<exists>ws'. send_each m rs ws
      = (map (\<lambda>(n, r). (n, sent_result (ws ! ref_writer r))) (reached ws rs), drop (length (reached ws rs)) rs, ws')
    \<and> length ws' = length ws
    \<and> (\<forall>i < length ws. ws' ! i = (if i \<in> ref_writer ` snd ` set (reached ws rs) then offered m (ws ! i) else ws ! i))"
  using assms
proof (induction rs arbitrary: ws)
  case (Cons nr rs)
  obtain n r where nr: "nr = (n, r)" by (cases nr)
  have r: "ref_writer r < length ws" using Cons.prems(2) by (simp add: nr)
  show ?case
  proof (cases "queue_full (ws ! ref_writer r)")
    case False
    let ?ws = "ws[ref_writer r := offered m (ws ! ref_writer r)]"
    have other: "ref_writer q \<noteq> ref_writer r" if "(k, q) \<in> set rs" for k q
      using Cons.prems(1) that unfolding nr by force
    then have same: "?ws ! ref_writer q = ws ! ref_writer q" if "(k, q) \<in> set rs" for k q using that by force
    then have go: "reached ?ws rs = reached ws rs"
      unfolding reached_def by (intro takeWhile_cong) auto
    have "\<forall>(n, r) \<in> set rs. ref_writer r < length ?ws" using Cons.prems(2) by auto
    from Cons.IH [OF _ this] Cons.prems(1) obtain ws' where
      IH: "send_each m rs ?ws = (map (\<lambda>(n, r). (n, sent_result (?ws ! ref_writer r))) (reached ws rs), drop (length (reached ws rs)) rs, ws')"
      "length ws' = length ws"
      "\<forall>i < length ws. ws' ! i = (if i \<in> ref_writer ` snd ` set (reached ws rs) then offered m (?ws ! i) else ?ws ! i)"
      by (auto simp: go nr)
    have sub: "set (reached ws rs) \<subseteq> set rs" unfolding reached_def by (auto dest: set_takeWhileD)
    have "map (\<lambda>(n, r). (n, sent_result (?ws ! ref_writer r))) (reached ws rs) = map (\<lambda>(n, r). (n, sent_result (ws ! ref_writer r))) (reached ws rs)"
      using sub same by (intro map_cong refl) auto
    moreover have "reached ws (nr # rs) = nr # reached ws rs" using False by (simp add: reached_def nr)
    moreover have "ref_writer r \<notin> ref_writer ` snd ` set (reached ws rs)" using other sub by force
    ultimately show ?thesis
      using IH r False by (intro exI [of _ ws']) (auto simp: nr remote_send_spec nth_list_update)
  qed (use r in \<open>simp add: nr remote_send_spec reached_def\<close>)
qed (simp add: reached_def)

lemma first_error_results:
  "first_error (map (\<lambda>(n, r). (n, sent_result (ws ! ref_writer r))) rs)
     = (if \<exists>(n, r) \<in> set rs. w_done (ws ! ref_writer r) then Some channel_closed_error else None)"
  by (induction rs) (auto simp: sent_result_def)

section \<open>Properties\<close>

text \<open>C13. In every cluster built by joins of fresh names, leaves, sends and write-loop activity, key
  routing is consistent and cannot panic: \<open>ref_for_key\<close> finds a reference exactly when the ring
  routes the key, it is the reference of the member \<open>member_for_key\<close> finds (same address and frame
  target), its writer serves that address, and \<open>leave\<close> never hits an index out of range.\<close>

theorem cluster_routing_consistent:
  assumes "cluster_reach mur c cl ws"
  shows "(case get_node mur key (cluster_ring cl) of
      None \<Rightarrow> ref_for_key mur key cl = Returns None \<and> member_for_key mur key cl = None
    | Some n \<Rightarrow> (\<exists>r m. ref_for_key mur key cl = Returns (Some r) \<and> member_for_key mur key cl = Some m
        \<and> m \<in> set (members cl) \<and> name m = nid n \<and> ref_addr r = node_addr m \<and> ref_target r = member_target m
        \<and> ref_writer r < length ws \<and> w_addr (ws ! ref_writer r) = node_addr m))
    \<and> (\<exists>x. leave mur i cl = Returns x)"
proof
  from cluster_reach_inv [OF assms] have wf: "cluster_wf mur cl" and ok: "refs_ok cl ws" by auto
  show "\<exists>x. leave mur i cl = Returns x"
    using wf by (cases rule: leave_cases [where i = i]) auto
  show "case get_node mur key (cluster_ring cl) of
      None \<Rightarrow> ref_for_key mur key cl = Returns None \<and> member_for_key mur key cl = None
    | Some n \<Rightarrow> (\<exists>r m. ref_for_key mur key cl = Returns (Some r) \<and> member_for_key mur key cl = Some m
        \<and> m \<in> set (members cl) \<and> name m = nid n \<and> ref_addr r = node_addr m \<and> ref_target r = member_target m
        \<and> ref_writer r < length ws \<and> w_addr (ws ! ref_writer r) = node_addr m)"
  proof (cases "get_node mur key (cluster_ring cl)")
    case (Some n)
    show ?thesis by (rule ref_for_key_member [OF wf ok Some]) (use Some in auto)
  qed (simp add: ref_for_key_def member_for_key_def)
qed

definition demo_cluster :: "Cluster \<times> u8 writers" where
  "demo_cluster =
     (case join demo_mur (ClusterMember_new ''a'' ''h:1'' ''w'') (with_virtual_nodes 2) [] of
        Returns x \<Rightarrow> x | Panics _ \<Rightarrow> (with_virtual_nodes 2, []))"

lemma demo_ring_node:
  "ring_node (ClusterMember_new i ''h:1'' t) = Returns \<lparr>nid = i, host = ''h'', port = 1\<rparr>"
  by (simp add: ring_node_def ClusterMember_new_def from_socket_addr_def try_from_socket_addr_def
      parse_host_port_def rsplit_once_def parse_u16_def digit_value_def)

lemma demo_join:
  "join demo_mur (ClusterMember_new ''a'' ''h:1'' ''w'') (with_virtual_nodes 2) []
     = Returns (fst demo_cluster, snd demo_cluster)"
  by (simp add: demo_cluster_def join_def Let_def demo_ring_node split: prod.splits)

lemma demo_cluster_reach: "cluster_reach demo_mur demo_codec (fst demo_cluster) (snd demo_cluster)"
  by (rule cluster_reach.join [OF cluster_reach.new _ demo_join]) (simp add: with_virtual_nodes_def)

lemma demo_cluster_refs:
  "\<exists>r. refs (fst demo_cluster) = [r]" "next_counter (fst demo_cluster) = 0"
  by (rule join_Returns [OF demo_join]; simp add: with_virtual_nodes_def)+

theorem cluster_routing_consistent_witness:
  "\<exists>x. leave demo_mur ''a'' (fst demo_cluster) = Returns x"
  using cluster_routing_consistent [OF demo_cluster_reach, of "str_hash ''k''" "''a''"] by (rule conjunct2)

text \<open>Round robin is fair: while the 64-bit counter does not wrap, as many consecutive calls of
  \<open>next\<close> as there are references select every reference exactly once.\<close>

theorem round_robin_fair:
  assumes "refs cl \<noteq> []" and "length (refs cl) < 2 ^ 64"
    and "unat (next_counter cl) + length (refs cl) < 2 ^ 64"
  shows "distinct (take_next (length (refs cl)) cl)
    \<and> set (take_next (length (refs cl)) cl) = {0..<length (refs cl)}"
  using mod_window [of "length (refs cl)" "unat (next_counter cl)"] assms
  by (simp add: take_next_eq)

theorem round_robin_fair_witness:
  "distinct (take_next 1 (fst demo_cluster)) \<and> set (take_next 1 (fst demo_cluster)) = {0..<1}"
proof -
  have "length (refs (fst demo_cluster)) = 1" "refs (fst demo_cluster) \<noteq> []" using demo_cluster_refs(1) by auto
  then show ?thesis
    using demo_cluster_refs(2) round_robin_fair [of "fst demo_cluster"] by (simp del: take_next.simps One_nat_def)
qed

text \<open>C40. A broadcast sends to the members in roster order, also after failures, up to the first one whose
  write queue is full; there it waits and has no result, and the members behind it are not attempted.
  Each member before gets the message once in its write queue, or an error when its loop has returned; no
  other writer changes. When no queue is full, every member is attempted, and the result is \<open>Ok\<close> unless
  some loop has returned, when it is the error that the write channel is closed.\<close>

theorem broadcast_in_order:
  assumes "cluster_reach mur c cl ws"
  defines "rs \<equiv> zip (map name (members cl)) (refs cl)"
  defines "go \<equiv> takeWhile (\<lambda>(n, r). \<not> queue_full (ws ! ref_writer r)) rs"
  shows "fst (send_all m cl ws) = map (\<lambda>(n, r). (n, sent_result (ws ! ref_writer r))) go
    \<and> fst (snd (send_all m cl ws)) = drop (length go) rs
    \<and> (\<forall>i < length ws. snd (broadcast m cl ws) ! i =
        (if i \<in> ref_writer ` snd ` set go then offered m (ws ! i) else ws ! i))
    \<and> fst (broadcast m cl ws) =
        (if \<exists>r \<in> set (refs cl). queue_full (ws ! ref_writer r) then None
         else Some (if \<exists>r \<in> set (refs cl). w_done (ws ! ref_writer r) then Inl channel_closed_error else Inr ()))"
proof -
  from cluster_reach_inv [OF assms(1)] have wf: "cluster_wf mur cl" and ok: "refs_ok cl ws" by auto
  have len: "length (refs cl) = length (members cl)" by (rule cluster_wfD(1) [OF wf])
  have rs: "map snd rs = refs cl" using len by (simp add: rs_def)
  then have d: "distinct (map (ref_writer \<circ> snd) rs)" using ok by (simp add: refs_ok_def flip: map_map)
  have set_rs: "snd ` set rs = set (refs cl)" using rs by (metis set_map)
  have "\<forall>(n, r) \<in> set rs. ref_writer r < length ws" using ok set_rs by (force simp: refs_ok_def)
  from send_each_spec [OF d this, of m] obtain ws' where
    s: "send_all m cl ws = (map (\<lambda>(n, r). (n, sent_result (ws ! ref_writer r))) go, drop (length go) rs, ws')"
      "\<forall>i < length ws. ws' ! i = (if i \<in> ref_writer ` snd ` set go then offered m (ws ! i) else ws ! i)"
    unfolding send_all_def rs_def [symmetric] reached_def go_def [symmetric] by blast
  have go: "go = rs \<longleftrightarrow> \<not> (\<exists>r \<in> set (refs cl). queue_full (ws ! ref_writer r))"
    unfolding go_def takeWhile_eq_all_conv set_rs [symmetric] by auto
  show ?thesis
  proof (cases "drop (length go) rs")
    case Nil
    then have all: "go = rs" using takeWhile_dropWhile_id [of _ rs] unfolding go_def dropWhile_eq_drop by (metis append_Nil2)
    have w: "(\<exists>(n, r) \<in> set rs. w_done (ws ! ref_writer r)) \<longleftrightarrow> (\<exists>r \<in> set (refs cl). w_done (ws ! ref_writer r))"
      unfolding set_rs [symmetric] by (simp add: split_def)
    have "first_error (map (\<lambda>(n, r). (n, sent_result (ws ! ref_writer r))) go)
        = (if \<exists>r \<in> set (refs cl). w_done (ws ! ref_writer r) then Some channel_closed_error else None)"
      unfolding first_error_results all w ..
    then show ?thesis using s Nil go all by (simp add: broadcast_def)
  next
    case (Cons x left)
    then have "go \<noteq> rs" by auto
    then show ?thesis using s Cons go by (simp add: broadcast_def)
  qed
qed

text \<open>A cluster of two members: the write loop of the first has returned, the second still gets the message.\<close>

definition demo_pair :: "Cluster \<times> u8 writers" where
  "demo_pair =
     (case join demo_mur (ClusterMember_new ''b'' ''h:1'' ''w'') (fst demo_cluster) (snd demo_cluster) of
        Returns x \<Rightarrow> x | Panics _ \<Rightarrow> demo_cluster)"

definition demo_half :: "u8 writers" where
  "demo_half = net_run demo_codec (snd demo_pair) [Event 0 SendersGone, Event 0 (Connected (Inl eof_error))]"

lemma demo_half_reach: "cluster_reach demo_mur demo_codec (fst demo_pair) demo_half"
proof -
  have j: "join demo_mur (ClusterMember_new ''b'' ''h:1'' ''w'') (fst demo_cluster) (snd demo_cluster)
      = Returns (fst demo_pair, snd demo_pair)"
    by (simp add: demo_pair_def join_def Let_def demo_ring_node split: prod.splits)
  have "members (fst demo_cluster) = [ClusterMember_new ''a'' ''h:1'' ''w'']"
    by (simp add: demo_cluster_def join_def Let_def demo_ring_node with_virtual_nodes_def split: prod.splits)
  then have "name (ClusterMember_new ''b'' ''h:1'' ''w'') \<notin> name ` set (members (fst demo_cluster))"
    by (simp add: ClusterMember_new_def)
  from cluster_reach.join [OF demo_cluster_reach this j]
  have "cluster_reach demo_mur demo_codec (fst demo_pair) (snd demo_pair)" .
  then show ?thesis unfolding demo_half_def net_run.simps by (intro cluster_reach.remote)
qed

lemma demo_half_writers:
  "map ref_writer (refs (fst demo_pair)) = [0, 1]" "length demo_half = 2"
  "w_done (demo_half ! 0)" "\<not> w_done (demo_half ! 1)" "w_queue (demo_half ! 1) = []" "w_capacity (demo_half ! 1) = 32"
  by (simp_all add: demo_half_def demo_pair_def demo_cluster_def join_def Let_def demo_ring_node with_virtual_nodes_def
      remote_ref_with_def with_config_def DistributedConfig_default_def split: prod.splits)

theorem broadcast_in_order_witness:
  "fst (broadcast 7 (fst demo_pair) demo_half) = Some (Inl channel_closed_error)
   \<and> w_queue (snd (broadcast 7 (fst demo_pair) demo_half) ! 1) = [7]"
proof -
  obtain r0 r1 where r: "refs (fst demo_pair) = [r0, r1]" "ref_writer r0 = 0" "ref_writer r1 = 1"
    using demo_half_writers(1) by (auto simp: map_eq_Cons_conv)
  have len: "length (members (fst demo_pair)) = 2"
    using cluster_wfD(1) [OF cluster_reach_inv [OF demo_half_reach, THEN conjunct1]] r(1) by simp
  then obtain m0 m1 where m: "members (fst demo_pair) = [m0, m1]" by (auto simp: length_Suc_conv numeral_2_eq_2)
  have f: "\<not> queue_full (demo_half ! 0)" "\<not> queue_full (demo_half ! 1)" using demo_half_writers(3,5,6) by (simp_all add: queue_full_def)
  note b = broadcast_in_order [OF demo_half_reach, of 7]
  show ?thesis
    using b demo_half_writers r m f by (simp add: offered_def)
qed

end
