(* ===== verification/Mesh.thy ===== *)
theory Mesh
  imports Cluster "HOL-Library.Char_ord" "HOL-Library.List_Lexorder" "HOL-Library.Multiset"
begin

text \<open>
  The in-process half of \<open>src/mesh.rs\<close>: \<open>ServiceRecord\<close> and \<open>ServiceMesh\<close>, one \<open>Cluster\<close> per
  service name. The abstract contents of a mesh is the map from service and instance to address and
  frame target; registering, removing and applying a snapshot are proved against that map. The two
  iteration orders of the standard \<open>HashMap\<close> that \<open>apply_snapshot_diff\<close> goes through are parameters.
\<close>

section \<open>Records\<close>

record ServiceRecord =
  service :: string
  instance_id :: string
  address :: string
  rec_target :: string
  registered_at :: u64

definition record_member :: "ServiceRecord \<Rightarrow> ClusterMember" where
  "record_member r = ClusterMember_new (instance_id r) (address r) (rec_target r)"

text \<open>The record the mesh gives back for a member of a service.\<close>

definition member_record :: "string \<Rightarrow> ClusterMember \<Rightarrow> ServiceRecord" where
  "member_record s m =
     \<lparr>service = s, instance_id = name m, address = node_addr m, rec_target = member_target m, registered_at = 0\<rparr>"

section \<open>The mesh\<close>

record ServiceRoute =
  cluster :: Cluster

record ServiceMesh =
  routes :: "(string, ServiceRoute) hashmap"

definition mesh_new :: ServiceMesh where
  "mesh_new = \<lparr>routes = []\<rparr>"

definition mesh_default :: ServiceMesh where
  "mesh_default = mesh_new"

definition services :: "ServiceMesh \<Rightarrow> string list" where
  "services mesh = sort (hm_keys (routes mesh))"

definition instance_count :: "string \<Rightarrow> ServiceMesh \<Rightarrow> nat" where
  "instance_count s mesh = (case hm_get (routes mesh) s of None \<Rightarrow> 0 | Some r \<Rightarrow> cluster_len (cluster r))"

definition mesh_records :: "string \<Rightarrow> ServiceMesh \<Rightarrow> ServiceRecord list" where
  "mesh_records s mesh =
     (case hm_get (routes mesh) s of
        None \<Rightarrow> []
      | Some r \<Rightarrow> map (member_record s) (members (cluster r)))"

definition mesh_ring :: "string \<Rightarrow> ServiceMesh \<Rightarrow> HashRing option" where
  "mesh_ring s mesh = map_option (\<lambda>r. cluster_ring (cluster r)) (hm_get (routes mesh) s)"

text \<open>The body of \<open>register\<close> on the route of the service: leave when the instance is known, then join.\<close>

definition route_register ::
  "murmur \<Rightarrow> ServiceRecord \<Rightarrow> ServiceRoute \<Rightarrow> 'm writers
     \<Rightarrow> (ServiceRecord option \<times> ServiceRoute \<times> 'm writers) outcome" where
  "route_register mur r route ws =
     (case (if list_ex (\<lambda>m. name m = instance_id r) (members (cluster route))
            then leave mur (instance_id r) (cluster route)
            else Returns (None, cluster route)) of
        Panics e \<Rightarrow> Panics e
      | Returns (displaced, cl) \<Rightarrow>
          (case join mur (record_member r) cl ws of
             Panics e \<Rightarrow> Panics e
           | Returns (cl', ws') \<Rightarrow>
               Returns (map_option (member_record (service r)) displaced, route\<lparr>cluster := cl'\<rparr>, ws')))"

definition mesh_register ::
  "murmur \<Rightarrow> ServiceRecord \<Rightarrow> ServiceMesh \<Rightarrow> 'm writers
     \<Rightarrow> (ServiceRecord option \<times> ServiceMesh \<times> 'm writers) outcome" where
  "mesh_register mur r mesh ws =
     (let route = (case hm_get (routes mesh) (service r) of
                     Some route \<Rightarrow> route | None \<Rightarrow> \<lparr>cluster = Cluster_new\<rparr>)
      in case route_register mur r route ws of
           Panics e \<Rightarrow> Panics e
         | Returns (displaced, route', ws') \<Rightarrow>
             Returns (displaced, mesh\<lparr>routes := hm_insert (service r) route' (routes mesh)\<rparr>, ws'))"

text \<open>The route of a service after a change of its roster: dropped when the roster is empty.\<close>

definition put_route :: "string \<Rightarrow> ServiceRoute \<Rightarrow> ServiceMesh \<Rightarrow> ServiceMesh" where
  "put_route s route mesh =
     (if cluster_is_empty (cluster route) then mesh\<lparr>routes := hm_remove s (routes mesh)\<rparr>
      else mesh\<lparr>routes := hm_insert s route (routes mesh)\<rparr>)"

definition mesh_deregister ::
  "murmur \<Rightarrow> string \<Rightarrow> string \<Rightarrow> ServiceMesh \<Rightarrow> (ServiceRecord option \<times> ServiceMesh) outcome" where
  "mesh_deregister mur s i mesh =
     (case hm_get (routes mesh) s of
        None \<Rightarrow> Returns (None, mesh)
      | Some route \<Rightarrow>
          (case leave mur i (cluster route) of
             Panics e \<Rightarrow> Panics e
           | Returns (None, cl) \<Rightarrow> Returns (None, mesh\<lparr>routes := hm_insert s (route\<lparr>cluster := cl\<rparr>) (routes mesh)\<rparr>)
           | Returns (Some m, cl) \<Rightarrow>
               Returns (Some (member_record s m), put_route s (route\<lparr>cluster := cl\<rparr>) mesh)))"

text \<open>\<open>collect\<close> into a \<open>HashMap\<close>: the last record of an instance wins.\<close>

definition collect_incoming :: "ServiceRecord list \<Rightarrow> (string \<times> string, ServiceRecord) hashmap" where
  "collect_incoming records = fold (\<lambda>r. hm_insert (service r, instance_id r) r) records []"

definition leave_one :: "murmur \<Rightarrow> string \<Rightarrow> Cluster \<times> 'm writers \<Rightarrow> (Cluster \<times> 'm writers) outcome" where
  "leave_one mur i st =
     (case leave mur i (fst st) of Panics e \<Rightarrow> Panics e | Returns (_, cl) \<Rightarrow> Returns (cl, snd st))"

text \<open>One turn of the first loop of \<open>apply_snapshot_diff\<close>: the instances of a service that the
  snapshot no longer has leave its roster, and an empty roster is dropped.\<close>

definition drop_stale ::
  "murmur \<Rightarrow> (string \<times> string, ServiceRecord) hashmap \<Rightarrow> string \<Rightarrow> ServiceMesh \<times> 'm writers
     \<Rightarrow> (ServiceMesh \<times> 'm writers) outcome" where
  "drop_stale mur incoming s st =
     (case hm_get (routes (fst st)) s of
        None \<Rightarrow> Returns st
      | Some route \<Rightarrow>
          (let stale_ids = map name (filter (\<lambda>m. \<not> hm_contains_key incoming (s, name m)) (members (cluster route)))
           in case fold_outcome (leave_one mur) stale_ids (cluster route, snd st) of
                Panics e \<Rightarrow> Panics e
              | Returns (cl, ws) \<Rightarrow> Returns (put_route s (route\<lparr>cluster := cl\<rparr>) (fst st), ws)))"

definition register_one ::
  "murmur \<Rightarrow> ServiceRecord \<Rightarrow> ServiceMesh \<times> 'm writers \<Rightarrow> (ServiceMesh \<times> 'm writers) outcome" where
  "register_one mur r st =
     (case mesh_register mur r (fst st) (snd st) of Panics e \<Rightarrow> Panics e | Returns (_, st') \<Rightarrow> Returns st')"

text \<open>\<open>ks\<close> and \<open>vs\<close> are the iteration orders of \<open>routes.keys()\<close> and \<open>incoming.into_values()\<close>.\<close>

definition apply_snapshot_diff ::
  "murmur \<Rightarrow> (string list \<Rightarrow> string list) \<Rightarrow> (ServiceRecord list \<Rightarrow> ServiceRecord list)
     \<Rightarrow> ServiceRecord list \<Rightarrow> ServiceMesh \<times> 'm writers \<Rightarrow> (ServiceMesh \<times> 'm writers) outcome" where
  "apply_snapshot_diff mur ks vs records st =
     (let incoming = collect_incoming records
      in case fold_outcome (drop_stale mur incoming) (ks (hm_keys (routes (fst st)))) st of
           Panics e \<Rightarrow> Panics e
         | Returns st1 \<Rightarrow> fold_outcome (register_one mur) (vs (hm_values incoming)) st1)"

definition apply_snapshot ::
  "murmur \<Rightarrow> (string list \<Rightarrow> string list) \<Rightarrow> (ServiceRecord list \<Rightarrow> ServiceRecord list)
     \<Rightarrow> ServiceRecord list \<Rightarrow> ServiceMesh \<times> 'm writers \<Rightarrow> (ServiceMesh \<times> 'm writers) outcome" where
  "apply_snapshot = apply_snapshot_diff"

definition route_of :: "string \<Rightarrow> ServiceMesh \<Rightarrow> ServiceRoute io_result" where
  "route_of s mesh =
     (case hm_get (routes mesh) s of
        None \<Rightarrow> Inl (IoError NotFound (''unknown service: '' @ s))
      | Some route \<Rightarrow> Inr route)"

text \<open>The three ways to send: \<open>None\<close> (for \<open>invoke_all\<close>, references left) while a write queue is full.\<close>

definition invoke ::
  "murmur \<Rightarrow> string \<Rightarrow> (Murmur3Hasher \<Rightarrow> Murmur3Hasher) \<Rightarrow> 'm \<Rightarrow> ServiceMesh \<Rightarrow> 'm writers
     \<Rightarrow> (unit io_result \<times> 'm writers) option outcome" where
  "invoke mur s key m mesh ws =
     (case route_of s mesh of
        Inl e \<Rightarrow> Returns (Some (Inl e, ws))
      | Inr route \<Rightarrow> send_by_key mur key m (cluster route) ws)"

definition invoke_all ::
  "string \<Rightarrow> 'm \<Rightarrow> ServiceMesh \<Rightarrow> 'm writers
     \<Rightarrow> (string \<times> unit io_result) list \<times> (string \<times> RemoteActorRef) list \<times> 'm writers" where
  "invoke_all s m mesh ws =
     (case hm_get (routes mesh) s of
        Some route \<Rightarrow> send_all m (cluster route) ws
      | None \<Rightarrow> ([], [], ws))"

text \<open>\<open>invoke_any\<close> advances the round-robin counter of the route, an atomic behind \<open>&self\<close>.\<close>

definition invoke_any ::
  "string \<Rightarrow> 'm \<Rightarrow> ServiceMesh \<Rightarrow> 'm writers \<Rightarrow> ((unit io_result \<times> 'm writers) option \<times> ServiceMesh) outcome" where
  "invoke_any s m mesh ws =
     (case route_of s mesh of
        Inl e \<Rightarrow> Returns (Some (Inl e, ws), mesh)
      | Inr route \<Rightarrow>
          (case send_round_robin m (cluster route) ws of
             Panics e \<Rightarrow> Panics e
           | Returns (res, cl) \<Rightarrow>
               Returns (res, mesh\<lparr>routes := hm_insert s (route\<lparr>cluster := cl\<rparr>) (routes mesh)\<rparr>)))"

definition mesh_ref_for_key ::
  "murmur \<Rightarrow> string \<Rightarrow> (Murmur3Hasher \<Rightarrow> Murmur3Hasher) \<Rightarrow> ServiceMesh \<Rightarrow> RemoteActorRef option outcome" where
  "mesh_ref_for_key mur s key mesh =
     (case hm_get (routes mesh) s of
        None \<Rightarrow> Returns None
      | Some route \<Rightarrow> ref_for_key mur key (cluster route))"

section \<open>The contents of a roster and of a mesh\<close>

definition upsert_one ::
  "murmur \<Rightarrow> ServiceRecord \<Rightarrow> Cluster \<times> 'm writers \<Rightarrow> (Cluster \<times> 'm writers) outcome" where
  "upsert_one mur r st =
     (case route_register mur r \<lparr>cluster = fst st\<rparr> (snd st) of
        Panics e \<Rightarrow> Panics e | Returns (_, route, ws) \<Rightarrow> Returns (cluster route, ws))"

definition deregister_one ::
  "murmur \<Rightarrow> string \<times> string \<Rightarrow> ServiceMesh \<times> 'm writers \<Rightarrow> (ServiceMesh \<times> 'm writers) outcome" where
  "deregister_one mur k st =
     (case mesh_deregister mur (fst k) (snd k) (fst st) of
        Panics e \<Rightarrow> Panics e | Returns (_, mesh) \<Rightarrow> Returns (mesh, snd st))"

definition cluster_view :: "Cluster \<Rightarrow> string \<rightharpoonup> string \<times> string" where
  "cluster_view cl = map_of (map (\<lambda>m. (name m, node_addr m, member_target m)) (members cl))"

definition mesh_view :: "ServiceMesh \<Rightarrow> string \<times> string \<rightharpoonup> string \<times> string" where
  "mesh_view mesh = (\<lambda>(s, i). case hm_get (routes mesh) s of
      None \<Rightarrow> None | Some route \<Rightarrow> cluster_view (cluster route) i)"

definition cluster_inv :: "murmur \<Rightarrow> Cluster \<times> 'm writers \<Rightarrow> bool" where
  "cluster_inv mur st \<longleftrightarrow> cluster_wf mur (fst st) \<and> refs_ok (fst st) (snd st)"

text \<open>No route of a mesh is empty, and each is a consistent cluster over the shared writers.\<close>

definition mesh_wf :: "murmur \<Rightarrow> ServiceMesh \<times> 'm writers \<Rightarrow> bool" where
  "mesh_wf mur st \<longleftrightarrow>
     hm_inv (routes (fst st)) \<and>
     (\<forall>s route. hm_get (routes (fst st)) s = Some route \<longrightarrow>
        cluster_inv mur (cluster route, snd st) \<and> members (cluster route) \<noteq> [])"

definition addr_ok :: "ServiceRecord \<Rightarrow> bool" where
  "addr_ok r \<longleftrightarrow> (\<exists>n. ring_node (record_member r) = Returns n)"

text \<open>The contents a snapshot describes: the last record of an instance wins.\<close>

definition snapshot_view :: "ServiceRecord list \<Rightarrow> string \<times> string \<rightharpoonup> string \<times> string" where
  "snapshot_view records =
     map_of (rev (map (\<lambda>r. ((service r, instance_id r), (address r, rec_target r))) records))"

section \<open>The roster of a service is a directory\<close>

lemma cluster_view_None: "cluster_view cl i = None \<longleftrightarrow> i \<notin> name ` set (members cl)"
  by (force simp: cluster_view_def map_of_eq_None_iff)

lemma cluster_view_Some:
  assumes "cluster_wf mur cl"
  shows "cluster_view cl i = Some v \<longleftrightarrow>
    (\<exists>m \<in> set (members cl). name m = i \<and> v = (node_addr m, member_target m))"
proof -
  have "distinct (map name (members cl))" by (rule index_okD(3) [OF cluster_wfD(2) [OF assms]])
  then have "distinct (map fst (map (\<lambda>m. (name m, node_addr m, member_target m)) (members cl)))"
    by (simp add: comp_def)
  then show ?thesis unfolding cluster_view_def by (subst map_of_eq_Some_iff) auto
qed

lemma cluster_leave_view:
  assumes wf: "cluster_wf mur cl"
  obtains x cl' where "leave mur i cl = Returns (x, cl')" "cluster_wf mur cl'"
    "cluster_view cl' = (cluster_view cl)(i := None)"
    "x = List.find (\<lambda>m. name m = i) (members cl)"
  using wf
proof (cases rule: leave_cases [where i = i])
  case absent
  then have "cluster_view cl = (cluster_view cl)(i := None)" "List.find (\<lambda>m. name m = i) (members cl) = None"
    by (auto simp: cluster_view_None find_None_iff fun_upd_idem_iff)
  then show ?thesis using that absent(2) wf by metis
next
  case (present k cl')
  have dn: "distinct (map name (members cl))" by (rule index_okD(3) [OF cluster_wfD(2) [OF wf]])
  have ms: "set (members cl') = set (members cl) - {members cl ! k}"
    unfolding present(4) by (rule swap_remove_set [OF distinct_map [THEN iffD1, OF dn, THEN conjunct1] present(1)])
  have only: "m \<in> set (members cl) \<Longrightarrow> name m = i \<longleftrightarrow> m = members cl ! k" for m
    using dn present(1,2) by (metis distinct_map inj_onD nth_mem)
  have view: "cluster_view cl' j = ((cluster_view cl)(i := None)) j" for j
  proof (rule option.expand)
    show "(cluster_view cl' j = None) = (((cluster_view cl)(i := None)) j = None)"
      using ms only by (auto simp: cluster_view_None)
  next
    assume "cluster_view cl' j \<noteq> None" and "((cluster_view cl)(i := None)) j \<noteq> None"
    then obtain v v' where v: "cluster_view cl' j = Some v" "cluster_view cl j = Some v'" "j \<noteq> i"
      by (auto split: if_splits)
    from v(1) have "cluster_view cl j = Some v"
      unfolding cluster_view_Some [OF present(7)] cluster_view_Some [OF wf] using ms by blast
    then show "the (cluster_view cl' j) = the (((cluster_view cl)(i := None)) j)" using v by simp
  qed
  have "List.find (\<lambda>m. name m = i) (members cl) = Some (members cl ! k)"
    using member_index [OF wf, of i] present(1,2) only by (metis image_eqI nth_mem)
  then show ?thesis using that [OF present(3) present(7)] view by (simp add: fun_eq_iff)
qed

lemma cluster_join_view:
  assumes inv: "cluster_inv mur (cl, ws)" and new: "name m \<notin> name ` set (members cl)"
    and n: "ring_node m = Returns n"
  obtains cl' ws' where "join mur m cl ws = Returns (cl', ws')" "cluster_inv mur (cl', ws')"
    "cluster_view cl' = (cluster_view cl)(name m \<mapsto> (node_addr m, member_target m))"
    "members cl' = members cl @ [m]" "length ws < length ws'" "take (length ws) ws' = ws"
proof -
  obtain cl' ws' where j: "join mur m cl ws = Returns (cl', ws')"
    using n by (cases "remote_ref_with m (distributed_config cl) (tls cl) ws") (auto simp: join_def Let_def)
  then have ms: "members cl' = members cl @ [m]" and
    ws: "ws' = snd (with_config (node_addr m) (member_target m) (distributed_config cl) (tls cl) ws)"
    by (rule join_Returns, simp)+
  have "cluster_view cl' = (cluster_view cl)(name m \<mapsto> (node_addr m, member_target m))"
  proof (rule ext)
    fix i
    have "cluster_view cl (name m) = None" using new by (simp add: cluster_view_None)
    then show "cluster_view cl' i = ((cluster_view cl)(name m \<mapsto> (node_addr m, member_target m))) i"
      by (cases "cluster_view cl i") (auto simp: cluster_view_def ms map_add_def)
  qed
  moreover have "cluster_inv mur (cl', ws')"
    using inv cluster_wf_join [OF _ new j] refs_ok_join [OF _ j] by (simp add: cluster_inv_def)
  ultimately show ?thesis using that j ms ws by (simp add: with_config_def)
qed

lemma refs_ok_more:
  assumes "refs_ok cl ws" and "take (length ws) ws' = ws"
  shows "refs_ok cl ws'"
proof -
  have "i < length ws \<Longrightarrow> i < length ws' \<and> ws' ! i = ws ! i" for i
    using assms(2) by (metis length_take min_less_iff_conj nth_take)
  then show ?thesis using assms(1) by (auto simp: refs_ok_def)
qed

lemma cluster_inv_more:
  "cluster_inv mur (cl, ws) \<Longrightarrow> take (length ws) ws' = ws \<Longrightarrow> cluster_inv mur (cl, ws')"
  using refs_ok_more [of cl ws ws'] by (simp add: cluster_inv_def)

lemma cluster_inv_leave:
  assumes "cluster_inv mur (cl, ws)"
  obtains x cl' where "leave mur i cl = Returns (x, cl')" "cluster_inv mur (cl', ws)"
    "cluster_view cl' = (cluster_view cl)(i := None)" "x = List.find (\<lambda>m. name m = i) (members cl)"
proof -
  have wf: "cluster_wf mur cl" and ok: "refs_ok cl ws" using assms by (auto simp: cluster_inv_def)
  obtain x cl' where l: "leave mur i cl = Returns (x, cl')" "cluster_wf mur cl'"
    "cluster_view cl' = (cluster_view cl)(i := None)" "x = List.find (\<lambda>m. name m = i) (members cl)"
    using cluster_leave_view [OF wf] by metis
  then show ?thesis using that refs_ok_leave [OF wf ok l(1)] by (simp add: cluster_inv_def)
qed

lemma cluster_inv_new: "cluster_inv mur (Cluster_new, ws)"
  by (simp add: cluster_inv_def Cluster_new_def cluster_wf_new) (simp add: refs_ok_def with_virtual_nodes_def)

lemma route_register_ok:
  assumes inv: "cluster_inv mur (cluster route, ws)" and ok: "addr_ok r"
  obtains d route' ws' where "route_register mur r route ws = Returns (d, route', ws')"
    "cluster_inv mur (cluster route', ws')"
    "cluster_view (cluster route') = (cluster_view (cluster route))(instance_id r \<mapsto> (address r, rec_target r))"
    "members (cluster route') \<noteq> []" "take (length ws) ws' = ws"
    "d = map_option (member_record (service r)) (List.find (\<lambda>m. name m = instance_id r) (members (cluster route)))"
proof -
  let ?i = "instance_id r" and ?m = "record_member r" and ?cl = "cluster route"
  have m: "name ?m = ?i" "node_addr ?m = address r" "member_target ?m = rec_target r"
    by (simp_all add: record_member_def ClusterMember_new_def)
  obtain x cl where l: "leave mur ?i ?cl = Returns (x, cl)" "cluster_inv mur (cl, ws)"
    "cluster_view cl = (cluster_view ?cl)(?i := None)" "x = List.find (\<lambda>m. name m = ?i) (members ?cl)"
    by (rule cluster_inv_leave [OF inv])
  define c1 where "c1 = (if list_ex (\<lambda>m. name m = ?i) (members ?cl) then cl else ?cl)"
  define d1 where "d1 = (if list_ex (\<lambda>m. name m = ?i) (members ?cl) then x else None)"
  have first: "(if list_ex (\<lambda>m. name m = ?i) (members ?cl) then leave mur ?i ?cl else Returns (None, ?cl))
      = Returns (d1, c1)" by (simp add: c1_def d1_def l(1))
  have gone: "cluster_view ?cl ?i = None" if "\<not> list_ex (\<lambda>m. name m = ?i) (members ?cl)"
    using that by (auto simp: cluster_view_None list_ex_iff)
  have c1: "cluster_inv mur (c1, ws)" "cluster_view c1 = (cluster_view ?cl)(?i := None)"
    using l(2,3) inv gone by (auto simp: c1_def fun_eq_iff)
  have d1: "d1 = List.find (\<lambda>m. name m = ?i) (members ?cl)"
    using l(4) by (auto simp: d1_def list_ex_iff find_None_iff intro!: sym [of _ None])
  have new: "name ?m \<notin> name ` set (members c1)" using c1(2) m(1) by (simp flip: cluster_view_None)
  obtain n where "ring_node ?m = Returns n" using ok by (auto simp: addr_ok_def)
  then obtain cl' ws' where j: "join mur ?m c1 ws = Returns (cl', ws')" "cluster_inv mur (cl', ws')"
    "cluster_view cl' = (cluster_view c1)(name ?m \<mapsto> (node_addr ?m, member_target ?m))"
    "members cl' = members c1 @ [?m]" "length ws < length ws'" "take (length ws) ws' = ws"
    by (rule cluster_join_view [OF c1(1) new])
  show ?thesis
    by (rule that [of "map_option (member_record (service r)) d1" "route\<lparr>cluster := cl'\<rparr>" ws'])
      (simp_all add: route_register_def first j d1 m c1(2) l)
qed

interpretation roster: directory "\<lambda>st :: Cluster \<times> 'm writers. cluster_view (fst st)" "cluster_inv mur" "upsert_one mur"
  "leave_one mur" addr_ok instance_id "\<lambda>r. (address r, rec_target r)" for mur
proof
  fix st :: "Cluster \<times> 'm writers" and r assume inv: "cluster_inv mur st" and ok: "addr_ok r"
  have "cluster_inv mur (cluster \<lparr>cluster = fst st\<rparr>, snd st)" using inv by simp
  then obtain d route' ws' where "route_register mur r \<lparr>cluster = fst st\<rparr> (snd st) = Returns (d, route', ws')"
    "cluster_inv mur (cluster route', ws')" "cluster_view (cluster route')
      = (cluster_view (cluster \<lparr>cluster = fst st\<rparr>))(instance_id r \<mapsto> (address r, rec_target r))"
    using route_register_ok [OF _ ok] by metis
  then show "\<exists>st'. upsert_one mur r st = Returns st' \<and> cluster_inv mur st' \<and>
      cluster_view (fst st') = (cluster_view (fst st))(instance_id r \<mapsto> (address r, rec_target r))"
    by (auto simp: upsert_one_def)
next
  fix st :: "Cluster \<times> 'm writers" and i assume "cluster_inv mur st"
  then have "cluster_inv mur (fst st, snd st)" by simp
  then obtain x cl' where "leave mur i (fst st) = Returns (x, cl')" "cluster_inv mur (cl', snd st)"
    "cluster_view cl' = (cluster_view (fst st))(i := None)" using cluster_inv_leave by metis
  then show "\<exists>st'. leave_one mur i st = Returns st' \<and> cluster_inv mur st' \<and>
      cluster_view (fst st') = (cluster_view (fst st))(i := None)"
    by (auto simp: leave_one_def)
qed

section \<open>The mesh is a directory\<close>

lemma mesh_wfD:
  assumes "mesh_wf mur (mesh, ws)"
  shows "hm_inv (routes mesh)"
    and "hm_get (routes mesh) s = Some route \<Longrightarrow> cluster_inv mur (cluster route, ws)"
    and "hm_get (routes mesh) s = Some route \<Longrightarrow> members (cluster route) \<noteq> []"
  using assms by (auto simp: mesh_wf_def)

lemma mesh_wf_new: "mesh_wf mur (mesh_new, ws)"
  by (simp add: mesh_wf_def mesh_new_def hm.inv_empty hm.get_empty)

lemma cluster_view_empty: "cluster_view cl = Map.empty \<longleftrightarrow> members cl = []"
  by (simp add: cluster_view_def)

lemma cluster_is_empty_members: "cluster_inv mur (cl, ws) \<Longrightarrow> cluster_is_empty cl \<longleftrightarrow> members cl = []"
  using cluster_wfD(1) [of mur cl] by (auto simp: cluster_inv_def cluster_is_empty_def)

text \<open>The one frame lemma of the section: a new roster for one service, dropped when it is empty.\<close>

lemma put_route_ok:
  assumes wf: "mesh_wf mur (mesh, ws)" and inv: "cluster_inv mur (cluster route, ws')"
    and ext: "take (length ws) ws' = ws"
  shows "mesh_wf mur (put_route s route mesh, ws')"
    and "mesh_view (put_route s route mesh)
      = (\<lambda>(s', i). if s' = s then cluster_view (cluster route) i else mesh_view mesh (s', i))"
proof -
  note inv_rs = mesh_wfD(1) [OF wf]
  have old: "hm_get (routes mesh) t = Some q \<Longrightarrow> cluster_inv mur (cluster q, ws') \<and> members (cluster q) \<noteq> []" for t q
    using mesh_wfD(2,3) [OF wf] cluster_inv_more [OF _ ext] by blast
  note empty = cluster_is_empty_members [OF inv]
  show "mesh_wf mur (put_route s route mesh, ws')"
    using old inv empty inv_rs
    by (auto simp: mesh_wf_def put_route_def hm.inv_insert hm.inv_remove hm.get_insert hm.get_remove split: if_splits)
  have "members (cluster route) = [] \<Longrightarrow> cluster_view (cluster route) i = None" for i
    by (simp add: cluster_view_def)
  then show "mesh_view (put_route s route mesh)
      = (\<lambda>(s', i). if s' = s then cluster_view (cluster route) i else mesh_view mesh (s', i))"
    using empty inv_rs
    by (auto simp: mesh_view_def put_route_def fun_eq_iff hm.get_insert hm.get_remove)
qed

lemma put_route_insert:
  "members (cluster route) \<noteq> [] \<Longrightarrow> cluster_inv mur (cluster route, ws) \<Longrightarrow>
   mesh\<lparr>routes := hm_insert s route (routes mesh)\<rparr> = put_route s route mesh"
  by (simp add: put_route_def cluster_is_empty_members)

lemma find_view:
  "map_option (member_record s) (List.find (\<lambda>m. name m = i) ms)
   = map_option (\<lambda>(a, t). \<lparr>service = s, instance_id = i, address = a, rec_target = t, registered_at = 0\<rparr>)
       (map_of (map (\<lambda>m. (name m, node_addr m, member_target m)) ms) i)"
  by (induction ms) (auto simp: member_record_def)

lemma mesh_register_ok:
  assumes wf: "mesh_wf mur (mesh, ws)" and ok: "addr_ok r"
  obtains mesh' ws' where "mesh_register mur r mesh ws
      = Returns (map_option (\<lambda>(a, t). \<lparr>service = service r, instance_id = instance_id r, address = a,
          rec_target = t, registered_at = 0\<rparr>) (mesh_view mesh (service r, instance_id r)), mesh', ws')"
    "mesh_wf mur (mesh', ws')"
    "mesh_view mesh' = (mesh_view mesh)((service r, instance_id r) \<mapsto> (address r, rec_target r))"
    "take (length ws) ws' = ws"
proof -
  define route where "route = (case hm_get (routes mesh) (service r) of
      Some route \<Rightarrow> route | None \<Rightarrow> \<lparr>cluster = Cluster_new\<rparr>)"
  have inv: "cluster_inv mur (cluster route, ws)"
    using mesh_wfD(2) [OF wf] cluster_inv_new by (auto simp: route_def split: option.splits)
  have cv: "cluster_view (cluster route) = (\<lambda>i. mesh_view mesh (service r, i))"
    by (auto simp: route_def mesh_view_def cluster_view_def Cluster_new_def with_virtual_nodes_def fun_eq_iff
        split: option.splits)
  obtain d route' ws' where rr: "route_register mur r route ws = Returns (d, route', ws')"
    "cluster_inv mur (cluster route', ws')"
    "cluster_view (cluster route') = (cluster_view (cluster route))(instance_id r \<mapsto> (address r, rec_target r))"
    "members (cluster route') \<noteq> []" "take (length ws) ws' = ws"
    "d = map_option (member_record (service r)) (List.find (\<lambda>m. name m = instance_id r) (members (cluster route)))"
    by (rule route_register_ok [OF inv ok])
  have "d = map_option (\<lambda>(a, t). \<lparr>service = service r, instance_id = instance_id r, address = a,
          rec_target = t, registered_at = 0\<rparr>) (cluster_view (cluster route) (instance_id r))"
    unfolding rr(6) cluster_view_def by (rule find_view)
  moreover have "mesh_register mur r mesh ws = Returns (d, put_route (service r) route' mesh, ws')"
    unfolding mesh_register_def Let_def route_def [symmetric] rr(1) by (simp add: put_route_insert [OF rr(4,2)])
  moreover have "mesh_view (put_route (service r) route' mesh)
      = (mesh_view mesh)((service r, instance_id r) \<mapsto> (address r, rec_target r))"
    unfolding put_route_ok(2) [OF wf rr(2,5)] rr(3) cv by (auto simp: fun_eq_iff)
  ultimately show ?thesis using that put_route_ok(1) [OF wf rr(2,5)] rr(5) cv by simp
qed

lemma mesh_deregister_ok:
  assumes wf: "mesh_wf mur (mesh, ws)"
  obtains d mesh' where "mesh_deregister mur s i mesh = Returns (d, mesh')"
    "mesh_wf mur (mesh', ws)" "mesh_view mesh' = (mesh_view mesh)((s, i) := None)"
    "d = map_option (\<lambda>(a, t). \<lparr>service = s, instance_id = i, address = a, rec_target = t, registered_at = 0\<rparr>)
      (mesh_view mesh (s, i))"
proof (cases "hm_get (routes mesh) s")
  case None
  then have "mesh_view mesh (s, i) = None" by (simp add: mesh_view_def)
  then show ?thesis using that [of None mesh] None wf by (simp add: mesh_deregister_def fun_upd_idem)
next
  case (Some route)
  note inv = mesh_wfD(2) [OF wf Some] and ne = mesh_wfD(3) [OF wf Some]
  obtain x cl where l: "leave mur i (cluster route) = Returns (x, cl)" "cluster_inv mur (cl, ws)"
    "cluster_view cl = (cluster_view (cluster route))(i := None)" "x = List.find (\<lambda>m. name m = i) (members (cluster route))"
    by (rule cluster_inv_leave [OF inv])
  let ?route = "route\<lparr>cluster := cl\<rparr>"
  have cv: "cluster_view (cluster route) j = mesh_view mesh (s, j)" for j by (simp add: mesh_view_def Some)
  have xn: "x = None \<longleftrightarrow> mesh_view mesh (s, i) = None"
    unfolding l(4) cv [symmetric] by (auto simp: find_None_iff cluster_view_None)
  have d: "map_option (member_record s) x
      = map_option (\<lambda>(a, t). \<lparr>service = s, instance_id = i, address = a, rec_target = t, registered_at = 0\<rparr>) (mesh_view mesh (s, i))"
    unfolding l(4) cv [symmetric] cluster_view_def by (rule find_view)
  have "x = None \<Longrightarrow> members cl \<noteq> []"
    using l(3) xn ne cv [of i] unfolding cluster_view_empty [symmetric] by (metis fun_upd_idem)
  then have res: "mesh_deregister mur s i mesh = Returns (map_option (member_record s) x, put_route s ?route mesh)"
    using l(2) by (auto simp: mesh_deregister_def Some l(1) put_route_insert [of ?route mur ws] split: option.splits)
  have "mesh_view (put_route s ?route mesh) = (mesh_view mesh)((s, i) := None)"
    using put_route_ok(2) [OF wf, of ?route ws s] l(2,3) cv by (auto simp: fun_eq_iff)
  then show ?thesis
    using that [OF res] put_route_ok(1) [OF wf, of ?route ws s] l(2) d by simp
qed

interpretation mesh_dir: directory "\<lambda>st :: ServiceMesh \<times> 'm writers. mesh_view (fst st)" "mesh_wf mur"
  "register_one mur" "deregister_one mur" addr_ok "\<lambda>r. (service r, instance_id r)"
  "\<lambda>r. (address r, rec_target r)" for mur
proof
  fix st :: "ServiceMesh \<times> 'm writers" and r assume "mesh_wf mur st" and ok: "addr_ok r"
  then have wf: "mesh_wf mur (fst st, snd st)" by simp
  show "\<exists>st'. register_one mur r st = Returns st' \<and> mesh_wf mur st' \<and>
      mesh_view (fst st') = (mesh_view (fst st))((service r, instance_id r) \<mapsto> (address r, rec_target r))"
    by (rule mesh_register_ok [OF wf ok]) (auto simp: register_one_def)
next
  fix st :: "ServiceMesh \<times> 'm writers" and k :: "string \<times> string" assume "mesh_wf mur st"
  then have wf: "mesh_wf mur (fst st, snd st)" by simp
  show "\<exists>st'. deregister_one mur k st = Returns st' \<and> mesh_wf mur st' \<and>
      mesh_view (fst st') = (mesh_view (fst st))(k := None)"
    by (rule mesh_deregister_ok [OF wf, of "fst k" "snd k"]) (auto simp: deregister_one_def)
qed

section \<open>Applying a snapshot\<close>

lemma collect_incoming_get:
  "hm_inv (collect_incoming rs)"
  "hm_get (collect_incoming rs) = map_of (rev (map (\<lambda>r. ((service r, instance_id r), r)) rs))"
  unfolding collect_incoming_def
  by (rule hm.inv_fold_insert [OF hm.inv_empty])
    (simp add: hm.get_fold_insert [OF hm.inv_empty] hm.get_empty)

lemma collect_incoming_entry:
  assumes "(k, r) \<in> set (collect_incoming rs)"
  shows "k = (service r, instance_id r) \<and> r \<in> set rs"
proof -
  have "hm_get (collect_incoming rs) k = Some r"
    using assms collect_incoming_get(1) by (simp add: hm_get_in_set)
  then show ?thesis unfolding collect_incoming_get(2) by (auto dest!: map_of_SomeD)
qed

lemma snapshot_view_incoming:
  "snapshot_view rs = (\<lambda>k. map_option (\<lambda>r. (address r, rec_target r)) (hm_get (collect_incoming rs) k))"
proof -
  have "map (\<lambda>r. ((service r, instance_id r), (address r, rec_target r))) rs
    = map (\<lambda>(k, r). (k, (\<lambda>r. (address r, rec_target r)) r)) (map (\<lambda>r. ((service r, instance_id r), r)) rs)"
    by simp
  then show ?thesis
    unfolding snapshot_view_def collect_incoming_get(2) by (simp only: map_of_map rev_map comp_def)
qed

lemma values_view:
  assumes "mset vs = mset (hm_values (collect_incoming rs))"
  shows "map_of (rev (map (\<lambda>r. ((service r, instance_id r), (address r, rec_target r))) vs)) = snapshot_view rs"
proof -
  let ?inc = "collect_incoming rs" and ?kv = "\<lambda>r. ((service r, instance_id r), (address r, rec_target r))"
  have inc: "map (\<lambda>(k, r). (k, (address r, rec_target r))) ?inc = map ?kv (hm_values ?inc)"
    using collect_incoming_entry by (fastforce simp: hm_values_def)
  have "map fst (map ?kv (hm_values ?inc)) = map fst ?inc"
    unfolding inc [symmetric] by (simp add: comp_def split_def)
  then have d: "distinct (map fst (map ?kv (hm_values ?inc)))"
    using collect_incoming_get(1) [of rs] by (simp add: hm_inv_def)
  have ms: "mset (rev (map ?kv vs)) = mset (map ?kv (hm_values ?inc))" using assms by (simp add: mset_map)
  have "mset (map fst (rev (map ?kv vs))) = mset (map fst (map ?kv (hm_values ?inc)))"
    unfolding mset_map [of fst] ms ..
  then have d': "distinct (map fst (rev (map ?kv vs)))" using d by (rule mset_eq_imp_distinct_iff [THEN iffD2])
  have "map_of (rev (map ?kv vs)) = map_of (map ?kv (hm_values ?inc))"
    by (rule map_of_inject_set [OF d' d, THEN iffD2]) (rule mset_eq_setD [OF ms])
  also have "\<dots> = snapshot_view rs"
    unfolding inc [symmetric] snapshot_view_incoming hm_get_def by (simp add: map_of_map comp_def)
  finally show ?thesis .
qed

lemma leave_one_writers: "fold_outcome (leave_one mur) is st = Returns st' \<Longrightarrow> snd st' = snd st"
proof (induction "is" arbitrary: st)
  case (Cons i "is")
  obtain st1 where "leave_one mur i st = Returns st1" "fold_outcome (leave_one mur) is st1 = Returns st'"
    using Cons.prems by (auto split: outcome.splits)
  moreover from this(1) have "snd st1 = snd st" by (auto simp: leave_one_def split: outcome.splits)
  ultimately show ?case using Cons.IH [of st1] by simp
qed simp

lemma drop_stale_ok:
  assumes wf: "mesh_wf mur (mesh, ws)"
  obtains mesh' where "drop_stale mur inc s (mesh, ws) = Returns (mesh', ws)" "mesh_wf mur (mesh', ws)"
    "mesh_view mesh' = (\<lambda>(s', i). if s' = s \<and> hm_get inc (s, i) = None then None else mesh_view mesh (s', i))"
proof (cases "hm_get (routes mesh) s")
  case None
  then have "mesh_view mesh (s, i) = None" for i by (simp add: mesh_view_def)
  then have "mesh_view mesh
      = (\<lambda>(s', i). if s' = s \<and> hm_get inc (s, i) = None then None else mesh_view mesh (s', i))"
    by (auto simp: fun_eq_iff)
  then show ?thesis using that [of mesh] None wf by (simp add: drop_stale_def)
next
  case (Some route)
  let ?stale = "map name (filter (\<lambda>m. \<not> hm_contains_key inc (s, name m)) (members (cluster route)))"
  obtain cl ws' where l: "fold_outcome (leave_one mur) ?stale (cluster route, ws) = Returns (cl, ws')"
    "cluster_inv mur (cl, ws')" "cluster_view cl = cluster_view (cluster route) |` (- set ?stale)"
    using roster.del_all [OF mesh_wfD(2) [OF wf Some], of ?stale] by auto
  have ws: "ws' = ws" using leave_one_writers [OF l(1)] by simp
  have "cluster_view cl i = (if hm_get inc (s, i) = None then None else mesh_view mesh (s, i))" for i
    using cluster_view_None [of "cluster route" i] unfolding l(3)
    by (auto simp: mesh_view_def Some restrict_map_def hm_contains_key_def)
  then have "mesh_view (put_route s (route\<lparr>cluster := cl\<rparr>) mesh)
      = (\<lambda>(s', i). if s' = s \<and> hm_get inc (s, i) = None then None else mesh_view mesh (s', i))"
    using put_route_ok(2) [OF wf, of "route\<lparr>cluster := cl\<rparr>" ws s] l(2) ws by (auto simp: fun_eq_iff)
  moreover have "drop_stale mur inc s (mesh, ws) = Returns (put_route s (route\<lparr>cluster := cl\<rparr>) mesh, ws)"
    using l(1) ws by (simp add: drop_stale_def Some)
  ultimately show ?thesis
    using that put_route_ok(1) [OF wf, of "route\<lparr>cluster := cl\<rparr>" ws s] l(2) ws by simp
qed

lemma drop_stale_all:
  "mesh_wf mur (mesh, ws) \<Longrightarrow>
   \<exists>mesh'. fold_outcome (drop_stale mur inc) ss (mesh, ws) = Returns (mesh', ws) \<and> mesh_wf mur (mesh', ws)
     \<and> mesh_view mesh' = (\<lambda>(s, i). if s \<in> set ss \<and> hm_get inc (s, i) = None then None else mesh_view mesh (s, i))"
proof (induction ss arbitrary: mesh)
  case Nil
  then show ?case by (auto simp: fun_eq_iff)
next
  case (Cons s ss)
  obtain m1 where m1: "drop_stale mur inc s (mesh, ws) = Returns (m1, ws)" "mesh_wf mur (m1, ws)"
    "mesh_view m1 = (\<lambda>(s', i). if s' = s \<and> hm_get inc (s, i) = None then None else mesh_view mesh (s', i))"
    by (rule drop_stale_ok [OF Cons.prems])
  obtain m2 where m2: "fold_outcome (drop_stale mur inc) ss (m1, ws) = Returns (m2, ws)" "mesh_wf mur (m2, ws)"
    "mesh_view m2 = (\<lambda>(s, i). if s \<in> set ss \<and> hm_get inc (s, i) = None then None else mesh_view m1 (s, i))"
    using Cons.IH [OF m1(2)] by blast
  have "mesh_view m2
      = (\<lambda>(s', i). if s' \<in> set (s # ss) \<and> hm_get inc (s', i) = None then None else mesh_view mesh (s', i))"
    unfolding m2(3) m1(3) by (auto simp: fun_eq_iff)
  then show ?case using m1(1) m2(1,2) by simp
qed

lemma mesh_services:
  assumes "mesh_wf mur (mesh, ws)"
  shows "services mesh = sorted_list_of_set (fst ` dom (mesh_view mesh))"
proof -
  note inv = mesh_wfD(1) [OF assms]
  have "s \<in> fst ` dom (mesh_view mesh) \<longleftrightarrow> s \<in> dom (hm_get (routes mesh))" for s
  proof
    assume "s \<in> dom (hm_get (routes mesh))"
    then obtain route where r: "hm_get (routes mesh) s = Some route" by blast
    then have "cluster_view (cluster route) \<noteq> Map.empty"
      using mesh_wfD(3) [OF assms] by (simp add: cluster_view_empty)
    then obtain i where "mesh_view mesh (s, i) \<noteq> None" by (auto simp: mesh_view_def r fun_eq_iff)
    then show "s \<in> fst ` dom (mesh_view mesh)" by (force simp: dom_def)
  qed (auto simp: mesh_view_def split: option.splits)
  then have "fst ` dom (mesh_view mesh) = set (hm_keys (routes mesh))" unfolding hm_keys_set by blast
  moreover have "distinct (hm_keys (routes mesh))" using inv by (simp add: hm_inv_def hm_keys_def)
  ultimately show ?thesis by (simp add: services_def sorted_list_of_set_sort_remdups distinct_remdups_id)
qed

lemma snapshot_dom: "fst ` dom (snapshot_view records) = service ` set records"
  by (force simp: snapshot_view_def dom_map_of_conv_image_fst)

lemma apply_snapshot_ok:
  assumes wf: "mesh_wf mur (mesh, ws)" and addr: "\<forall>r \<in> set records. addr_ok r"
    and ks: "\<forall>xs. mset (ks xs) = mset xs" and vs: "\<forall>xs. mset (vs xs) = mset xs"
  shows "\<exists>mesh' ws'. apply_snapshot_diff mur ks vs records (mesh, ws) = Returns (mesh', ws')
    \<and> mesh_wf mur (mesh', ws') \<and> mesh_view mesh' = snapshot_view records
    \<and> services mesh' = sorted_list_of_set (service ` set records)"
proof -
  let ?inc = "collect_incoming records" and ?ss = "ks (hm_keys (routes mesh))"
  have ss: "set ?ss = dom (hm_get (routes mesh))" using ks hm_keys_set by (metis mset_eq_setD)
  obtain m1 where m1: "fold_outcome (drop_stale mur ?inc) ?ss (mesh, ws) = Returns (m1, ws)" "mesh_wf mur (m1, ws)"
    "mesh_view m1 = (\<lambda>(s, i). if s \<in> set ?ss \<and> hm_get ?inc (s, i) = None then None else mesh_view mesh (s, i))"
    using drop_stale_all [OF wf] by blast
  have vals: "set (vs (hm_values ?inc)) = set (hm_values ?inc)" using vs by (metis mset_eq_setD)
  then have "\<forall>r \<in> set (vs (hm_values ?inc)). addr_ok r"
    using addr collect_incoming_entry by (force simp: hm_values_def)
  then obtain m2 ws2 where m2: "fold_outcome (register_one mur) (vs (hm_values ?inc)) (m1, ws) = Returns (m2, ws2)"
    "mesh_wf mur (m2, ws2)" "mesh_view m2 = mesh_view m1
      ++ map_of (rev (map (\<lambda>r. ((service r, instance_id r), (address r, rec_target r))) (vs (hm_values ?inc))))"
    using mesh_dir.put_all [OF m1(2)] by fastforce
  have "mesh_view m2 = mesh_view m1 ++ snapshot_view records"
    unfolding m2(3) using values_view [of "vs (hm_values ?inc)"] vs by simp
  moreover have "mesh_view m1 (s, i) = None" if "hm_get ?inc (s, i) = None" for s i
    using that ss unfolding m1(3) by (auto simp: mesh_view_def split: option.splits)
  then have "snapshot_view records k = None \<Longrightarrow> mesh_view m1 k = None" for k
    by (cases k) (simp add: snapshot_view_incoming)
  ultimately have "mesh_view m2 = snapshot_view records"
    by (auto simp: fun_eq_iff map_add_def split: option.split)
  then show ?thesis
    using m1(1) m2(1,2) mesh_services [OF m2(2)] by (simp add: apply_snapshot_diff_def snapshot_dom)
qed

section \<open>Properties\<close>

text \<open>C14. Applying a snapshot makes the contents of the mesh exactly the snapshot, whatever order the
  hash maps are iterated in: every instance the snapshot has is routed at its new address and target
  (the last record of an instance wins), every other instance is gone, services left without an
  instance disappear from \<open>services\<close>, the roster invariants hold again, and nothing panics as long as
  the addresses parse.\<close>

theorem apply_snapshot_diff_contents:
  assumes wf: "mesh_wf mur (mesh, ws)" and addr: "\<forall>r \<in> set records. addr_ok r"
    and ks: "\<forall>xs. mset (ks xs) = mset xs" and vs: "\<forall>xs. mset (vs xs) = mset xs"
  shows "\<exists>mesh' ws'. apply_snapshot_diff mur ks vs records (mesh, ws) = Returns (mesh', ws')
    \<and> mesh_wf mur (mesh', ws') \<and> mesh_view mesh' = snapshot_view records
    \<and> services mesh' = sorted_list_of_set (service ` set records)"
  using assms by (rule apply_snapshot_ok)

definition demo_record :: "string \<Rightarrow> ServiceRecord" where
  "demo_record i = \<lparr>service = ''orders'', instance_id = i, address = ''h:1'', rec_target = i, registered_at = 5\<rparr>"

lemma demo_record_ok: "addr_ok (demo_record i)"
  by (simp add: addr_ok_def record_member_def demo_record_def demo_ring_node)

theorem apply_snapshot_diff_contents_witness:
  "\<exists>mesh' ws' :: u8 writers. apply_snapshot_diff demo_mur rev rev [demo_record ''a'', demo_record ''b''] (mesh_new, []) = Returns (mesh', ws')
    \<and> mesh_view mesh' = snapshot_view [demo_record ''a'', demo_record ''b'']"
  using apply_snapshot_diff_contents [OF mesh_wf_new, of "[demo_record ''a'', demo_record ''b'']" rev rev demo_mur "[] :: u8 writers"]
    demo_record_ok by auto

text \<open>C37. \<open>register\<close> is an upsert and \<open>deregister\<close> undoes it. On every consistent mesh, registering a
  record whose address parses changes the contents at its service and instance only and returns the
  record it displaced, with the old address and target; deregistering it then restores the contents
  without that instance and returns the new record's coordinates.\<close>

theorem register_deregister_contents:
  assumes wf: "mesh_wf mur (mesh, ws)" and ok: "addr_ok r"
  shows "\<exists>d mesh' ws'. mesh_register mur r mesh ws = Returns (d, mesh', ws')
    \<and> map_option (\<lambda>p. (service p, instance_id p, address p, rec_target p)) d
        = map_option (\<lambda>(a, t). (service r, instance_id r, a, t)) (mesh_view mesh (service r, instance_id r))
    \<and> mesh_view mesh' = (mesh_view mesh)((service r, instance_id r) \<mapsto> (address r, rec_target r))
    \<and> (\<exists>mesh''. mesh_deregister mur (service r) (instance_id r) mesh' = Returns (Some (r\<lparr>registered_at := 0\<rparr>), mesh'')
        \<and> mesh_view mesh'' = (mesh_view mesh)((service r, instance_id r) := None)
        \<and> mesh_wf mur (mesh'', ws'))"
proof (rule mesh_register_ok [OF wf ok])
  fix mesh' ws'
  assume reg: "mesh_register mur r mesh ws
      = Returns (map_option (\<lambda>(a, t). \<lparr>service = service r, instance_id = instance_id r, address = a,
          rec_target = t, registered_at = 0\<rparr>) (mesh_view mesh (service r, instance_id r)), mesh', ws')"
    and wf': "mesh_wf mur (mesh', ws')"
    and view: "mesh_view mesh' = (mesh_view mesh)((service r, instance_id r) \<mapsto> (address r, rec_target r))"
  have rec: "\<lparr>service = service r, instance_id = instance_id r, address = address r, rec_target = rec_target r, registered_at = 0\<rparr>
      = r\<lparr>registered_at := 0\<rparr>" by (cases r) simp
  obtain mesh'' where "mesh_deregister mur (service r) (instance_id r) mesh' = Returns (Some (r\<lparr>registered_at := 0\<rparr>), mesh'')"
    "mesh_wf mur (mesh'', ws')" "mesh_view mesh'' = (mesh_view mesh')((service r, instance_id r) := None)"
    by (rule mesh_deregister_ok [OF wf', of "service r" "instance_id r"]) (simp add: view rec)
  then show ?thesis using reg view
    by (cases "mesh_view mesh (service r, instance_id r)") auto
qed

theorem register_deregister_contents_witness:
  "\<exists>mesh' (ws' :: u8 writers) mesh''. mesh_register demo_mur (demo_record ''a'') mesh_new [] = Returns (None, mesh', ws')
    \<and> mesh_view mesh' = (mesh_view mesh_new)((''orders'', ''a'') \<mapsto> (''h:1'', ''a''))
    \<and> mesh_deregister demo_mur ''orders'' ''a'' mesh' = Returns (Some ((demo_record ''a'')\<lparr>registered_at := 0\<rparr>), mesh'')"
proof -
  have "mesh_view mesh_new k = None" for k by (simp add: mesh_view_def mesh_new_def hm.get_empty split: prod.split)
  with register_deregister_contents [OF mesh_wf_new [of demo_mur "[] :: u8 writers"] demo_record_ok [of "''a''"]]
  show ?thesis by (fastforce simp: demo_record_def)
qed

lemma invoke_selected:
  assumes wf: "mesh_wf mur (mesh, ws)" and rg: "mesh_ring s mesh = Some rg" and n: "get_node mur key rg = Some n"
  obtains a t w where "mesh_view mesh (s, nid n) = Some (a, t)" "w < length ws" "w_addr (ws ! w) = a" "w_target (ws ! w) = t"
    "invoke mur s key m mesh ws = Returns (if w_done (ws ! w) then Some (Inl channel_closed_error, ws)
       else if queue_full (ws ! w) then None else Some (Inr (), ws[w := offered m (ws ! w)]))"
proof -
  obtain route where route: "hm_get (routes mesh) s = Some route" and cl: "rg = cluster_ring (cluster route)"
    using rg by (auto simp: mesh_ring_def)
  have cwf: "cluster_wf mur (cluster route)" and ok: "refs_ok (cluster route) ws"
    using mesh_wfD(2) [OF wf route] by (auto simp: cluster_inv_def)
  show thesis
  proof (rule ref_for_key_member [OF cwf ok n [unfolded cl]])
    fix r q assume r: "ref_for_key mur key (cluster route) = Returns (Some r)" "q \<in> set (members (cluster route))" "name q = nid n"
      "ref_writer r < length ws" "w_addr (ws ! ref_writer r) = node_addr q" "w_target (ws ! ref_writer r) = member_target q"
    then have "mesh_view mesh (s, nid n) = Some (node_addr q, member_target q)"
      by (auto simp: mesh_view_def route cluster_view_Some [OF cwf])
    then show thesis using r
      by (intro that [of "node_addr q" "member_target q" "ref_writer r"])
        (simp_all add: invoke_def route_of_def route send_by_key_def remote_send_spec offered_def queue_full_def sent_result_def)
  qed
qed

lemma invoke_unrouted:
  assumes wf: "mesh_wf mur (mesh, ws)"
  shows "s \<notin> fst ` dom (mesh_view mesh) \<Longrightarrow>
      invoke mur s key m mesh ws = Returns (Some (Inl (IoError NotFound (''unknown service: '' @ s)), ws))"
    and "mesh_ring s mesh = Some rg \<Longrightarrow> get_node mur key rg = None \<Longrightarrow>
      invoke mur s key m mesh ws = Returns (Some (Inl no_members, ws))"
proof -
  show "invoke mur s key m mesh ws = Returns (Some (Inl (IoError NotFound (''unknown service: '' @ s)), ws))" if "s \<notin> fst ` dom (mesh_view mesh)"
  proof (cases "hm_get (routes mesh) s")
    case (Some route)
    have "cluster_view (cluster route) \<noteq> Map.empty" using mesh_wfD(3) [OF wf Some] by (simp add: cluster_view_empty)
    then obtain i where "mesh_view mesh (s, i) \<noteq> None" by (auto simp: mesh_view_def Some fun_eq_iff)
    then have "s \<in> fst ` dom (mesh_view mesh)" by (force simp: dom_def)
    with that show ?thesis by blast
  qed (simp add: invoke_def route_of_def)
  show "invoke mur s key m mesh ws = Returns (Some (Inl no_members, ws))" if "mesh_ring s mesh = Some rg" "get_node mur key rg = None"
    using that by (auto simp: mesh_ring_def invoke_def route_of_def send_by_key_def ref_for_key_def)
qed

text \<open>C25. \<open>invoke\<close> on a consistent mesh never panics. A service without instances is the \<open>NotFound\<close>
  error and sends nothing. Otherwise the message goes to the writer of the very instance the hash ring
  selects, connected to that instance's registered address with its registered frame target: it joins
  that writer's queue once, or waits while that queue is full, or is refused when the writer has stopped;
  no other writer changes.\<close>

theorem invoke_reaches_instance:
  assumes wf: "mesh_wf mur (mesh, ws)"
  shows "(s \<notin> fst ` dom (mesh_view mesh) \<longrightarrow>
      invoke mur s key m mesh ws = Returns (Some (Inl (IoError NotFound (''unknown service: '' @ s)), ws)))
    \<and> (\<forall>ring n. mesh_ring s mesh = Some ring \<and> get_node mur key ring = Some n \<longrightarrow>
        (\<exists>a t w. mesh_view mesh (s, nid n) = Some (a, t) \<and> w < length ws \<and> w_addr (ws ! w) = a \<and> w_target (ws ! w) = t
          \<and> invoke mur s key m mesh ws
              = Returns (if w_done (ws ! w) then Some (Inl channel_closed_error, ws)
                  else if queue_full (ws ! w) then None else Some (Inr (), ws[w := offered m (ws ! w)]))))
    \<and> (\<forall>ring. mesh_ring s mesh = Some ring \<and> get_node mur key ring = None \<longrightarrow>
        invoke mur s key m mesh ws = Returns (Some (Inl no_members, ws)))"
proof (intro conjI allI impI; (elim conjE)?)
  fix rg n assume "mesh_ring s mesh = Some rg" "get_node mur key rg = Some n"
  then show "\<exists>a t w. mesh_view mesh (s, nid n) = Some (a, t) \<and> w < length ws \<and> w_addr (ws ! w) = a \<and> w_target (ws ! w) = t
          \<and> invoke mur s key m mesh ws
              = Returns (if w_done (ws ! w) then Some (Inl channel_closed_error, ws)
                  else if queue_full (ws ! w) then None else Some (Inr (), ws[w := offered m (ws ! w)]))"
    by (rule invoke_selected [OF wf]) blast
qed (simp_all add: invoke_unrouted [OF wf])

theorem invoke_reaches_instance_witness:
  "invoke demo_mur ''orders'' (str_hash ''k'') (1 :: u8) mesh_new []
     = Returns (Some (Inl (IoError NotFound (''unknown service: '' @ ''orders'')), []))"
proof -
  have "''orders'' \<notin> fst ` dom (mesh_view mesh_new)"
    by (auto simp: mesh_new_def mesh_view_def hm.get_empty)
  then show ?thesis
    using invoke_reaches_instance [OF mesh_wf_new, of "''orders''" demo_mur "str_hash ''k''" "1 :: u8" "[]"] by blast
qed

end
