(* ===== verification/Tls.thy ===== *)
theory Tls
  imports Prelude
begin

text \<open>
  \<open>src/tls.rs\<close>: the stream that is either plain TCP or TLS, connecting and accepting with optional
  TLS, and the configuration built from PEM files. Tokio's sockets, \<open>rustls\<close>, \<open>rustls_pemfile\<close> and
  the file system are not part of the crate: they are the fields of \<open>tls_net\<close> and \<open>pem_lib\<close>, used
  as the code uses them. Shown: a configured TLS endpoint is never downgraded to plain TCP, the
  server name checked is the host part of the address, which key and client identity the
  configuration builders select, and that the crypto provider is installed once.
\<close>

section \<open>Streams\<close>

datatype ('c, 's) TlsStream = Client 'c | Server 's

datatype ('tcp, 'c, 's) MaybeTlsStream = Plain 'tcp | Tls "('c, 's) TlsStream"

text \<open>The four \<open>poll\<close> functions delegate to the stream inside; the operation is a parameter, since
  each stream type has its own.\<close>

fun poll_stream ::
  "('tcp \<Rightarrow> 'p) \<Rightarrow> ('c \<Rightarrow> 'p) \<Rightarrow> ('s \<Rightarrow> 'p) \<Rightarrow> ('tcp, 'c, 's) MaybeTlsStream \<Rightarrow> 'p" where
  "poll_stream plain client server (Plain s) = plain s"
| "poll_stream plain client server (Tls (Client s)) = client s"
| "poll_stream plain client server (Tls (Server s)) = server s"

definition host_from_addr :: "string \<Rightarrow> string io_result" where
  "host_from_addr addr =
     (case rsplit_once (CHR '':'') addr of
        Some (host, _) \<Rightarrow> Inr host
      | None \<Rightarrow> Inl (IoError InvalidInput (''missing port in '' @ debug_str addr)))"

section \<open>Connecting and accepting\<close>

record ('tcp, 'name, 'con, 'c, 'acc, 's) tls_net =
  tcp_connect :: "string \<Rightarrow> 'tcp io_result"
  server_name :: "string \<Rightarrow> string + 'name"              \<comment> \<open>\<open>ServerName::try_from\<close>\<close>
  connector_connect :: "'con \<Rightarrow> 'name \<Rightarrow> 'tcp \<Rightarrow> 'c io_result"
  acceptor_accept :: "'acc \<Rightarrow> 'tcp \<Rightarrow> 's io_result"

definition connect ::
  "('tcp, 'name, 'con, 'c, 'acc, 's) tls_net \<Rightarrow> string \<Rightarrow> 'con option
     \<Rightarrow> ('tcp, 'c, 's) MaybeTlsStream io_result" where
  "connect net addr connector =
     (case tcp_connect net addr of
        Inl e \<Rightarrow> Inl e
      | Inr tcp \<Rightarrow>
          (case connector of
             None \<Rightarrow> Inr (Plain tcp)
           | Some con \<Rightarrow>
               (case host_from_addr addr of
                  Inl e \<Rightarrow> Inl e
                | Inr host \<Rightarrow>
                    (case server_name net host of
                       Inl e \<Rightarrow> Inl (IoError InvalidInput (''invalid TLS server name: '' @ e))
                     | Inr nm \<Rightarrow>
                         (case connector_connect net con nm tcp of
                            Inl e \<Rightarrow> Inl e
                          | Inr tls \<Rightarrow> Inr (Tls (Client tls)))))))"

definition accept ::
  "('tcp, 'name, 'con, 'c, 'acc, 's) tls_net \<Rightarrow> 'tcp \<Rightarrow> 'acc option
     \<Rightarrow> ('tcp, 'c, 's) MaybeTlsStream io_result" where
  "accept net stream acceptor =
     (case acceptor of
        None \<Rightarrow> Inr (Plain stream)
      | Some acc \<Rightarrow>
          (case acceptor_accept net acc stream of
             Inl e \<Rightarrow> Inl e
           | Inr tls \<Rightarrow> Inr (Tls (Server tls))))"

section \<open>Configuration from PEM files\<close>

text \<open>\<open>ensure_crypto_provider\<close>: the static \<open>Once\<close> beside the process-wide default provider of \<open>rustls\<close>.
  \<open>install\<close> is \<open>default_provider().install_default()\<close>, whose result the code ignores.\<close>

record 'g crypto =
  init_done :: bool
  provider :: 'g

definition ensure_crypto_provider :: "('g \<Rightarrow> (string + unit) \<times> 'g) \<Rightarrow> 'g crypto \<Rightarrow> 'g crypto" where
  "ensure_crypto_provider install g =
     (if init_done g then g else \<lparr>init_done = True, provider = snd (install (provider g))\<rparr>)"

datatype ('k8, 'k1) PrivateKeyDer = Pkcs8 'k8 | Pkcs1 'k1

record ('file, 'cert, 'k8, 'k1, 'store, 'ver, 'scfg, 'ccfg) pem_lib =
  file_open :: "string \<Rightarrow> 'file io_result"
  certs :: "'file \<Rightarrow> (io_error + 'cert) list"
  pkcs8_private_keys :: "'file \<Rightarrow> (io_error + 'k8) list"
  rsa_private_keys :: "'file \<Rightarrow> (io_error + 'k1) list"
  empty_store :: 'store
  store_add :: "'cert \<Rightarrow> 'store \<Rightarrow> string + 'store"
  extend_webpki_roots :: "'store \<Rightarrow> 'store"
  build_verifier :: "'store \<Rightarrow> string + 'ver"            \<comment> \<open>\<open>WebPkiClientVerifier\<close>\<close>
  with_single_cert :: "'ver option \<Rightarrow> 'cert list \<Rightarrow> ('k8, 'k1) PrivateKeyDer \<Rightarrow> string + 'scfg"
  with_client_auth_cert :: "'store \<Rightarrow> 'cert list \<Rightarrow> ('k8, 'k1) PrivateKeyDer \<Rightarrow> string + 'ccfg"
  with_no_client_auth :: "'store \<Rightarrow> 'ccfg"

text \<open>\<open>io::Error::new(InvalidData, e)\<close>.\<close>

definition invalid_data :: "string \<Rightarrow> io_error" where
  "invalid_data e = IoError InvalidData e"

text \<open>\<open>collect::<Result<Vec<_>, _>>()\<close>: the first error, or all values.\<close>

fun collect_result :: "('e + 'a) list \<Rightarrow> 'e + 'a list" where
  "collect_result [] = Inr []"
| "collect_result (Inl e # xs) = Inl e"
| "collect_result (Inr x # xs) = (case collect_result xs of Inl e \<Rightarrow> Inl e | Inr ys \<Rightarrow> Inr (x # ys))"

definition load_certs ::
  "('file, 'cert, 'k8, 'k1, 'store, 'ver, 'scfg, 'ccfg) pem_lib \<Rightarrow> string \<Rightarrow> 'cert list io_result" where
  "load_certs lib path =
     (case file_open lib path of
        Inl e \<Rightarrow> Inl e
      | Inr file \<Rightarrow>
          (case collect_result (certs lib file) of
             Inl e \<Rightarrow> Inl (invalid_data (msg e))
           | Inr cs \<Rightarrow> Inr cs))"

text \<open>\<open>iter.next().transpose()\<close>.\<close>

fun next_transposed :: "('e + 'a) list \<Rightarrow> 'e + 'a option" where
  "next_transposed [] = Inr None"
| "next_transposed (Inl e # _) = Inl e"
| "next_transposed (Inr x # _) = Inr (Some x)"

definition load_private_key ::
  "('file, 'cert, 'k8, 'k1, 'store, 'ver, 'scfg, 'ccfg) pem_lib \<Rightarrow> string \<Rightarrow> ('k8, 'k1) PrivateKeyDer io_result" where
  "load_private_key lib path =
     (case file_open lib path of
        Inl e \<Rightarrow> Inl e
      | Inr file \<Rightarrow>
          (case next_transposed (pkcs8_private_keys lib file) of
             Inl e \<Rightarrow> Inl (invalid_data (msg e))
           | Inr (Some key) \<Rightarrow> Inr (Pkcs8 key)
           | Inr None \<Rightarrow>
               (case file_open lib path of
                  Inl e \<Rightarrow> Inl e
                | Inr file2 \<Rightarrow>
                    (case next_transposed (rsa_private_keys lib file2) of
                       Inl e \<Rightarrow> Inl (invalid_data (msg e))
                     | Inr (Some key) \<Rightarrow> Inr (Pkcs1 key)
                     | Inr None \<Rightarrow> Inl (invalid_data ''no private key found in PEM file'')))))"

text \<open>The loop that adds the certificates of a file to a store.\<close>

fun add_certs ::
  "('file, 'cert, 'k8, 'k1, 'store, 'ver, 'scfg, 'ccfg) pem_lib \<Rightarrow> 'cert list \<Rightarrow> 'store \<Rightarrow> 'store io_result" where
  "add_certs lib [] roots = Inr roots"
| "add_certs lib (c # cs) roots =
     (case store_add lib c roots of
        Inl e \<Rightarrow> Inl (invalid_data (''invalid CA cert: '' @ e))
      | Inr roots' \<Rightarrow> add_certs lib cs roots')"

definition load_ca_store ::
  "('file, 'cert, 'k8, 'k1, 'store, 'ver, 'scfg, 'ccfg) pem_lib \<Rightarrow> string \<Rightarrow> 'store io_result" where
  "load_ca_store lib path =
     (case load_certs lib path of Inl e \<Rightarrow> Inl e | Inr cs \<Rightarrow> add_certs lib cs (empty_store lib))"

definition root_store_from_optional_ca ::
  "('file, 'cert, 'k8, 'k1, 'store, 'ver, 'scfg, 'ccfg) pem_lib \<Rightarrow> string option \<Rightarrow> 'store io_result" where
  "root_store_from_optional_ca lib ca_path =
     (case ca_path of
        Some path \<Rightarrow>
          (case load_certs lib path of Inl e \<Rightarrow> Inl e | Inr cs \<Rightarrow> add_certs lib cs (empty_store lib))
      | None \<Rightarrow> Inr (extend_webpki_roots lib (empty_store lib)))"

definition map_invalid :: "string + 'a \<Rightarrow> 'a io_result" where
  "map_invalid r = (case r of Inl e \<Rightarrow> Inl (invalid_data e) | Inr x \<Rightarrow> Inr x)"

definition server_config_from_pem ::
  "('g \<Rightarrow> (string + unit) \<times> 'g) \<Rightarrow> ('file, 'cert, 'k8, 'k1, 'store, 'ver, 'scfg, 'ccfg) pem_lib \<Rightarrow> string \<Rightarrow> string
     \<Rightarrow> string option \<Rightarrow> 'g crypto \<Rightarrow> 'scfg io_result \<times> 'g crypto" where
  "server_config_from_pem install lib cert_path key_path client_ca_path g =
     (case load_certs lib cert_path of
        Inl e \<Rightarrow> Inl e
      | Inr cert_chain \<Rightarrow>
          (case load_private_key lib key_path of
             Inl e \<Rightarrow> Inl e
           | Inr key \<Rightarrow>
               (case client_ca_path of
                  Some ca_path \<Rightarrow>
                    (case load_ca_store lib ca_path of
                       Inl e \<Rightarrow> Inl e
                     | Inr roots \<Rightarrow>
                         (case map_invalid (build_verifier lib roots) of
                            Inl e \<Rightarrow> Inl e
                          | Inr v \<Rightarrow> map_invalid (with_single_cert lib (Some v) cert_chain key)))
                | None \<Rightarrow> map_invalid (with_single_cert lib None cert_chain key))),
      ensure_crypto_provider install g)"

definition client_config_from_pem ::
  "('g \<Rightarrow> (string + unit) \<times> 'g) \<Rightarrow> ('file, 'cert, 'k8, 'k1, 'store, 'ver, 'scfg, 'ccfg) pem_lib \<Rightarrow> string option \<Rightarrow> string option
     \<Rightarrow> string option \<Rightarrow> 'g crypto \<Rightarrow> 'ccfg io_result \<times> 'g crypto" where
  "client_config_from_pem install lib ca_path client_cert_path client_key_path g =
     (case root_store_from_optional_ca lib ca_path of
        Inl e \<Rightarrow> Inl e
      | Inr root_store \<Rightarrow>
          (case (client_cert_path, client_key_path) of
             (Some cert_path, Some key_path) \<Rightarrow>
               (case load_certs lib cert_path of
                  Inl e \<Rightarrow> Inl e
                | Inr chain \<Rightarrow>
                    (case load_private_key lib key_path of
                       Inl e \<Rightarrow> Inl e
                     | Inr key \<Rightarrow> map_invalid (with_client_auth_cert lib root_store chain key)))
           | _ \<Rightarrow> Inr (with_no_client_auth lib root_store)),
      ensure_crypto_provider install g)"

text \<open>\<open>TlsAcceptor::from(Arc::new(config))\<close> and its client twin; the conversions are those of \<open>tokio-rustls\<close>.\<close>

definition build_acceptor :: "('scfg \<Rightarrow> 'acc) \<Rightarrow> 'scfg \<Rightarrow> 'acc" where
  "build_acceptor acceptor_from config = acceptor_from config"

definition build_connector :: "('ccfg \<Rightarrow> 'con) \<Rightarrow> 'ccfg \<Rightarrow> 'con" where
  "build_connector connector_from config = connector_from config"

section \<open>Properties\<close>

text \<open>C39. TLS is never silently downgraded. With a connector, \<open>connect\<close> yields a TLS client stream
  whose handshake ran on the TCP connection to the address with the server name of exactly the host
  part before the last colon, or an error; with an acceptor, \<open>accept\<close> yields a TLS server stream or an
  error; plain streams come only from endpoints configured without TLS.\<close>

theorem tls_not_downgraded:
  "(connect net addr (Some con) = Inr st \<longrightarrow>
      (\<exists>host port nm tcp tls. st = Tls (Client tls) \<and> addr = host @ CHR '':'' # port \<and> CHR '':'' \<notin> set port
        \<and> tcp_connect net addr = Inr tcp \<and> server_name net host = Inr nm \<and> connector_connect net con nm tcp = Inr tls))
   \<and> (accept net tcp (Some acc) = Inr st \<longrightarrow> (\<exists>tls. st = Tls (Server tls) \<and> acceptor_accept net acc tcp = Inr tls))
   \<and> (connect net addr oc = Inr (Plain tcp) \<longrightarrow> oc = None) \<and> (accept net tcp oa = Inr (Plain tcp') \<longrightarrow> oa = None \<and> tcp' = tcp)"
  by (auto simp: connect_def accept_def host_from_addr_def
      dest!: rsplit_once_Some split: sum.splits option.splits)

definition demo_net :: "(nat, nat, nat, nat, nat, nat) tls_net" where
  "demo_net = \<lparr>tcp_connect = (\<lambda>_. Inr 1), server_name = (\<lambda>h. if h = [] then Inl ''empty'' else Inr 2),
     connector_connect = (\<lambda>_ _ tcp. Inr tcp), acceptor_accept = (\<lambda>_ tcp. Inr tcp)\<rparr>"

theorem tls_not_downgraded_witness:
  "connect demo_net ''h:1'' (Some 0) = Inr (Tls (Client 1))
   \<and> (\<exists>host port. ''h:1'' = host @ CHR '':'' # port \<and> CHR '':'' \<notin> set port)"
proof -
  have c: "connect demo_net ''h:1'' (Some 0) = Inr (Tls (Client 1))"
    by (simp add: connect_def demo_net_def host_from_addr_def rsplit_once_def)
  from tls_not_downgraded [THEN conjunct1, THEN mp, OF c] c show ?thesis by metis
qed

lemma ensure_once:
  "ensure_crypto_provider install' (ensure_crypto_provider install g) = ensure_crypto_provider install g"
  by (simp add: ensure_crypto_provider_def)

lemma config_installs:
  "snd (client_config_from_pem install lib ca cp kp g) = ensure_crypto_provider install g"
  "snd (server_config_from_pem install lib cert key oca g) = ensure_crypto_provider install g"
  by (simp_all add: client_config_from_pem_def server_config_from_pem_def)

text \<open>The key loader returns the first PKCS#8 key of the file if there is one and otherwise the
  first PKCS#1 key, and a client presents an identity exactly when both a certificate and a key path
  are given: with only one of them the configuration is the anonymous one, and neither file is read.
  The default crypto provider is in place after either builder, whatever its result, and however many
  configurations are built, by clients and servers alike, it is installed once.\<close>

theorem client_identity_needs_both:
  "(file_open lib path = Inr f \<longrightarrow> load_private_key lib path =
      (case pkcs8_private_keys lib f of
         Inl e # _ \<Rightarrow> Inl (IoError InvalidData (msg e))
       | Inr k # _ \<Rightarrow> Inr (Pkcs8 k)
       | [] \<Rightarrow> (case rsa_private_keys lib f of
                 Inl e # _ \<Rightarrow> Inl (IoError InvalidData (msg e))
               | Inr k # _ \<Rightarrow> Inr (Pkcs1 k)
               | [] \<Rightarrow> Inl (IoError InvalidData ''no private key found in PEM file''))))
   \<and> (cp = None \<or> kp = None \<longrightarrow> fst (client_config_from_pem install lib ca cp kp g) =
        (case root_store_from_optional_ca lib ca of Inl e \<Rightarrow> Inl e | Inr roots \<Rightarrow> Inr (with_no_client_auth lib roots)))
   \<and> provider (snd (client_config_from_pem install lib ca cp kp \<lparr>init_done = False, provider = p\<rparr>)) = snd (install p)
   \<and> snd (server_config_from_pem install lib cert key oca (snd (client_config_from_pem install lib ca cp kp g)))
       = snd (client_config_from_pem install lib ca cp kp g)
   \<and> snd (client_config_from_pem install lib ca cp kp (snd (server_config_from_pem install lib cert key oca g)))
       = snd (server_config_from_pem install lib cert key oca g)"
proof -
  have "file_open lib path = Inr f \<Longrightarrow> load_private_key lib path =
      (case pkcs8_private_keys lib f of
         Inl e # _ \<Rightarrow> Inl (IoError InvalidData (msg e))
       | Inr k # _ \<Rightarrow> Inr (Pkcs8 k)
       | [] \<Rightarrow> (case rsa_private_keys lib f of
                 Inl e # _ \<Rightarrow> Inl (IoError InvalidData (msg e))
               | Inr k # _ \<Rightarrow> Inr (Pkcs1 k)
               | [] \<Rightarrow> Inl (IoError InvalidData ''no private key found in PEM file'')))"
    by (auto simp: load_private_key_def invalid_data_def split: list.splits sum.splits option.splits)
  moreover have "cp = None \<or> kp = None \<Longrightarrow> fst (client_config_from_pem install lib ca cp kp g) =
        (case root_store_from_optional_ca lib ca of Inl e \<Rightarrow> Inl e | Inr roots \<Rightarrow> Inr (with_no_client_auth lib roots))"
    by (auto simp: client_config_from_pem_def split: sum.splits option.splits)
  ultimately show ?thesis
    by (simp add: config_installs ensure_once) (simp add: ensure_crypto_provider_def)
qed

definition demo_pem :: "(nat, nat, nat, nat, nat list, nat, nat, nat list) pem_lib" where
  "demo_pem = \<lparr>file_open = (\<lambda>_. Inr 0), certs = (\<lambda>_. [Inr 1]), pkcs8_private_keys = (\<lambda>_. []),
     rsa_private_keys = (\<lambda>_. [Inr 5]), empty_store = [], store_add = (\<lambda>c s. Inr (c # s)),
     extend_webpki_roots = (\<lambda>s. 9 # s), build_verifier = (\<lambda>s. Inr 0), with_single_cert = (\<lambda>_ _ _. Inr 0),
     with_client_auth_cert = (\<lambda>s _ _. Inr s), with_no_client_auth = (\<lambda>s. s)\<rparr>"

theorem client_identity_needs_both_witness:
  "load_private_key demo_pem ''key.pem'' = Inr (Pkcs1 5)
   \<and> fst (client_config_from_pem (\<lambda>p. (Inr (), Suc p)) demo_pem None (Some ''cert.pem'') None \<lparr>init_done = False, provider = 0\<rparr>)
       = Inr [9]"
  using client_identity_needs_both [of demo_pem "''key.pem''" 0 "Some ''cert.pem''" None "\<lambda>p. (Inr (), Suc p)" None
      "\<lparr>init_done = False, provider = 0\<rparr>"]
  by (simp add: demo_pem_def root_store_from_optional_ca_def)

end
