(* ===== verification/Mesh_Control.thy ===== *)
theory Mesh_Control
  imports Mesh Tls
begin

text \<open>
  The TCP control plane of \<open>src/mesh.rs\<close>: the registry of leased records, the control protocol
  (length-prefixed JSON), the server's connection handler, the client with its cached connection,
  and the router. The wall clock is a parameter of each call; the JSON encoder is the record
  \<open>ctl_codec\<close>. A client call talks to a peer, a function that reacts to the bytes written on the
  connection; \<open>registry_peer\<close> is the registry's own handler in that role.
\<close>

section \<open>Records and leases\<close>

definition MAX_CONTROL_FRAME :: u32 where
  "MAX_CONTROL_FRAME = 64 * 1024"

definition CONTROL_READ_TIMEOUT :: duration where
  "CONTROL_READ_TIMEOUT = secs 30"

definition DEFAULT_RECORD_TTL :: duration where
  "DEFAULT_RECORD_TTL = secs 30"

definition EVICTION_INTERVAL :: duration where
  "EVICTION_INTERVAL = secs 5"

text \<open>\<open>unix_now\<close>: whole seconds since the epoch, 0 when the clock is before it; \<open>clock\<close> is the
  signed distance of \<open>SystemTime::now()\<close> from the epoch in nanoseconds.\<close>

definition unix_now :: "int \<Rightarrow> u64" where
  "unix_now clock = (if clock < 0 then 0 else of_nat (as_secs (nat clock)))"

definition record_expired :: "ServiceRecord \<Rightarrow> u64 \<Rightarrow> duration \<Rightarrow> bool" where
  "record_expired r now ttl =
     (let age = saturating_sub now (registered_at r) in as_secs ttl < unat age)"

record MeshRegistry =
  records :: "(string \<times> string, ServiceRecord) hashmap"
  ttl :: duration

definition with_ttl :: "duration \<Rightarrow> MeshRegistry" where
  "with_ttl d = \<lparr>records = [], ttl = d\<rparr>"

definition registry_new :: MeshRegistry where
  "registry_new = with_ttl DEFAULT_RECORD_TTL"

definition registry_default :: MeshRegistry where
  "registry_default = registry_new"

definition reg_register :: "u64 \<Rightarrow> ServiceRecord \<Rightarrow> MeshRegistry \<Rightarrow> MeshRegistry" where
  "reg_register now r reg =
     (let r = r\<lparr>registered_at := now\<rparr>; key = (service r, instance_id r)
      in reg\<lparr>records := hm_insert key r (records reg)\<rparr>)"

definition reg_deregister :: "string \<Rightarrow> string \<Rightarrow> MeshRegistry \<Rightarrow> ServiceRecord option \<times> MeshRegistry" where
  "reg_deregister s i reg =
     (hm_get (records reg) (s, i), reg\<lparr>records := hm_remove (s, i) (records reg)\<rparr>)"

text \<open>\<open>ord\<close> is the iteration order of the map.\<close>

definition reg_list ::
  "(ServiceRecord list \<Rightarrow> ServiceRecord list) \<Rightarrow> u64 \<Rightarrow> MeshRegistry \<Rightarrow> ServiceRecord list" where
  "reg_list ord now reg =
     filter (\<lambda>r. \<not> record_expired r now (ttl reg)) (ord (hm_values (records reg)))"

definition evict_expired :: "u64 \<Rightarrow> MeshRegistry \<Rightarrow> MeshRegistry" where
  "evict_expired now reg =
     reg\<lparr>records := filter (\<lambda>(_, r). \<not> record_expired r now (ttl reg)) (records reg)\<rparr>"

definition apply_to_mesh ::
  "murmur \<Rightarrow> (string list \<Rightarrow> string list) \<Rightarrow> (ServiceRecord list \<Rightarrow> ServiceRecord list) \<Rightarrow> u64 \<Rightarrow> MeshRegistry
     \<Rightarrow> ServiceMesh \<times> 'm writers \<Rightarrow> (ServiceMesh \<times> 'm writers) outcome" where
  "apply_to_mesh mur ks ord now reg st = apply_snapshot_diff mur ks ord (reg_list ord now reg) st"

section \<open>The control protocol\<close>

datatype MeshControlMsg =
    Register ServiceRecord | Deregister string string | List | ListReply "ServiceRecord list" | Ping | Pong

record ctl_codec =
  ctl_to_vec :: "MeshControlMsg \<Rightarrow> string + u8 list"
  ctl_from_slice :: "u8 list \<Rightarrow> string + MeshControlMsg"

definition ctl_codec_ok :: "ctl_codec \<Rightarrow> bool" where
  "ctl_codec_ok c \<longleftrightarrow> (\<forall>m b. ctl_to_vec c m = Inr b \<longrightarrow> b \<noteq> [] \<and> ctl_from_slice c b = Inr m)"

definition control_too_large :: "nat \<Rightarrow> io_error" where
  "control_too_large n = IoError InvalidData (''control frame too large: '' @ show_nat n @ '' bytes'')"

definition write_control :: "ctl_codec \<Rightarrow> MeshControlMsg \<Rightarrow> outstream \<Rightarrow> unit io_result \<times> outstream" where
  "write_control c m out =
     (case ctl_to_vec c m of
        Inl e \<Rightarrow> (Inl (IoError InvalidData e), out)
      | Inr body \<Rightarrow>
          (if unat MAX_CONTROL_FRAME < length body then (Inl (control_too_large (length body)), out)
           else case write_all (u32_to_le (of_nat (length body))) out of
                  (Inl e, out') \<Rightarrow> (Inl e, out')
                | (Inr _, out') \<Rightarrow> write_all body out'))"

definition read_control_len :: "instream \<Rightarrow> u32 option io_result \<times> instream" where
  "read_control_len s =
     (case read_u32_le s of
        (Ready (Inr n), s') \<Rightarrow>
          (if n = 0 then (Inr None, s')
           else if MAX_CONTROL_FRAME < n then (Inl (control_too_large (unat n)), s')
           else (Inr (Some n), s'))
      | (Ready (Inl e), s') \<Rightarrow>
          (if kind e = UnexpectedEof then (Inr None, s') else (Inl e, s'))
      | (Elapsed, s') \<Rightarrow> (Inl (IoError TimedOut ''control read timed out''), s'))"

definition read_control :: "ctl_codec \<Rightarrow> instream \<Rightarrow> MeshControlMsg option io_result \<times> instream" where
  "read_control c s =
     (case read_control_len s of
        (Inl e, s') \<Rightarrow> (Inl e, s')
      | (Inr None, s') \<Rightarrow> (Inr None, s')
      | (Inr (Some len), s') \<Rightarrow>
          (case read_exact (unat len) s' of
             (Elapsed, s'') \<Rightarrow> (Inl (IoError TimedOut ''control body read timed out''), s'')
           | (Ready (Inl e), s'') \<Rightarrow> (Inl e, s'')
           | (Ready (Inr body), s'') \<Rightarrow>
               (case ctl_from_slice c body of
                  Inl e \<Rightarrow> (Inl (IoError InvalidData e), s'')
                | Inr m \<Rightarrow> (Inr (Some m), s''))))"

section \<open>The registry server\<close>

record conn =
  c_out :: outstream
  c_in :: instream

text \<open>The server's reaction to one message: the reply, if any, and the new registry.\<close>

fun registry_handle ::
  "(ServiceRecord list \<Rightarrow> ServiceRecord list) \<Rightarrow> u64 \<Rightarrow> MeshControlMsg \<Rightarrow> MeshRegistry
     \<Rightarrow> MeshControlMsg option \<times> MeshRegistry" where
  "registry_handle ord now (Register r) reg = (Some Pong, reg_register now r reg)"
| "registry_handle ord now (Deregister s i) reg = (Some Pong, snd (reg_deregister s i reg))"
| "registry_handle ord now List reg = (Some (ListReply (reg_list ord now reg)), reg)"
| "registry_handle ord now Ping reg = (Some Pong, reg)"
| "registry_handle ord now Pong reg = (None, reg)"
| "registry_handle ord now (ListReply rs) reg = (None, reg)"

text \<open>Whether \<open>read_control\<close> waits on a silent peer: then the handler's own timeout, of the same
  length and started first, ends the read.\<close>

definition read_control_stalls :: "instream \<Rightarrow> bool" where
  "read_control_stalls s =
     (case read_u32_le s of
        (Elapsed, _) \<Rightarrow> True
      | (Ready (Inl _), _) \<Rightarrow> False
      | (Ready (Inr n), s') \<Rightarrow> n \<noteq> 0 \<and> n \<le> MAX_CONTROL_FRAME \<and> fst (read_exact (unat n) s') = Elapsed)"

text \<open>One turn of \<open>handle_registry_conn\<close>: \<open>Some r\<close> when the connection ends with result \<open>r\<close>.\<close>

definition registry_turn ::
  "ctl_codec \<Rightarrow> (ServiceRecord list \<Rightarrow> ServiceRecord list) \<Rightarrow> u64 \<Rightarrow> conn \<Rightarrow> MeshRegistry
     \<Rightarrow> unit io_result option \<times> conn \<times> MeshRegistry" where
  "registry_turn c ord now cn reg =
     (if read_control_stalls (c_in cn) then (Some (Inl (IoError TimedOut ''control read timed out'')), cn, reg)
      else case read_control c (c_in cn) of
             (Inl e, s) \<Rightarrow> (Some (Inl e), cn\<lparr>c_in := s\<rparr>, reg)
           | (Inr None, s) \<Rightarrow> (Some (Inr ()), cn\<lparr>c_in := s\<rparr>, reg)
           | (Inr (Some m), s) \<Rightarrow>
               (case registry_handle ord now m reg of
                  (None, reg') \<Rightarrow> (None, cn\<lparr>c_in := s\<rparr>, reg')
                | (Some reply, reg') \<Rightarrow>
                    (case write_control c reply (c_out cn) of
                       (Inl e, out) \<Rightarrow> (Some (Inl e), cn\<lparr>c_in := s, c_out := out\<rparr>, reg')
                     | (Inr _, out) \<Rightarrow> (None, cn\<lparr>c_in := s, c_out := out\<rparr>, reg'))))"

lemma read_control_len_consumes:
  "read_control_len s = (Inr (Some n), s') \<Longrightarrow>
   length (bytes s) = 4 + length (bytes s') \<and> n \<le> MAX_CONTROL_FRAME \<and> n \<noteq> 0"
  by (auto simp: read_control_len_def read_u32_le_def not_less
    dest!: read_exact_consumes split: prod.splits timed.splits sum.splits if_splits)

lemma read_control_consumes:
  "read_control c s = (Inr (Some m), s') \<Longrightarrow> length (bytes s') < length (bytes s)"
  by (auto simp: read_control_def dest!: read_control_len_consumes read_exact_consumes
    split: prod.splits timed.splits sum.splits option.splits)

lemma registry_turn_consumes:
  "registry_turn c ord now cn reg = (None, cn', reg') \<Longrightarrow> length (bytes (c_in cn')) < length (bytes (c_in cn))"
  by (auto simp: registry_turn_def dest!: read_control_consumes
    split: if_splits prod.splits sum.splits option.splits)

text \<open>The handler of one connection; \<open>clock k\<close> is the time at its \<open>k\<close>-th request.\<close>

function handle_registry_conn ::
  "ctl_codec \<Rightarrow> (ServiceRecord list \<Rightarrow> ServiceRecord list) \<Rightarrow> (nat \<Rightarrow> u64) \<Rightarrow> nat \<Rightarrow> conn \<Rightarrow> MeshRegistry
     \<Rightarrow> unit io_result \<times> conn \<times> MeshRegistry" where
  "handle_registry_conn c ord clock k cn reg =
     (case registry_turn c ord (clock k) cn reg of
        (Some r, cn', reg') \<Rightarrow> (r, cn', reg')
      | (None, cn', reg') \<Rightarrow> handle_registry_conn c ord clock (Suc k) cn' reg')"
  by pat_completeness auto

termination handle_registry_conn
  by (relation "measure (\<lambda>(c, ord, clock, k, cn, reg). length (bytes (c_in cn)))")
    (auto dest!: registry_turn_consumes [OF sym])

declare handle_registry_conn.simps [simp del]

section \<open>The registry client\<close>

type_synonym mstream = "(conn, conn, conn) MaybeTlsStream"

fun on_stream :: "(conn \<Rightarrow> 'a \<times> conn) \<Rightarrow> mstream \<Rightarrow> 'a \<times> mstream" where
  "on_stream f (Plain s) = (case f s of (x, s') \<Rightarrow> (x, Plain s'))"
| "on_stream f (Tls (Client s)) = (case f s of (x, s') \<Rightarrow> (x, Tls (Client s')))"
| "on_stream f (Tls (Server s)) = (case f s of (x, s') \<Rightarrow> (x, Tls (Server s')))"

definition conn_write :: "ctl_codec \<Rightarrow> MeshControlMsg \<Rightarrow> conn \<Rightarrow> unit io_result \<times> conn" where
  "conn_write c m cn = (case write_control c m (c_out cn) of (r, out) \<Rightarrow> (r, cn\<lparr>c_out := out\<rparr>))"

definition conn_read :: "ctl_codec \<Rightarrow> conn \<Rightarrow> MeshControlMsg option io_result \<times> conn" where
  "conn_read c cn = (case read_control c (c_in cn) of (r, s) \<Rightarrow> (r, cn\<lparr>c_in := s\<rparr>))"

record 'con MeshRegistryClient =
  registry_addr :: string
  stream :: "mstream option"
  client_tls :: "'con option"

definition client_new :: "string \<Rightarrow> 'con MeshRegistryClient" where
  "client_new addr = \<lparr>registry_addr = addr, stream = None, client_tls = None\<rparr>"

definition client_with_tls :: "string \<Rightarrow> 'con \<Rightarrow> 'con MeshRegistryClient" where
  "client_with_tls addr t = \<lparr>registry_addr = addr, stream = None, client_tls = Some t\<rparr>"

definition invalidate :: "'con MeshRegistryClient \<Rightarrow> 'con MeshRegistryClient" where
  "invalidate cl = cl\<lparr>stream := None\<rparr>"

type_synonym ('name, 'con, 'acc) ctl_net = "(conn, 'name, 'con, conn, 'acc, conn) tls_net"

definition client_conn ::
  "('name, 'con, 'acc) ctl_net \<Rightarrow> 'con MeshRegistryClient \<Rightarrow> mstream io_result \<times> 'con MeshRegistryClient" where
  "client_conn net cl =
     (case stream cl of
        Some s \<Rightarrow> (Inr s, cl)
      | None \<Rightarrow>
          (case connect net (registry_addr cl) (client_tls cl) of
             Inl e \<Rightarrow> (Inl e, cl)
           | Inr s \<Rightarrow> (Inr s, cl\<lparr>stream := Some s\<rparr>)))"

text \<open>The far end of a connection: it sees what was written and makes bytes readable.\<close>

type_synonym 'w peer = "conn \<Rightarrow> 'w \<Rightarrow> conn \<times> 'w"

definition registry_closed :: io_error where
  "registry_closed = IoError UnexpectedEof ''registry closed connection''"

definition request ::
  "('name, 'con, 'acc) ctl_net \<Rightarrow> ctl_codec \<Rightarrow> 'w peer \<Rightarrow> MeshControlMsg \<Rightarrow> 'con MeshRegistryClient \<Rightarrow> 'w
     \<Rightarrow> MeshControlMsg io_result \<times> 'con MeshRegistryClient \<times> 'w" where
  "request net c peer m cl w =
     (case client_conn net cl of
        (Inl e, cl1) \<Rightarrow> (Inl e, invalidate cl1, w)
      | (Inr s, cl1) \<Rightarrow>
          (case on_stream (conn_write c m) s of
             (Inl e, s1) \<Rightarrow> (Inl e, invalidate cl1, w)
           | (Inr _, s1) \<Rightarrow>
               (case on_stream (\<lambda>cn. case peer cn w of (cn', w') \<Rightarrow> (w', cn')) s1 of
                  (w', s2) \<Rightarrow>
                    (case on_stream (conn_read c) s2 of
                       (Inl e, s3) \<Rightarrow> (Inl e, invalidate cl1, w')
                     | (Inr None, s3) \<Rightarrow> (Inl registry_closed, invalidate cl1, w')
                     | (Inr (Some reply), s3) \<Rightarrow> (Inr reply, cl1\<lparr>stream := Some s3\<rparr>, w')))))"

definition unexpected_reply :: io_error where
  "unexpected_reply = IoError InvalidData ''unexpected registry reply''"

definition client_register ::
  "('name, 'con, 'acc) ctl_net \<Rightarrow> ctl_codec \<Rightarrow> 'w peer \<Rightarrow> ServiceRecord \<Rightarrow> 'con MeshRegistryClient \<Rightarrow> 'w
     \<Rightarrow> unit io_result \<times> 'con MeshRegistryClient \<times> 'w" where
  "client_register net c peer r cl w =
     (case request net c peer (Register r) cl w of
        (Inl e, st) \<Rightarrow> (Inl e, st)
      | (Inr Pong, st) \<Rightarrow> (Inr (), st)
      | (Inr _, st) \<Rightarrow> (Inl unexpected_reply, st))"

definition client_renew ::
  "('name, 'con, 'acc) ctl_net \<Rightarrow> ctl_codec \<Rightarrow> 'w peer \<Rightarrow> ServiceRecord \<Rightarrow> 'con MeshRegistryClient \<Rightarrow> 'w
     \<Rightarrow> unit io_result \<times> 'con MeshRegistryClient \<times> 'w" where
  "client_renew = client_register"

definition client_list ::
  "('name, 'con, 'acc) ctl_net \<Rightarrow> ctl_codec \<Rightarrow> 'w peer \<Rightarrow> 'con MeshRegistryClient \<Rightarrow> 'w
     \<Rightarrow> ServiceRecord list io_result \<times> 'con MeshRegistryClient \<times> 'w" where
  "client_list net c peer cl w =
     (case request net c peer List cl w of
        (Inl e, st) \<Rightarrow> (Inl e, st)
      | (Inr (ListReply rs), st) \<Rightarrow> (Inr rs, st)
      | (Inr _, st) \<Rightarrow> (Inl unexpected_reply, st))"

definition sync_mesh ::
  "('name, 'con, 'acc) ctl_net \<Rightarrow> ctl_codec \<Rightarrow> 'w peer \<Rightarrow> murmur \<Rightarrow> (string list \<Rightarrow> string list)
     \<Rightarrow> (ServiceRecord list \<Rightarrow> ServiceRecord list) \<Rightarrow> 'con MeshRegistryClient \<Rightarrow> 'w \<Rightarrow> ServiceMesh \<times> 'm writers
     \<Rightarrow> (unit io_result \<times> (ServiceMesh \<times> 'm writers) \<times> 'con MeshRegistryClient \<times> 'w) outcome" where
  "sync_mesh net c peer mur ks vs cl w mesh =
     (case client_list net c peer cl w of
        (Inl e, st) \<Rightarrow> Returns (Inl e, mesh, st)
      | (Inr rs, st) \<Rightarrow>
          (case apply_snapshot_diff mur ks vs rs mesh of
             Panics e \<Rightarrow> Panics e
           | Returns mesh' \<Rightarrow> Returns (Inr (), mesh', st)))"

section \<open>The router and joining\<close>

record 'con MeshRouter =
  mesh :: ServiceMesh
  client :: "'con MeshRegistryClient option"

definition router_local :: "'con MeshRouter" where
  "router_local = \<lparr>mesh = mesh_new, client = None\<rparr>"

definition with_registry :: "string \<Rightarrow> 'con MeshRouter" where
  "with_registry addr = \<lparr>mesh = mesh_new, client = Some (client_new addr)\<rparr>"

definition with_registry_tls :: "string \<Rightarrow> 'con \<Rightarrow> 'con MeshRouter" where
  "with_registry_tls addr t = \<lparr>mesh = mesh_new, client = Some (client_with_tls addr t)\<rparr>"

definition router_sync ::
  "('name, 'con, 'acc) ctl_net \<Rightarrow> ctl_codec \<Rightarrow> 'w peer \<Rightarrow> murmur \<Rightarrow> (string list \<Rightarrow> string list)
     \<Rightarrow> (ServiceRecord list \<Rightarrow> ServiceRecord list) \<Rightarrow> 'con MeshRouter \<Rightarrow> 'w \<Rightarrow> 'm writers
     \<Rightarrow> (unit io_result \<times> 'con MeshRouter \<times> 'w \<times> 'm writers) outcome" where
  "router_sync net c peer mur ks vs r w ws =
     (case client r of
        None \<Rightarrow> Returns (Inr (), r, w, ws)
      | Some cl \<Rightarrow>
          (case sync_mesh net c peer mur ks vs cl w (mesh r, ws) of
             Panics e \<Rightarrow> Panics e
           | Returns (res, (m, ws'), cl', w') \<Rightarrow> Returns (res, r\<lparr>mesh := m, client := Some cl'\<rparr>, w', ws')))"

definition router_invoke ::
  "murmur \<Rightarrow> string \<Rightarrow> (Murmur3Hasher \<Rightarrow> Murmur3Hasher) \<Rightarrow> 'm \<Rightarrow> 'con MeshRouter \<Rightarrow> 'm writers
     \<Rightarrow> (unit io_result \<times> 'm writers) option outcome" where
  "router_invoke mur s key m r ws = invoke mur s key m (mesh r) ws"

definition router_invoke_all ::
  "string \<Rightarrow> 'm \<Rightarrow> 'con MeshRouter \<Rightarrow> 'm writers
     \<Rightarrow> (string \<times> unit io_result) list \<times> (string \<times> RemoteActorRef) list \<times> 'm writers" where
  "router_invoke_all s m r ws = invoke_all s m (mesh r) ws"

text \<open>The handle of a served instance; the node it keeps alive is opaque here.\<close>

record 'node MicroserviceHandle =
  handle_record :: ServiceRecord
  node :: 'node

definition handle_service :: "'node MicroserviceHandle \<Rightarrow> string" where
  "handle_service h = service (handle_record h)"

definition handle_instance_id :: "'node MicroserviceHandle \<Rightarrow> string" where
  "handle_instance_id h = instance_id (handle_record h)"

definition handle_address :: "'node MicroserviceHandle \<Rightarrow> string" where
  "handle_address h = address (handle_record h)"

text \<open>\<open>join_mesh\<close>: register locally, then with the registry over a connection of its own.\<close>

definition join_mesh ::
  "('name, 'con, 'acc) ctl_net \<Rightarrow> ctl_codec \<Rightarrow> 'w peer \<Rightarrow> murmur \<Rightarrow> string option \<Rightarrow> 'node MicroserviceHandle
     \<Rightarrow> ServiceMesh \<Rightarrow> 'w \<Rightarrow> 'm writers \<Rightarrow> (unit io_result \<times> ServiceMesh \<times> 'w \<times> 'm writers) outcome" where
  "join_mesh net c peer mur addr h sm w ws =
     (case mesh_register mur (handle_record h) sm ws of
        Panics e \<Rightarrow> Panics e
      | Returns (_, sm', ws') \<Rightarrow>
          (case addr of
             None \<Rightarrow> Returns (Inr (), sm', w, ws')
           | Some a \<Rightarrow>
               (case client_register net c peer (handle_record h) (client_new a) w of
                  (res, _, w') \<Rightarrow> Returns (res, sm', w', ws'))))"

section \<open>The registry in the role of the peer\<close>

record ctl_world =
  w_reg :: MeshRegistry
  w_seen :: nat          \<comment> \<open>bytes of the client the handler has consumed\<close>
  w_now :: u64

text \<open>One turn of the handler on what the client has written; its reply becomes readable, and the end
  of the handler closes the connection.\<close>

definition registry_peer :: "ctl_codec \<Rightarrow> (ServiceRecord list \<Rightarrow> ServiceRecord list) \<Rightarrow> ctl_world peer" where
  "registry_peer c ord cn w =
     (case registry_turn c ord (w_now w)
             \<lparr>c_out = \<lparr>written = [], accepts = None, on_fail = eof_error\<rparr>,
              c_in = \<lparr>bytes = drop (w_seen w) (written (c_out cn)), tail = Stalled\<rparr>\<rparr> (w_reg w) of
        (r, sc, reg) \<Rightarrow>
          (cn\<lparr>c_in := \<lparr>bytes = bytes (c_in cn) @ written (c_out sc),
                      tail = (if r = None then Stalled else Eof)\<rparr>\<rparr>,
           w\<lparr>w_reg := reg, w_seen := length (written (c_out cn)) - length (bytes (c_in sc))\<rparr>))"

text \<open>A healthy connection on which every request so far has been answered.\<close>

definition idle_conn :: "conn \<Rightarrow> ctl_world \<Rightarrow> bool" where
  "idle_conn cn w \<longleftrightarrow> accepts (c_out cn) = None \<and> bytes (c_in cn) = [] \<and> w_seen w = length (written (c_out cn))"

definition inner_conn :: "mstream \<Rightarrow> conn" where
  "inner_conn s = poll_stream (\<lambda>x. x) (\<lambda>x. x) (\<lambda>x. x) s"

definition fits :: "ctl_codec \<Rightarrow> MeshControlMsg \<Rightarrow> bool" where
  "fits c m \<longleftrightarrow> (\<exists>b. ctl_to_vec c m = Inr b \<and> length b \<le> 65536)"

section \<open>Leases\<close>

datatype reg_action = Reg ServiceRecord | Dereg string string | Evict

text \<open>What the connections and the eviction task do to the shared registry, each at its time.\<close>

fun reg_act :: "u64 \<times> reg_action \<Rightarrow> MeshRegistry \<Rightarrow> MeshRegistry" where
  "reg_act (now, Reg r) reg = reg_register now r reg"
| "reg_act (now, Dereg s i) reg = snd (reg_deregister s i reg)"
| "reg_act (now, Evict) reg = evict_expired now reg"

text \<open>Specification: the last registration of an instance not undone by a deregistration.\<close>

fun lease_step :: "string \<times> string \<Rightarrow> u64 \<times> reg_action \<Rightarrow> ServiceRecord option \<Rightarrow> ServiceRecord option" where
  "lease_step k (now, Reg r) l = (if (service r, instance_id r) = k then Some (r\<lparr>registered_at := now\<rparr>) else l)"
| "lease_step k (now, Dereg s i) l = (if (s, i) = k then None else l)"
| "lease_step k (now, Evict) l = l"

definition lease :: "string \<times> string \<Rightarrow> (u64 \<times> reg_action) list \<Rightarrow> ServiceRecord option" where
  "lease k acts = fold (lease_step k) acts None"

definition live :: "u64 \<Rightarrow> duration \<Rightarrow> ServiceRecord \<Rightarrow> bool" where
  "live now d r \<longleftrightarrow> unat now - unat (registered_at r) \<le> as_secs d"

lemma record_expired_live: "record_expired r now d \<longleftrightarrow> \<not> live now d r"
  by (auto simp: record_expired_def live_def saturating_sub_def Let_def unat_sub word_le_nat_alt
      word_less_nat_alt not_less not_le)

lemma live_later: "t \<le> now \<Longrightarrow> live now d r \<Longrightarrow> live t d r"
  by (simp add: live_def word_le_nat_alt)

interpretation reg_dir: directory "\<lambda>reg. hm_get (records reg)" "\<lambda>reg. hm_inv (records reg)"
  "\<lambda>r reg. Returns (reg_register now r reg)" "\<lambda>k reg. Returns (snd (reg_deregister (fst k) (snd k) reg))"
  "\<lambda>_. True" "\<lambda>r. (service r, instance_id r)" "\<lambda>r. r\<lparr>registered_at := now\<rparr>" for now
  by unfold_locales
    (auto simp: reg_register_def reg_deregister_def Let_def hm.get_insert hm.inv_insert hm.get_remove hm.inv_remove)

lemma evict_get:
  assumes "hm_inv (records reg)"
  shows "hm_get (records (evict_expired now reg)) k =
      (case hm_get (records reg) k of Some r \<Rightarrow> if live now (ttl reg) r then Some r else None | None \<Rightarrow> None)"
    and "hm_inv (records (evict_expired now reg))"
proof -
  have "map_of (filter (\<lambda>(_, r). P r) m) k = (case map_of m k of Some r \<Rightarrow> if P r then Some r else None | None \<Rightarrow> None)"
    if "distinct (map fst m)" for P and m :: "(string \<times> string, ServiceRecord) hashmap"
    using that by (induction m) (auto split: option.splits simp: map_of_eq_None_iff)
  from this [of "records reg" "\<lambda>r. live now (ttl reg) r"] assms
  show "hm_get (records (evict_expired now reg)) k =
      (case hm_get (records reg) k of Some r \<Rightarrow> if live now (ttl reg) r then Some r else None | None \<Rightarrow> None)"
    by (simp add: evict_expired_def hm_get_def hm_inv_def record_expired_live)
  show "hm_inv (records (evict_expired now reg))"
    using assms by (simp add: hm_inv_def evict_expired_def distinct_map_filter)
qed

lemma reg_act_ttl: "ttl (reg_act a reg) = ttl reg"
  by (cases "(a, reg)" rule: reg_act.cases) (auto simp: reg_register_def reg_deregister_def evict_expired_def Let_def)

lemma reg_act_step:
  assumes inv: "hm_inv (records reg)" and now: "t \<le> now"
    and rel: "\<And>k. hm_get (records reg) k = l k \<or> (hm_get (records reg) k = None \<and> (\<exists>r. l k = Some r \<and> \<not> live now (ttl reg) r))"
  shows "hm_inv (records (reg_act (t, a) reg))"
    and "hm_get (records (reg_act (t, a) reg)) k = lease_step k (t, a) (l k)
      \<or> (hm_get (records (reg_act (t, a) reg)) k = None
          \<and> (\<exists>r. lease_step k (t, a) (l k) = Some r \<and> \<not> live now (ttl reg) r))"
proof -
  show "hm_inv (records (reg_act (t, a) reg))"
    using inv evict_get(2) [OF inv]
    by (cases a) (auto simp: reg_register_def reg_deregister_def Let_def hm.inv_insert hm.inv_remove)
  show "hm_get (records (reg_act (t, a) reg)) k = lease_step k (t, a) (l k)
      \<or> (hm_get (records (reg_act (t, a) reg)) k = None
          \<and> (\<exists>r. lease_step k (t, a) (l k) = Some r \<and> \<not> live now (ttl reg) r))"
  proof (cases a)
    case Evict
    then show ?thesis
      using rel [of k] evict_get(1) [OF inv, of t k] live_later [OF now, of "ttl reg"]
      by (auto split: option.splits if_splits)
  qed (use rel [of k] inv in \<open>auto simp: reg_register_def reg_deregister_def Let_def hm.get_insert hm.get_remove\<close>)
qed

lemma reg_run_lease:
  assumes "\<forall>(t, a) \<in> set acts. t \<le> now"
  shows "hm_inv (records (fold reg_act acts (with_ttl d))) \<and> ttl (fold reg_act acts (with_ttl d)) = d \<and>
    (\<forall>k. hm_get (records (fold reg_act acts (with_ttl d))) k = lease k acts
      \<or> (hm_get (records (fold reg_act acts (with_ttl d))) k = None
          \<and> (\<exists>r. lease k acts = Some r \<and> \<not> live now d r)))"
  using assms
proof (induction acts rule: rev_induct)
  case Nil
  then show ?case by (simp add: with_ttl_def lease_def hm.inv_empty hm.get_empty)
next
  case (snoc a acts)
  obtain t b where a: "a = (t, b)" by (cases a)
  let ?reg = "fold reg_act acts (with_ttl d)"
  have IH: "hm_inv (records ?reg)" "ttl ?reg = d"
    "\<And>k. hm_get (records ?reg) k = lease k acts
      \<or> (hm_get (records ?reg) k = None \<and> (\<exists>r. lease k acts = Some r \<and> \<not> live now (ttl ?reg) r))"
    using snoc by auto
  have t: "t \<le> now" using snoc.prems a by simp
  have step: "lease k (acts @ [(t, b)]) = lease_step k (t, b) (lease k acts)" for k by (simp add: lease_def)
  have run: "fold reg_act (acts @ [(t, b)]) (with_ttl d) = reg_act (t, b) ?reg" by simp
  show ?case unfolding a unfolding run step
    using reg_act_step [where reg = ?reg and l = "\<lambda>k. lease k acts" and a = b, OF IH(1) t IH(3)]
      IH(2) reg_act_ttl [of "(t, b)" ?reg] by simp
qed

lemma lease_key: "lease k acts = Some r \<Longrightarrow> (service r, instance_id r) = k"
proof (induction acts arbitrary: r rule: rev_induct)
  case (snoc a acts)
  have "lease_step k a (lease k acts) = Some r" using snoc.prems by (simp add: lease_def)
  then show ?case using snoc.IH [of r] by (cases a; cases "snd a") (auto split: if_splits)
qed (simp add: lease_def)

section \<open>The protocol\<close>

definition ctl_wire :: "ctl_codec \<Rightarrow> MeshControlMsg \<Rightarrow> u8 list" where
  "ctl_wire c m = (case ctl_to_vec c m of Inr b \<Rightarrow> u32_to_le (of_nat (length b)) @ b | Inl _ \<Rightarrow> [])"

lemma unat_MAX_CONTROL_FRAME: "unat MAX_CONTROL_FRAME = 65536"
  by (simp add: MAX_CONTROL_FRAME_def)

lemma write_control_fits:
  "fits c m \<Longrightarrow> accepts out = None \<Longrightarrow>
   write_control c m out = (Inr (), out\<lparr>written := written out @ ctl_wire c m\<rparr>)"
  by (auto simp: fits_def write_control_def ctl_wire_def unat_MAX_CONTROL_FRAME write_all_def)

lemma write_control_unfit:
  "\<not> fits c m \<Longrightarrow> \<exists>e. write_control c m out = (Inl e, out)"
  by (auto simp: fits_def write_control_def unat_MAX_CONTROL_FRAME split: sum.splits)

lemma read_control_wire:
  assumes "ctl_codec_ok c" and "fits c m"
  shows "read_control c \<lparr>bytes = ctl_wire c m @ rest, tail = e\<rparr> = (Inr (Some m), \<lparr>bytes = rest, tail = e\<rparr>)"
    and "\<not> read_control_stalls \<lparr>bytes = ctl_wire c m @ rest, tail = e\<rparr>"
proof -
  obtain b where b: "ctl_to_vec c m = Inr b" "length b \<le> unat MAX_CONTROL_FRAME" "b \<noteq> []" "ctl_from_slice c b = Inr m"
    using assms by (auto simp: fits_def ctl_codec_ok_def unat_MAX_CONTROL_FRAME)
  have u: "unat (of_nat (length b) :: u32) = length b" using b(2) by (rule unat_of_nat_len)
  then have nz: "(of_nat (length b) :: u32) \<noteq> 0" using b(3) by (metis length_0_conv unat_0)
  have le: "(of_nat (length b) :: u32) \<le> MAX_CONTROL_FRAME" using b(2) by (rule of_nat_le_maxb)
  have w: "ctl_wire c m = u32_to_le (of_nat (length b)) @ b" by (simp add: ctl_wire_def b(1))
  have rd: "read_u32_le \<lparr>bytes = ctl_wire c m @ rest, tail = e\<rparr>
      = (Ready (Inr (of_nat (length b))), \<lparr>bytes = b @ rest, tail = e\<rparr>)"
    by (simp add: read_u32_le_def read_exact_def w bit_u32_from_le_to_le)
  show "read_control c \<lparr>bytes = ctl_wire c m @ rest, tail = e\<rparr> = (Inr (Some m), \<lparr>bytes = rest, tail = e\<rparr>)"
    using nz le by (simp add: read_control_def read_control_len_def rd not_less [symmetric] read_exact_def u b(4))
  show "\<not> read_control_stalls \<lparr>bytes = ctl_wire c m @ rest, tail = e\<rparr>"
    by (simp add: read_control_stalls_def rd read_exact_def u)
qed

lemma on_stream_inner:
  "fst (on_stream f s) = fst (f (inner_conn s))" "inner_conn (snd (on_stream f s)) = snd (f (inner_conn s))"
proof -
  have "fst (on_stream f s) = fst (f (inner_conn s)) \<and> inner_conn (snd (on_stream f s)) = snd (f (inner_conn s))"
  proof (cases s)
    case (Plain x)
    then show ?thesis by (cases "f x") (simp add: inner_conn_def)
  next
    case (Tls t)
    then show ?thesis
    proof (cases t)
      case (Client x)
      then show ?thesis using Tls by (cases "f x") (simp add: inner_conn_def)
    next
      case (Server x)
      then show ?thesis using Tls by (cases "f x") (simp add: inner_conn_def)
    qed
  qed
  then show "fst (on_stream f s) = fst (f (inner_conn s))" "inner_conn (snd (on_stream f s)) = snd (f (inner_conn s))"
    by blast+
qed

text \<open>The handler's turn on one request that has arrived whole.\<close>

lemma registry_peer_request:
  assumes "ctl_codec_ok c" and "fits c m" and "idle_conn cn w"
    and "registry_handle ord (w_now w) m (w_reg w) = (Some reply, reg')"
  shows "registry_peer c ord (cn\<lparr>c_out := (c_out cn)\<lparr>written := written (c_out cn) @ ctl_wire c m\<rparr>\<rparr>) w
    = (cn\<lparr>c_out := (c_out cn)\<lparr>written := written (c_out cn) @ ctl_wire c m\<rparr>,
          c_in := (if fits c reply then \<lparr>bytes = ctl_wire c reply, tail = Stalled\<rparr> else \<lparr>bytes = [], tail = Eof\<rparr>)\<rparr>,
       w\<lparr>w_reg := reg', w_seen := length (written (c_out cn) @ ctl_wire c m)\<rparr>)"
proof -
  have rd: "read_control c \<lparr>bytes = ctl_wire c m, tail = Stalled\<rparr> = (Inr (Some m), \<lparr>bytes = [], tail = Stalled\<rparr>)"
    "\<not> read_control_stalls \<lparr>bytes = ctl_wire c m, tail = Stalled\<rparr>"
    using read_control_wire [OF assms(1,2), of "[]" Stalled] by simp_all
  show ?thesis
  proof (cases "fits c reply")
    case True
    then show ?thesis using assms(3,4)
      by (simp add: registry_peer_def registry_turn_def idle_conn_def rd write_control_fits)
  next
    case False
    then obtain e where "write_control c reply \<lparr>written = [], accepts = None, on_fail = eof_error\<rparr>
        = (Inl e, \<lparr>written = [], accepts = None, on_fail = eof_error\<rparr>)"
      using write_control_unfit by blast
    then show ?thesis using assms(3,4) False
      by (simp add: registry_peer_def registry_turn_def idle_conn_def rd)
  qed
qed

lemma request_registry:
  assumes c: "ctl_codec_ok c" and cl: "stream cl = Some s" and idle: "idle_conn (inner_conn s) w" and m: "fits c m"
    and h: "registry_handle ord (w_now w) m (w_reg w) = (Some reply, reg')"
  obtains cl' w' where "request net c (registry_peer c ord) m cl w
      = (if fits c reply then Inr reply else Inl registry_closed, cl', w')"
    "w_reg w' = reg'"
    "fits c reply \<Longrightarrow> \<exists>s'. stream cl' = Some s' \<and> idle_conn (inner_conn s') w'"
    "\<not> fits c reply \<Longrightarrow> stream cl' = None"
proof -
  let ?cn = "inner_conn s" and ?w = "w\<lparr>w_reg := reg', w_seen := length (written (c_out (inner_conn s)) @ ctl_wire c m)\<rparr>"
  let ?cn1 = "?cn\<lparr>c_out := (c_out ?cn)\<lparr>written := written (c_out ?cn) @ ctl_wire c m\<rparr>\<rparr>"
  have acc: "accepts (c_out ?cn) = None" using idle by (simp add: idle_conn_def)
  obtain x1 s1 where s1: "on_stream (conn_write c m) s = (x1, s1)" by (cases "on_stream (conn_write c m) s")
  have "x1 = Inr ()" "inner_conn s1 = ?cn1"
    using on_stream_inner [of "conn_write c m" s] s1 by (simp_all add: conn_write_def write_control_fits [OF m acc])
  note s1 = s1 this
  let ?f = "\<lambda>cn. case registry_peer c ord cn w of (cn', w') \<Rightarrow> (w', cn')"
  obtain w2 s2 where s2: "on_stream ?f s1 = (w2, s2)" by (cases "on_stream ?f s1")
  have "w2 = ?w" "inner_conn s2 = ?cn1\<lparr>c_in := (if fits c reply then \<lparr>bytes = ctl_wire c reply, tail = Stalled\<rparr>
      else \<lparr>bytes = [], tail = Eof\<rparr>)\<rparr>"
    using on_stream_inner [of ?f s1] s2 by (simp_all add: s1(3) registry_peer_request [OF c m idle h])
  note s2 = s2 this
  obtain x3 s3 where s3: "on_stream (conn_read c) s2 = (x3, s3)" by (cases "on_stream (conn_read c) s2")
  have in3: "x3 = fst (conn_read c (inner_conn s2))" "inner_conn s3 = snd (conn_read c (inner_conn s2))"
    using on_stream_inner [of "conn_read c" s2] s3 by simp_all
  show ?thesis
  proof (cases "fits c reply")
    case True
    have "x3 = Inr (Some reply)" "idle_conn (inner_conn s3) ?w"
      using in3 True read_control_wire(1) [OF c True, of "[]" Stalled] acc
      by (simp_all add: s2(3) conn_read_def idle_conn_def)
    then show ?thesis
      using True cl s1(1,2) s2(1,2) s3
      by (intro that [of "cl\<lparr>stream := Some s3\<rparr>" ?w]) (simp_all add: request_def client_conn_def)
  next
    case False
    have "x3 = Inr None"
      using in3 False by (simp add: s2(3) conn_read_def read_control_def read_control_len_def read_u32_le_def
          read_exact_def eof_error_def)
    then show ?thesis
      using False cl s1(1,2) s2(1,2) s3
      by (intro that [of "invalidate cl" ?w]) (simp_all add: request_def client_conn_def invalidate_def)
  qed
qed

lemma reg_list_leases:
  assumes times: "\<forall>(t, a) \<in> set acts. t \<le> now" and ord: "\<forall>xs. mset (ord xs) = mset xs"
  shows "set (reg_list ord now (fold reg_act acts (with_ttl d)))
      = {r. \<exists>k. lease k acts = Some r \<and> unat now - unat (registered_at r) \<le> as_secs d}
    \<and> distinct (map (\<lambda>r. (service r, instance_id r)) (reg_list ord now (fold reg_act acts (with_ttl d))))"
proof -
  let ?reg = "fold reg_act acts (with_ttl d)"
  note run = reg_run_lease [OF times, of d]
  then have inv: "hm_inv (records ?reg)" and d: "ttl ?reg = d" by blast+
  have entry: "(k, r) \<in> set (records ?reg) \<longleftrightarrow> hm_get (records ?reg) k = Some r" for k r
    using hm_get_in_set [OF inv] by blast
  have key: "(k, r) \<in> set (records ?reg) \<Longrightarrow> k = (service r, instance_id r)" for k r
    using run lease_key [of k acts r] unfolding entry by (metis option.distinct(1))
  have "set (reg_list ord now ?reg) = {r. \<exists>k. hm_get (records ?reg) k = Some r \<and> live now d r}"
    using mset_eq_setD [OF ord [rule_format]]
    by (force simp: reg_list_def d record_expired_live hm_values_def simp flip: entry)
  also have "\<dots> = {r. \<exists>k. lease k acts = Some r \<and> live now d r}"
  proof -
    have "hm_get (records ?reg) k = lease k acts
        \<or> (hm_get (records ?reg) k = None \<and> (\<exists>r. lease k acts = Some r \<and> \<not> live now d r))" for k
      using run by blast
    then have "hm_get (records ?reg) k = Some r \<and> live now d r \<longleftrightarrow> lease k acts = Some r \<and> live now d r" for k r
      by (metis option.distinct(1) option.inject)
    then show ?thesis by auto
  qed
  finally have listed: "set (reg_list ord now ?reg) = {r. \<exists>k. lease k acts = Some r \<and> live now d r}" .
  have "map (\<lambda>r. (service r, instance_id r)) (hm_values (records ?reg)) = map fst (records ?reg)"
    using key by (force simp: hm_values_def)
  then have d0: "distinct (map (\<lambda>r. (service r, instance_id r)) (hm_values (records ?reg)))"
    using inv by (simp add: hm_inv_def)
  have me: "mset (map (\<lambda>r. (service r, instance_id r)) (ord (hm_values (records ?reg))))
      = mset (map (\<lambda>r. (service r, instance_id r)) (hm_values (records ?reg)))"
    by (simp only: mset_map ord [rule_format])
  have "distinct (map (\<lambda>r. (service r, instance_id r)) (ord (hm_values (records ?reg))))"
    by (rule mset_eq_imp_distinct_iff [OF me, THEN iffD2, OF d0])
  then have "distinct (map (\<lambda>r. (service r, instance_id r)) (reg_list ord now ?reg))"
    unfolding reg_list_def by (rule distinct_map_filter)
  then show ?thesis using listed unfolding live_def by (rule conjI [rotated])
qed

section \<open>Properties\<close>

text \<open>C15. Leases. However registrations, renewals, deregistrations and eviction runs of concurrent
  connections are interleaved, the registry lists at time \<open>now\<close> exactly the instances whose last
  registration was not undone and is at most the time-to-live old, each once and with the time of
  that registration; when evictions ran never changes the list.\<close>

theorem registry_lists_live_leases:
  assumes times: "\<forall>(t, a) \<in> set acts. t \<le> now" and ord: "\<forall>xs. mset (ord xs) = mset xs"
  shows "set (reg_list ord now (fold reg_act acts (with_ttl d)))
      = {r. \<exists>k. lease k acts = Some r \<and> unat now - unat (registered_at r) \<le> as_secs d}
    \<and> distinct (map (\<lambda>r. (service r, instance_id r)) (reg_list ord now (fold reg_act acts (with_ttl d))))"
  by (rule reg_list_leases [OF times ord])

theorem registry_lists_live_leases_witness:
  "set (reg_list rev 40 (fold reg_act [(5, Reg (demo_record ''a'')), (20, Reg (demo_record ''b'')), (36, Evict)]
      (with_ttl (secs 30)))) = {(demo_record ''b'')\<lparr>registered_at := 20\<rparr>}"
proof -
  let ?acts = "[(5, Reg (demo_record ''a'')), (20, Reg (demo_record ''b'')), (36, Evict)] :: (u64 \<times> reg_action) list"
  have "{r. \<exists>k. lease k ?acts = Some r \<and> unat (40 :: u64) - unat (registered_at r) \<le> as_secs (secs 30)}
      = {(demo_record ''b'')\<lparr>registered_at := 20\<rparr>}"
    by (auto simp: lease_def demo_record_def as_secs_def secs_def split: if_splits)
  then show ?thesis using registry_lists_live_leases [of ?acts 40 rev "secs 30"] by simp
qed

text \<open>C38. Request and reply. On an idle connection to a registry, a control message is executed
  exactly once by the handler; when the reply fits the 64 KiB control frame the client gets that reply
  and the connection is idle again, and when it does not (a long enough listing) the handler drops the
  connection and the client gets \<open>UnexpectedEof\<close> and forgets the stream.\<close>

theorem registry_request_reply:
  assumes "ctl_codec_ok c" and "stream cl = Some s" and "idle_conn (inner_conn s) w" and "fits c m"
    and "registry_handle ord (w_now w) m (w_reg w) = (Some reply, reg')"
  shows "\<exists>cl' w'. request net c (registry_peer c ord) m cl w
      = (if fits c reply then Inr reply else Inl registry_closed, cl', w')
    \<and> w_reg w' = reg' \<and> (if fits c reply then \<exists>s'. stream cl' = Some s' \<and> idle_conn (inner_conn s') w' else stream cl' = None)"
  by (rule request_registry [where net = net, OF assms]) (auto split: if_splits)

text \<open>A codec for the witnesses: the message itself is the encoding of a few messages.\<close>

definition demo_ctl :: ctl_codec where
  "demo_ctl =
     \<lparr>ctl_to_vec = (\<lambda>m. case m of Ping \<Rightarrow> Inr [1] | Pong \<Rightarrow> Inr [2] | List \<Rightarrow> Inr [3]
        | ListReply [] \<Rightarrow> Inr [4] | _ \<Rightarrow> Inl ''unsupported''),
      ctl_from_slice = (\<lambda>b. if b = [1] then Inr Ping else if b = [2] then Inr Pong else if b = [3] then Inr List
        else if b = [4] then Inr (ListReply []) else Inl ''syntax'')\<rparr>"

definition demo_client :: "nat MeshRegistryClient" where
  "demo_client = (client_new ''h:1'')\<lparr>stream := Some (Plain
     \<lparr>c_out = fresh_out, c_in = \<lparr>bytes = [], tail = Stalled\<rparr>\<rparr>)\<rparr>"

definition demo_ctl_world :: ctl_world where
  "demo_ctl_world = \<lparr>w_reg = registry_new, w_seen = 0, w_now = 9\<rparr>"

lemma demo_ctl_ok: "ctl_codec_ok demo_ctl" "fits demo_ctl Ping" "fits demo_ctl Pong" "fits demo_ctl List"
  "fits demo_ctl (ListReply [])"
  by (auto simp: ctl_codec_ok_def demo_ctl_def fits_def split: MeshControlMsg.splits list.splits)

lemma demo_idle:
  "stream demo_client = Some (Plain \<lparr>c_out = fresh_out, c_in = \<lparr>bytes = [], tail = Stalled\<rparr>\<rparr>)"
  "idle_conn (inner_conn (Plain \<lparr>c_out = fresh_out, c_in = \<lparr>bytes = [], tail = Stalled\<rparr>\<rparr>)) demo_ctl_world"
  by (simp_all add: demo_client_def idle_conn_def inner_conn_def fresh_out_def demo_ctl_world_def)

theorem registry_request_reply_witness:
  "\<exists>cl' w'. request (undefined :: (nat, nat, nat) ctl_net) demo_ctl (registry_peer demo_ctl rev) Ping demo_client demo_ctl_world
     = (Inr Pong, cl', w') \<and> w_reg w' = registry_new"
  using registry_request_reply [OF demo_ctl_ok(1) demo_idle demo_ctl_ok(2), where net = "undefined :: (nat, nat, nat) ctl_net"
      and ord = rev and reply = Pong and reg' = registry_new] demo_ctl_ok(3)
  by (auto simp: demo_ctl_world_def)

text \<open>C26. Discovery end to end. A client synchronising its mesh over an idle connection to a registry
  whose listing fits a control frame ends with a mesh that holds exactly the live leases of the
  registry at that moment, at their registered addresses and targets, and the registry is unchanged;
  a listing that does not fit leaves the mesh as it was and reports the closed connection.\<close>

theorem sync_mesh_reflects_leases:
  assumes "ctl_codec_ok c" and "stream cl = Some s" and "idle_conn (inner_conn s) w" and "fits c List"
    and "mesh_wf mur (sm, ws)" and "\<forall>r \<in> set (reg_list ord (w_now w) (w_reg w)). addr_ok r"
    and "\<forall>xs. mset (ks xs) = mset xs" and "\<forall>xs. mset (vs xs) = mset xs"
  shows "\<exists>sm' ws' cl' w'.
     sync_mesh net c (registry_peer c ord) mur ks vs cl w (sm, ws)
       = Returns (if fits c (ListReply (reg_list ord (w_now w) (w_reg w))) then Inr () else Inl registry_closed, (sm', ws'), cl', w')
     \<and> w_reg w' = w_reg w \<and> mesh_wf mur (sm', ws')
     \<and> (if fits c (ListReply (reg_list ord (w_now w) (w_reg w)))
         then mesh_view sm' = snapshot_view (reg_list ord (w_now w) (w_reg w)) else sm' = sm \<and> ws' = ws)"
proof -
  let ?rs = "reg_list ord (w_now w) (w_reg w)"
  obtain cl' w' where rq: "request net c (registry_peer c ord) List cl w
      = (if fits c (ListReply ?rs) then Inr (ListReply ?rs) else Inl registry_closed, cl', w')" "w_reg w' = w_reg w"
    by (rule request_registry [where net = net, OF assms(1-4) registry_handle.simps(3)])
  obtain sm' ws' where ap: "apply_snapshot_diff mur ks vs ?rs (sm, ws) = Returns (sm', ws')"
    "mesh_wf mur (sm', ws')" "mesh_view sm' = snapshot_view ?rs"
    using apply_snapshot_ok [OF assms(5-8)] by blast
  show ?thesis
  proof (cases "fits c (ListReply ?rs)")
    case True
    then show ?thesis using rq ap by (simp add: sync_mesh_def client_list_def)
  next
    case False
    then show ?thesis using rq assms(5) by (simp add: sync_mesh_def client_list_def)
  qed
qed

theorem sync_mesh_reflects_leases_witness:
  "\<exists>sm' (ws' :: u8 writers) cl' w'.
     sync_mesh (undefined :: (nat, nat, nat) ctl_net) demo_ctl (registry_peer demo_ctl rev) demo_mur rev rev
       demo_client demo_ctl_world (mesh_new, []) = Returns (Inr (), (sm', ws'), cl', w') \<and> mesh_view sm' = Map.empty"
proof -
  have rs: "reg_list rev (w_now demo_ctl_world) (w_reg demo_ctl_world) = []"
    by (simp add: reg_list_def demo_ctl_world_def registry_new_def with_ttl_def hm_values_def)
  have "snapshot_view [] = Map.empty" by (simp add: snapshot_view_def)
  then show ?thesis
    using sync_mesh_reflects_leases [OF demo_ctl_ok(1) demo_idle demo_ctl_ok(4) mesh_wf_new [of demo_mur "[] :: u8 writers"],
        where ord = rev and ks = rev and vs = rev and net = "undefined :: (nat, nat, nat) ctl_net"] demo_ctl_ok(5)
    by (simp add: rs) blast
qed

end
