(* ===== verification/Node_Server.thy ===== *)
theory Node_Server
  imports Mesh_Control
begin

text \<open>
  The two TCP servers: \<open>Node::bind\<close> of \<open>src/distributed.rs\<close> with its accept loop and connection
  handlers, and \<open>MeshRegistryServer::bind\<close> of \<open>src/mesh.rs\<close> with its accept loop, handlers and eviction
  task. Binding a socket is a parameter (\<open>listen_net\<close>); what a peer sends is the stream of the accepted
  connection. Every turn of a handler is one step, so handlers, dispatch tasks and eviction interleave
  freely. The fields \<open>nd_opened\<close> and \<open>nd_read\<close> are history variables: no operation reads them.
\<close>

section \<open>Nodes\<close>

record 'l listen_net =
  tcp_bind :: "string \<Rightarrow> 'l io_result"         \<comment> \<open>\<open>TcpListener::bind\<close>\<close>
  local_addr :: "'l \<Rightarrow> string io_result"

type_synonym ('name, 'con, 'acc) data_net = "(instream, 'name, 'con, instream, 'acc, instream) tls_net"

record ('m, 'acc) NodeServer =
  nd_name :: string
  nd_addr :: string
  nd_config :: DistributedConfig
  nd_tls :: "'acc option"
  nd_state :: "'m NodeState"
  nd_listening :: bool                         \<comment> \<open>the accept loop runs\<close>
  nd_conns :: "instream list"                  \<comment> \<open>handlers at the top of their loop\<close>
  nd_opened :: "instream list"                 \<comment> \<open>history: every connection that reached a handler\<close>
  nd_read :: "(string \<times> 'm) list"              \<comment> \<open>history: every frame a handler decoded\<close>

definition bind_on_runtime ::
  "'l listen_net \<Rightarrow> string \<Rightarrow> string \<Rightarrow> DistributedConfig \<Rightarrow> 'acc option \<Rightarrow> ('m, 'acc) NodeServer io_result" where
  "bind_on_runtime lnet n addr cfg acceptor =
     (case tcp_bind lnet addr of
        Inl e \<Rightarrow> Inl e
      | Inr listener \<Rightarrow>
          (case local_addr lnet listener of
             Inl e \<Rightarrow> Inl e
           | Inr actual_addr \<Rightarrow>
               Inr \<lparr>nd_name = n, nd_addr = actual_addr, nd_config = cfg, nd_tls = acceptor, nd_state = node_bound cfg,
                    nd_listening = True, nd_conns = [], nd_opened = [], nd_read = []\<rparr>))"

definition bind_tls_on_runtime ::
  "'l listen_net \<Rightarrow> string \<Rightarrow> string \<Rightarrow> DistributedConfig \<Rightarrow> 'acc \<Rightarrow> ('m, 'acc) NodeServer io_result" where
  "bind_tls_on_runtime lnet n addr cfg acceptor = bind_on_runtime lnet n addr cfg (Some acceptor)"

definition bind_on_current_runtime ::
  "'l listen_net \<Rightarrow> string \<Rightarrow> string \<Rightarrow> DistributedConfig \<Rightarrow> ('m, 'acc) NodeServer io_result" where
  "bind_on_current_runtime lnet n addr cfg = bind_on_runtime lnet n addr cfg None"

definition bind :: "'l listen_net \<Rightarrow> string \<Rightarrow> string \<Rightarrow> ('m, 'acc) NodeServer io_result" where
  "bind lnet n addr = bind_on_current_runtime lnet n addr DistributedConfig_default"

definition nd_register :: "string \<Rightarrow> nat \<Rightarrow> ('m, 'acc) NodeServer \<Rightarrow> ('m, 'acc) NodeServer" where
  "nd_register t tx nd = nd\<lparr>nd_state := node_register t tx (nd_state nd)\<rparr>"

definition stream_inside :: "('x, 'x, 'x) MaybeTlsStream \<Rightarrow> 'x" where
  "stream_inside s = poll_stream (\<lambda>x. x) (\<lambda>x. x) (\<lambda>x. x) s"

text \<open>One turn of the accept loop, on the result of \<open>listener.accept()\<close>: an error ends the loop, a TLS
  failure only that connection.\<close>

definition node_accepted ::
  "('name, 'con, 'acc) data_net \<Rightarrow> instream io_result \<Rightarrow> ('m, 'acc) NodeServer \<Rightarrow> ('m, 'acc) NodeServer" where
  "node_accepted net r nd =
     (if \<not> nd_listening nd then nd
      else case r of
             Inl e \<Rightarrow> nd\<lparr>nd_listening := False\<rparr>
           | Inr tcp \<Rightarrow>
               (case accept net tcp (nd_tls nd) of
                  Inl e \<Rightarrow> nd
                | Inr s \<Rightarrow> nd\<lparr>nd_conns := nd_conns nd @ [stream_inside s], nd_opened := nd_opened nd @ [stream_inside s]\<rparr>))"

definition drop_nth :: "nat \<Rightarrow> 'x list \<Rightarrow> 'x list" where
  "drop_nth i xs = take i xs @ drop (Suc i) xs"

text \<open>One turn of the \<open>i\<close>-th handler: it ends, or it has decoded a frame, takes a permit and spawns the
  task that dispatches it; \<open>None\<close> while no permit is free.\<close>

definition node_conn_turn :: "('m, 'j) codec \<Rightarrow> nat \<Rightarrow> ('m, 'acc) NodeServer \<Rightarrow> ('m, 'acc) NodeServer option" where
  "node_conn_turn c i nd =
     (case conn_turn c (nd_config nd) (nd_conns nd ! i) of
        Inl r \<Rightarrow> Some (nd\<lparr>nd_conns := drop_nth i (nd_conns nd)\<rparr>)
      | Inr ((t, m), s') \<Rightarrow>
          (if permits (nd_state nd) = 0 then None
           else Some (nd\<lparr>nd_conns := (nd_conns nd)[i := s'], nd_read := nd_read nd @ [(t, m)],
                         nd_state := (nd_state nd)\<lparr>permits := permits (nd_state nd) - 1,
                                                   tasks := tasks (nd_state nd) @ [Lookup t m]\<rparr>\<rparr>)))"

section \<open>The registry server\<close>

record 'acc RegistryServer =
  srv_address :: string
  srv_registry :: MeshRegistry
  srv_tls :: "'acc option"
  srv_listening :: bool
  srv_conns :: "conn list"

definition registry_started :: "string \<Rightarrow> 'acc option \<Rightarrow> 'acc RegistryServer" where
  "registry_started a acceptor =
     \<lparr>srv_address = a, srv_registry = registry_new, srv_tls = acceptor, srv_listening = True, srv_conns = []\<rparr>"

definition registry_bind_on_runtime :: "'l listen_net \<Rightarrow> string \<Rightarrow> 'acc option \<Rightarrow> 'acc RegistryServer io_result" where
  "registry_bind_on_runtime lnet addr acceptor =
     (case tcp_bind lnet addr of
        Inl e \<Rightarrow> Inl e
      | Inr listener \<Rightarrow>
          (case local_addr lnet listener of
             Inl e \<Rightarrow> Inl e
           | Inr a \<Rightarrow> Inr (registry_started a acceptor)))"

definition registry_bind :: "'l listen_net \<Rightarrow> string \<Rightarrow> 'acc RegistryServer io_result" where
  "registry_bind lnet addr = registry_bind_on_runtime lnet addr None"

definition registry_bind_tls :: "'l listen_net \<Rightarrow> string \<Rightarrow> 'acc \<Rightarrow> 'acc RegistryServer io_result" where
  "registry_bind_tls lnet addr acceptor = registry_bind_on_runtime lnet addr (Some acceptor)"

definition registry_accepted ::
  "('name, 'con, 'acc) ctl_net \<Rightarrow> conn io_result \<Rightarrow> 'acc RegistryServer \<Rightarrow> 'acc RegistryServer" where
  "registry_accepted net r sv =
     (if \<not> srv_listening sv then sv
      else case r of
             Inl e \<Rightarrow> sv\<lparr>srv_listening := False\<rparr>
           | Inr tcp \<Rightarrow>
               (case accept net tcp (srv_tls sv) of
                  Inl e \<Rightarrow> sv
                | Inr s \<Rightarrow> sv\<lparr>srv_conns := srv_conns sv @ [stream_inside s]\<rparr>))"

definition registry_conn_turn ::
  "ctl_codec \<Rightarrow> (ServiceRecord list \<Rightarrow> ServiceRecord list) \<Rightarrow> u64 \<Rightarrow> nat \<Rightarrow> 'acc RegistryServer \<Rightarrow> 'acc RegistryServer" where
  "registry_conn_turn c ord now i sv =
     (case registry_turn c ord now (srv_conns sv ! i) (srv_registry sv) of
        (None, cn, reg) \<Rightarrow> sv\<lparr>srv_conns := (srv_conns sv)[i := cn], srv_registry := reg\<rparr>
      | (Some r, cn, reg) \<Rightarrow> sv\<lparr>srv_conns := drop_nth i (srv_conns sv), srv_registry := reg\<rparr>)"

text \<open>One round of the eviction task.\<close>

definition eviction_tick :: "u64 \<Rightarrow> 'acc RegistryServer \<Rightarrow> 'acc RegistryServer" where
  "eviction_tick now sv = sv\<lparr>srv_registry := evict_expired now (srv_registry sv)\<rparr>"

text \<open>The request a handler is about to execute, as an action on the registry.\<close>

fun action_of :: "MeshControlMsg \<Rightarrow> reg_action list" where
  "action_of (Register r) = [Reg r]"
| "action_of (Deregister s i) = [Dereg s i]"
| "action_of List = []"
| "action_of (ListReply rs) = []"
| "action_of Ping = []"
| "action_of Pong = []"

definition next_actions :: "ctl_codec \<Rightarrow> conn \<Rightarrow> reg_action list" where
  "next_actions c cn =
     (if read_control_stalls (c_in cn) then []
      else case read_control c (c_in cn) of (Inr (Some m), _) \<Rightarrow> action_of m | _ \<Rightarrow> [])"

text \<open>Runs of the server: the requests and evictions so far, with their times, the latest time, and the
  state.\<close>

inductive registry_run ::
  "('name, 'con, 'acc) ctl_net \<Rightarrow> ctl_codec \<Rightarrow> (ServiceRecord list \<Rightarrow> ServiceRecord list)
     \<Rightarrow> (u64 \<times> reg_action) list \<Rightarrow> u64 \<Rightarrow> 'acc RegistryServer \<Rightarrow> bool" for net c ord where
  bound: "registry_run net c ord [] now (registry_started a acceptor)"
| accepts: "registry_run net c ord acts t sv \<Longrightarrow> t \<le> now \<Longrightarrow>
     registry_run net c ord acts now (registry_accepted net r sv)"
| handles: "registry_run net c ord acts t sv \<Longrightarrow> t \<le> now \<Longrightarrow> i < length (srv_conns sv) \<Longrightarrow>
     registry_run net c ord (acts @ map (Pair now) (next_actions c (srv_conns sv ! i))) now (registry_conn_turn c ord now i sv)"
| evicts: "registry_run net c ord acts t sv \<Longrightarrow> t \<le> now \<Longrightarrow>
     registry_run net c ord (acts @ [(now, Evict)]) now (eviction_tick now sv)"

section \<open>What the registry server does to the registry\<close>

lemma registry_turn_actions:
  "snd (snd (registry_turn c ord now cn reg)) = fold reg_act (map (Pair now) (next_actions c cn)) reg"
proof (cases "read_control_stalls (c_in cn)")
  case False
  obtain x s where x: "read_control c (c_in cn) = (x, s)" by (cases "read_control c (c_in cn)")
  show ?thesis
  proof (cases "\<exists>m. x = Inr (Some m)")
    case True
    then obtain m where m: "x = Inr (Some m)" by blast
    have "snd (registry_handle ord now m reg) = fold reg_act (map (Pair now) (action_of m)) reg" by (cases m) simp_all
    then show ?thesis
      using False x m by (auto simp: registry_turn_def next_actions_def split: prod.splits option.splits sum.splits)
  qed (use False x in \<open>auto simp: registry_turn_def next_actions_def split: sum.splits option.splits\<close>)
qed (simp add: registry_turn_def next_actions_def)

lemma registry_run_refines:
  "registry_run net c ord acts now sv \<Longrightarrow>
   srv_registry sv = fold reg_act acts registry_new \<and> (\<forall>(t, a) \<in> set acts. t \<le> now)"
proof (induction rule: registry_run.induct)
  case (bound now a acceptor)
  then show ?case by (simp add: registry_started_def)
next
  case (accepts acts t sv now r)
  then show ?case by (force simp: registry_accepted_def split: sum.splits)
next
  case (handles acts t sv now i)
  have "srv_registry (registry_conn_turn c ord now i sv)
      = snd (snd (registry_turn c ord now (srv_conns sv ! i) (srv_registry sv)))"
    by (auto simp: registry_conn_turn_def split: prod.splits option.splits)
  then show ?case using handles by (force simp: registry_turn_actions)
next
  case (evicts acts t sv now)
  then show ?case by (force simp: eviction_tick_def)
qed

section \<open>Conservation in a node\<close>

fun task_msg :: "'m task \<Rightarrow> 'm" where
  "task_msg (Lookup t m) = m"
| "task_msg (Send ch m) = m"

definition chan_msgs :: "nat \<Rightarrow> 'm NodeState \<Rightarrow> 'm list" where
  "chan_msgs ch s = queue (channels s ch)"

lemma chan_msgs_tasks [simp]:
  "chan_msgs ch (s\<lparr>permits := p\<rparr>) = chan_msgs ch s"
  "chan_msgs ch (s\<lparr>tasks := ts\<rparr>) = chan_msgs ch s"
  by (simp_all add: chan_msgs_def)

text \<open>The messages a node with one served channel holds or has dropped.\<close>

definition node_msgs :: "nat \<Rightarrow> 'm NodeState \<Rightarrow> 'm multiset" where
  "node_msgs ch s = mset (map task_msg (tasks s)) + mset (dropped s) + mset (chan_msgs ch s)"

text \<open>A node that serves the single target \<open>tg\<close> on channel \<open>ch\<close>: its tasks carry frames read, and only
  those for \<open>tg\<close> are bound for the channel.\<close>

definition serves :: "string \<Rightarrow> nat \<Rightarrow> (string \<times> 'm) set \<Rightarrow> 'm NodeState \<Rightarrow> bool" where
  "serves tg ch R s \<longleftrightarrow> dispatch s = [(tg, ch)]
     \<and> (\<forall>t m. Lookup t m \<in> set (tasks s) \<longrightarrow> (t, m) \<in> R)
     \<and> (\<forall>ch' m. Send ch' m \<in> set (tasks s) \<longrightarrow> ch' = ch \<and> (tg, m) \<in> R)
     \<and> (\<forall>m \<in> set (chan_msgs ch s). (tg, m) \<in> R)"

lemma mset_drop_nth: "i < length xs \<Longrightarrow> mset xs = add_mset (xs ! i) (mset (drop_nth i xs))"
  unfolding drop_nth_def by (subst id_take_nth_drop [of i xs]) simp_all

lemma set_drop_nth: "set (drop_nth i xs) \<subseteq> set xs"
  unfolding drop_nth_def by (auto dest: in_set_takeD in_set_dropD)

lemma remove_task_drop_nth: "remove_task i s = s\<lparr>tasks := drop_nth i (tasks s), permits := Suc (permits s)\<rparr>"
  by (simp add: remove_task_def drop_nth_def)

lemma task_msgs_drop_nth:
  assumes "i < length ts" and "task_msg (ts ! i) = m"
  shows "mset (map task_msg ts) = add_mset m (mset (map task_msg (drop_nth i ts)))"
  using mset_drop_nth [of i "map task_msg ts"] assms by (simp add: drop_nth_def take_map drop_map)

lemma serves_step:
  assumes "node_step s s'" and "serves tg ch R s" and "length (tasks s') \<le> length (tasks s)" and "dispatch s' = dispatch s"
  shows "serves tg ch R s' \<and> node_msgs ch s' = node_msgs ch s"
  using assms
proof (cases rule: node_step.cases)
  case (lookup_found i t m ch')
  then have "task_msg ` {tasks s ! i} = {m}" "ch' = ch" "t = tg" "(t, m) \<in> R"
    using assms(2) nth_mem [of i "tasks s"] by (auto simp: serves_def hm_get_def split: if_splits)
  moreover have "map task_msg ((tasks s)[i := Send ch' m]) = map task_msg (tasks s)"
    using lookup_found by (metis list_update_id map_update task_msg.simps)
  ultimately show ?thesis using assms(2) lookup_found
    by (auto simp: serves_def node_msgs_def chan_msgs_def dest!: set_update_subset_insert [THEN subsetD])
next
  case (lookup_missing i t m)
  have "mset (map task_msg (tasks s)) = add_mset m (mset (map task_msg (drop_nth i (tasks s))))"
    using lookup_missing by (intro task_msgs_drop_nth) simp_all
  then show ?thesis using assms(2) lookup_missing set_drop_nth [of i "tasks s"]
    by (auto simp: serves_def node_msgs_def chan_msgs_def remove_task_drop_nth)
next
  case (send_ok i ch' m q)
  have "mset (map task_msg (tasks s)) = add_mset m (mset (map task_msg (drop_nth i (tasks s))))"
    using send_ok by (intro task_msgs_drop_nth) simp_all
  moreover have "ch' = ch" "(tg, m) \<in> R" using assms(2) send_ok nth_mem [of i "tasks s"] by (auto simp: serves_def)
  ultimately show ?thesis using assms(2) send_ok set_drop_nth [of i "tasks s"]
    by (auto simp: serves_def node_msgs_def chan_msgs_def remove_task_drop_nth chan_send_cases)
next
  case (send_closed i ch' m q)
  have "mset (map task_msg (tasks s)) = add_mset m (mset (map task_msg (drop_nth i (tasks s))))"
    using send_closed by (intro task_msgs_drop_nth) simp_all
  then show ?thesis using assms(2) send_closed set_drop_nth [of i "tasks s"]
    by (auto simp: serves_def node_msgs_def chan_msgs_def remove_task_drop_nth)
next
  case (register t ch')
  then show ?thesis using assms by (auto simp: serves_def node_msgs_def chan_msgs_def node_register_def)
next
  case (register_new n q ch' t)
  then have "hm_get (dispatch s') t = Some ch'"
    by (simp add: node_register_def hm_get_def hm_insert_def update_conv')
  then show ?thesis using register_new assms(4) by simp
next
  case (unregister t)
  then show ?thesis using assms by (auto simp: serves_def node_msgs_def chan_msgs_def node_unregister_def)
qed simp

text \<open>The frames still to be read on some connections.\<close>

definition frames_ahead :: "('m, 'j) codec \<Rightarrow> DistributedConfig \<Rightarrow> instream list \<Rightarrow> (string \<times> 'm) multiset" where
  "frames_ahead c cfg ss = mset (concat (map (\<lambda>s. fst (handle_conn c cfg s)) ss))"

lemma frames_ahead_snoc: "frames_ahead c cfg (ss @ [s]) = frames_ahead c cfg ss + mset (fst (handle_conn c cfg s))"
  by (simp add: frames_ahead_def)

lemma frames_ahead_nth:
  "i < length ss \<Longrightarrow> frames_ahead c cfg ss = mset (fst (handle_conn c cfg (ss ! i))) + frames_ahead c cfg (drop_nth i ss)"
  unfolding frames_ahead_def drop_nth_def by (subst id_take_nth_drop [of i ss]) simp_all

lemma node_conn_turn_frames:
  assumes "node_conn_turn c i nd = Some nd'" and "i < length (nd_conns nd)"
  shows "mset (nd_read nd') + frames_ahead c (nd_config nd) (nd_conns nd')
    = mset (nd_read nd) + frames_ahead c (nd_config nd) (nd_conns nd)"
proof (cases "conn_turn c (nd_config nd) (nd_conns nd ! i)")
  case (Inl r)
  then show ?thesis using assms frames_ahead_nth [OF assms(2), of c "nd_config nd"]
    by (auto simp: node_conn_turn_def handle_conn_stop)
next
  case (Inr x)
  obtain t m s' where x: "x = ((t, m), s')" by (metis prod.exhaust)
  obtain ds r where ds: "handle_conn c (nd_config nd) s' = (ds, r)" by (cases "handle_conn c (nd_config nd) s'")
  have "handle_conn c (nd_config nd) (nd_conns nd ! i) = ((t, m) # ds, r)"
    using Inr x ds by (intro handle_conn_step) simp_all
  moreover have "nd_conns nd' = (nd_conns nd)[i := s']" "nd_read nd' = nd_read nd @ [(t, m)]"
    using assms Inr x by (auto simp: node_conn_turn_def split: if_splits)
  moreover have "drop_nth i ((nd_conns nd)[i := s']) = drop_nth i (nd_conns nd)" by (simp add: drop_nth_def)
  ultimately show ?thesis
    using frames_ahead_nth [OF assms(2), of c "nd_config nd"] frames_ahead_nth [of i "(nd_conns nd)[i := s']" c "nd_config nd"] assms(2) ds
    by simp
qed

lemma node_conn_turn_serves:
  assumes "node_conn_turn c i nd = Some nd'" and "serves tg ch (set (nd_read nd)) (nd_state nd)"
  shows "serves tg ch (set (nd_read nd')) (nd_state nd')"
    and "node_msgs ch (nd_state nd') + mset (map snd (nd_read nd)) = node_msgs ch (nd_state nd) + mset (map snd (nd_read nd'))"
    and "set (nd_read nd) \<subseteq> set (nd_read nd')" and "nd_config nd' = nd_config nd" and "nd_opened nd' = nd_opened nd"
  using assms
  by (auto simp: node_conn_turn_def serves_def node_msgs_def split: sum.splits prod.splits if_splits)

section \<open>Properties\<close>

text \<open>C16. The served registry. In every run of the registry server (connections accepted, with or
  without TLS, and served concurrently, handlers ending, evictions, in any interleaving and at
  non-decreasing times) the registry is the result of exactly the requests the handlers have read and of
  the evictions, in the order they ran, so that listing it yields the live leases among them.\<close>

theorem registry_server_refines_leases:
  assumes run: "registry_run net c ord acts now sv" and ord: "\<forall>xs. mset (ord xs) = mset xs"
  shows "srv_registry sv = fold reg_act acts (with_ttl DEFAULT_RECORD_TTL)
    \<and> set (reg_list ord now (srv_registry sv))
      = {r. \<exists>k. lease k acts = Some r \<and> unat now - unat (registered_at r) \<le> as_secs DEFAULT_RECORD_TTL}"
  using registry_run_refines [OF run] reg_list_leases [of acts now ord DEFAULT_RECORD_TTL] ord
  by (auto simp: registry_new_def)

text \<open>A server to which a client has sent one registration.\<close>

definition demo_reg_ctl :: ctl_codec where
  "demo_reg_ctl = \<lparr>ctl_to_vec = (\<lambda>m. Inl ''unsupported''),
     ctl_from_slice = (\<lambda>b. if b = [5] then Inr (Register (demo_record ''a'')) else Inl ''syntax'')\<rparr>"

definition demo_registering :: conn where
  "demo_registering = \<lparr>c_out = fresh_out, c_in = \<lparr>bytes = [1, 0, 0, 0, 5], tail = Eof\<rparr>\<rparr>"

definition demo_server :: "nat RegistryServer" where
  "demo_server = (registry_started ''h:1'' None)\<lparr>srv_conns := [demo_registering]\<rparr>"

lemma demo_server_run:
  "registry_run net demo_reg_ctl rev [] 7 demo_server"
  "registry_run net demo_reg_ctl rev [(7, Reg (demo_record ''a''))] 7 (registry_conn_turn demo_reg_ctl rev 7 0 demo_server)"
proof -
  have "registry_accepted net (Inr demo_registering) (registry_started ''h:1'' None) = demo_server"
    by (simp add: registry_accepted_def registry_started_def accept_def stream_inside_def demo_server_def)
  moreover have "registry_run net demo_reg_ctl rev [] 7 (registry_accepted net (Inr demo_registering) (registry_started ''h:1'' None))"
    by (rule registry_run.accepts [OF registry_run.bound order_refl])
  ultimately show run: "registry_run net demo_reg_ctl rev [] 7 demo_server" by simp
  have "read_u32_le (c_in demo_registering) = (Ready (Inr 1), \<lparr>bytes = [5], tail = Eof\<rparr>)"
    by (simp add: read_u32_le_def read_exact_def demo_registering_def u32_from_le_def)
  then have "next_actions demo_reg_ctl demo_registering = [Reg (demo_record ''a'')]"
    by (simp add: next_actions_def read_control_stalls_def read_control_def read_control_len_def read_exact_def demo_reg_ctl_def
        MAX_CONTROL_FRAME_def)
  then show "registry_run net demo_reg_ctl rev [(7, Reg (demo_record ''a''))] 7 (registry_conn_turn demo_reg_ctl rev 7 0 demo_server)"
    using registry_run.handles [OF run, of 7 0] by (simp add: demo_server_def)
qed

theorem registry_server_refines_leases_witness:
  "set (reg_list rev 7 (srv_registry (registry_conn_turn demo_reg_ctl rev 7 0 demo_server)))
     = {(demo_record ''a'')\<lparr>registered_at := 7\<rparr>}"
proof -
  have "{r. \<exists>k. lease k [(7, Reg (demo_record ''a''))] = Some r \<and> unat (7 :: u64) - unat (registered_at r) \<le> as_secs DEFAULT_RECORD_TTL}
      = {(demo_record ''a'')\<lparr>registered_at := 7\<rparr>}"
    by (auto simp: lease_def demo_record_def split: if_splits)
  moreover have "\<forall>xs. mset (rev xs) = mset xs" by simp
  note registry_server_refines_leases [OF demo_server_run(2) this, THEN conjunct2]
  ultimately show ?thesis by (simp only:)
qed

end
