(* ===== verification/Serve.thy ===== *)
theory Serve
  imports Node_Server Actor
begin

text \<open>
  Serving an actor over TCP: \<open>serve_actor*\<close> of \<open>src/distributed.rs\<close> and \<open>serve_microservice*\<close> of
  \<open>src/mesh.rs\<close>. A served actor is a spawned actor, a node whose table has one entry, and the bridge task
  that moves messages from the node's channel into the actor's mailbox. The channel of the served target
  is number 0; it has the capacity of the configuration, and the bridge holds one message more while it
  waits for room in the mailbox. \<open>sv_delivered\<close> and \<open>sv_lost\<close> are history variables of the bridge.
\<close>

section \<open>Serving\<close>

record ('m, 'acc) NodeHandle =
  sv_member :: ClusterMember
  sv_node :: "('m, 'acc) NodeServer"
  sv_ref :: ActorRef
  sv_bridge :: bool                            \<comment> \<open>the bridge task runs\<close>
  sv_hand :: "'m option"                       \<comment> \<open>the message \<open>rx.recv()\<close> returned, being sent on\<close>
  sv_delivered :: "'m list"
  sv_lost :: "'m list"

definition nh_address :: "('m, 'acc) NodeHandle \<Rightarrow> string" where
  "nh_address h = node_addr (sv_member h)"

definition nh_name :: "('m, 'acc) NodeHandle \<Rightarrow> string" where
  "nh_name h = name (sv_member h)"

text \<open>The last reference to an actor goes out of scope.\<close>

definition drop_ref :: "ActorRef \<Rightarrow> ('a, 'm) World \<Rightarrow> ('a, 'm) World" where
  "drop_ref r w = (case World.tasks w (ref_id r) of None \<Rightarrow> w | Some t \<Rightarrow> set_task (ref_id r) (t\<lparr>senders := False\<rparr>) w)"

definition nd_channel :: "'m chan \<Rightarrow> ('m, 'acc) NodeServer \<Rightarrow> ('m, 'acc) NodeServer" where
  "nd_channel q nd = nd\<lparr>nd_state := (nd_state nd)\<lparr>channels := (channels (nd_state nd))(0 := q)\<rparr>\<rparr>"

definition serve_actor_on_runtime ::
  "'l listen_net \<Rightarrow> string \<Rightarrow> string \<Rightarrow> string \<Rightarrow> ('a, 'm) DynActor \<Rightarrow> DistributedConfig \<Rightarrow> ActorConfig \<Rightarrow> 'acc option
     \<Rightarrow> ('a, 'm) World \<Rightarrow> (('m, 'acc) NodeHandle io_result \<times> ('a, 'm) World) outcome" where
  "serve_actor_on_runtime lnet n addr tg a dcfg acfg acceptor w =
     (case spawn_on_runtime a None acfg w of
        Panics e \<Rightarrow> Panics e
      | Returns (r, w1) \<Rightarrow>
          (case bind_on_runtime lnet n addr dcfg acceptor of
             Inl e \<Rightarrow> Returns (Inl e, drop_ref r w1)
           | Inr nd \<Rightarrow>
               (case channel (bridge_capacity dcfg) of
                  Panics e \<Rightarrow> Panics e
                | Returns q \<Rightarrow>
                    Returns (Inr \<lparr>sv_member = \<lparr>name = n, node_addr = nd_addr nd, member_target = tg\<rparr>,
                                  sv_node = nd_register tg 0 (nd_channel q nd), sv_ref = r, sv_bridge = True,
                                  sv_hand = None, sv_delivered = [], sv_lost = []\<rparr>, w1))))"

definition serve_actor_tls_on_runtime ::
  "'l listen_net \<Rightarrow> string \<Rightarrow> string \<Rightarrow> string \<Rightarrow> ('a, 'm) DynActor \<Rightarrow> DistributedConfig \<Rightarrow> ActorConfig \<Rightarrow> 'acc
     \<Rightarrow> ('a, 'm) World \<Rightarrow> (('m, 'acc) NodeHandle io_result \<times> ('a, 'm) World) outcome" where
  "serve_actor_tls_on_runtime lnet n addr tg a dcfg acfg acceptor w =
     serve_actor_on_runtime lnet n addr tg a dcfg acfg (Some acceptor) w"

definition serve_actor_on_current_runtime ::
  "'l listen_net \<Rightarrow> string \<Rightarrow> string \<Rightarrow> string \<Rightarrow> ('a, 'm) DynActor \<Rightarrow> DistributedConfig \<Rightarrow> ActorConfig
     \<Rightarrow> ('a, 'm) World \<Rightarrow> (('m, 'acc) NodeHandle io_result \<times> ('a, 'm) World) outcome" where
  "serve_actor_on_current_runtime lnet n addr tg a dcfg acfg w = serve_actor_on_runtime lnet n addr tg a dcfg acfg None w"

definition serve_actor ::
  "'l listen_net \<Rightarrow> string \<Rightarrow> string \<Rightarrow> string \<Rightarrow> ('a, 'm) DynActor
     \<Rightarrow> ('a, 'm) World \<Rightarrow> (('m, 'acc) NodeHandle io_result \<times> ('a, 'm) World) outcome" where
  "serve_actor lnet n addr tg a w =
     serve_actor_on_runtime lnet n addr tg a DistributedConfig_default ActorConfig_default None w"

text \<open>The record of a served instance, around its node.\<close>

definition microservice_handle :: "string \<Rightarrow> string \<Rightarrow> ('m, 'acc) NodeHandle \<Rightarrow> ('m, 'acc) NodeHandle MicroserviceHandle" where
  "microservice_handle srv i h =
     \<lparr>handle_record = \<lparr>service = srv, instance_id = i, address = nh_address h, rec_target = i, registered_at = 0\<rparr>, node = h\<rparr>"

definition serve_microservice ::
  "'l listen_net \<Rightarrow> string \<Rightarrow> string \<Rightarrow> string \<Rightarrow> ('a, 'm) DynActor
     \<Rightarrow> ('a, 'm) World \<Rightarrow> (('m, 'acc) NodeHandle MicroserviceHandle io_result \<times> ('a, 'm) World) outcome" where
  "serve_microservice lnet srv i addr a w =
     (case serve_actor lnet i addr i a w of
        Panics e \<Rightarrow> Panics e
      | Returns (Inl e, w') \<Rightarrow> Returns (Inl e, w')
      | Returns (Inr h, w') \<Rightarrow> Returns (Inr (microservice_handle srv i h), w'))"

definition serve_microservice_tls ::
  "'l listen_net \<Rightarrow> string \<Rightarrow> string \<Rightarrow> string \<Rightarrow> ('a, 'm) DynActor \<Rightarrow> 'acc
     \<Rightarrow> ('a, 'm) World \<Rightarrow> (('m, 'acc) NodeHandle MicroserviceHandle io_result \<times> ('a, 'm) World) outcome" where
  "serve_microservice_tls lnet srv i addr a acceptor w =
     (case serve_actor_tls_on_runtime lnet i addr i a DistributedConfig_default ActorConfig_default acceptor w of
        Panics e \<Rightarrow> Panics e
      | Returns (Inl e, w') \<Rightarrow> Returns (Inl e, w')
      | Returns (Inr h, w') \<Rightarrow> Returns (Inr (microservice_handle srv i h), w'))"

section \<open>The bridge\<close>

text \<open>One turn of the bridge task: it takes a message from the channel, or sends the one it has taken to
  the actor. \<open>None\<close> while the channel is empty, or the mailbox full. When the actor's mailbox is closed
  the task ends and drops the receiver with what it holds.\<close>

definition bridge_turn ::
  "('m, 'acc) NodeHandle \<times> ('a, 'm) World \<Rightarrow> (('m, 'acc) NodeHandle \<times> ('a, 'm) World) option" where
  "bridge_turn st =
     (case st of (h, w) \<Rightarrow>
        let rx = channels (nd_state (sv_node h)) 0 in
        if \<not> sv_bridge h then None
        else case sv_hand h of
               None \<Rightarrow>
                 (case queue rx of
                    [] \<Rightarrow> None
                  | m # q \<Rightarrow> Some (h\<lparr>sv_node := nd_channel (rx\<lparr>queue := q\<rparr>) (sv_node h), sv_hand := Some m\<rparr>, w))
             | Some m \<Rightarrow>
                 (case ref_send (sv_ref h) m w of
                    None \<Rightarrow> None
                  | Some (True, w') \<Rightarrow> Some (h\<lparr>sv_hand := None, sv_delivered := sv_delivered h @ [m]\<rparr>, w')
                  | Some (False, w') \<Rightarrow>
                      Some (h\<lparr>sv_node := nd_channel (close rx) (sv_node h), sv_hand := None, sv_bridge := False,
                              sv_lost := sv_lost h @ m # queue rx\<rparr>, w')))"

text \<open>The steps of a served actor: the accept loop, a connection handler, a dispatch task, the bridge, or
  anything in the world of actors. The table of a served node never changes: the node is private.\<close>

inductive served_step ::
  "('name, 'con, 'acc) data_net \<Rightarrow> ('m, 'j) codec \<Rightarrow> (ActorId list \<Rightarrow> ActorId list)
     \<Rightarrow> ('m, 'acc) NodeHandle \<times> ('a, 'm) World \<Rightarrow> ('m, 'acc) NodeHandle \<times> ('a, 'm) World \<Rightarrow> bool" for net c ord where
  accepts: "served_step net c ord (h, w) (h\<lparr>sv_node := node_accepted net r (sv_node h)\<rparr>, w)"
| reads: "i < length (nd_conns (sv_node h)) \<Longrightarrow> node_conn_turn c i (sv_node h) = Some nd \<Longrightarrow>
     served_step net c ord (h, w) (h\<lparr>sv_node := nd\<rparr>, w)"
| dispatches: "node_step (nd_state (sv_node h)) s \<Longrightarrow> length (NodeState.tasks s) \<le> length (NodeState.tasks (nd_state (sv_node h))) \<Longrightarrow>
     dispatch s = dispatch (nd_state (sv_node h)) \<Longrightarrow>
     served_step net c ord (h, w) (h\<lparr>sv_node := (sv_node h)\<lparr>nd_state := s\<rparr>\<rparr>, w)"
| bridges: "bridge_turn (h, w) = Some st \<Longrightarrow> served_step net c ord (h, w) st"
| elsewhere: "astep ord w w' \<Longrightarrow> served_step net c ord (h, w) (h, w')"

text \<open>Such a run together with what the bridge has put into the mailbox of its actor, seen in the mailbox.\<close>

inductive delivery_step ::
  "('name, 'con, 'acc) data_net \<Rightarrow> ('m, 'j) codec \<Rightarrow> (ActorId list \<Rightarrow> ActorId list)
     \<Rightarrow> (('m, 'acc) NodeHandle \<times> ('a, 'm) World) \<times> ('a, 'm) Envelope list
     \<Rightarrow> (('m, 'acc) NodeHandle \<times> ('a, 'm) World) \<times> ('a, 'm) Envelope list \<Rightarrow> bool" for net c ord where
  bridged: "bridge_turn (h, w) = Some (h', w') \<Longrightarrow>
     delivery_step net c ord ((h, w), put)
       ((h', w'), put @ drop (length (mail (ref_id (sv_ref h)) w)) (mail (ref_id (sv_ref h)) w'))"
| others: "served_step net c ord st st' \<Longrightarrow> sv_delivered (fst st') = sv_delivered (fst st) \<Longrightarrow>
     delivery_step net c ord (st, put) (st', put)"

section \<open>Conservation\<close>

definition hand_msgs :: "('m, 'acc) NodeHandle \<Rightarrow> 'm list" where
  "hand_msgs h = (case sv_hand h of None \<Rightarrow> [] | Some m \<Rightarrow> [m])"

definition served_inv :: "('m, 'j) codec \<Rightarrow> ('m, 'acc) NodeHandle \<Rightarrow> bool" where
  "served_inv c h \<longleftrightarrow>
     serves (member_target (sv_member h)) 0 (set (nd_read (sv_node h))) (nd_state (sv_node h))
     \<and> mset (map snd (nd_read (sv_node h)))
        = node_msgs 0 (nd_state (sv_node h)) + mset (hand_msgs h @ sv_delivered h @ sv_lost h)
     \<and> frames_ahead c (nd_config (sv_node h)) (nd_opened (sv_node h))
        = mset (nd_read (sv_node h)) + frames_ahead c (nd_config (sv_node h)) (nd_conns (sv_node h))
     \<and> (\<forall>m \<in> set (hand_msgs h @ sv_delivered h). (member_target (sv_member h), m) \<in> set (nd_read (sv_node h)))"

lemma bridge_turn_cases:
  assumes "bridge_turn (h, w) = Some st"
  obtains (takes) m q where "queue (channels (nd_state (sv_node h)) 0) = m # q" "sv_hand h = None" "sv_bridge h"
      "st = (h\<lparr>sv_node := nd_channel ((channels (nd_state (sv_node h)) 0)\<lparr>queue := q\<rparr>) (sv_node h), sv_hand := Some m\<rparr>, w)"
    | (delivers) m w' where "sv_hand h = Some m" "sv_bridge h" "ref_send (sv_ref h) m w = Some (True, w')"
      "st = (h\<lparr>sv_hand := None, sv_delivered := sv_delivered h @ [m]\<rparr>, w')"
    | (closes) m w' where "sv_hand h = Some m" "sv_bridge h" "ref_send (sv_ref h) m w = Some (False, w')"
      "st = (h\<lparr>sv_node := nd_channel (close (channels (nd_state (sv_node h)) 0)) (sv_node h), sv_hand := None,
          sv_bridge := False, sv_lost := sv_lost h @ m # queue (channels (nd_state (sv_node h)) 0)\<rparr>, w')"
  using assms by (auto simp: bridge_turn_def Let_def split: if_splits option.splits list.splits bool.splits)

lemma mset_shift: "A = N + D + L \<Longrightarrow> N' + A = N + A' \<Longrightarrow> A' = N' + D + (L :: 'x multiset)"
  by (metis add.assoc add.left_commute add_left_imp_eq)

lemma served_inv_node:
  assumes "served_inv c h"
    and "serves (member_target (sv_member h)) 0 (set (nd_read nd)) (nd_state nd)"
    and "node_msgs 0 (nd_state nd) + mset (map snd (nd_read (sv_node h))) = node_msgs 0 (nd_state (sv_node h)) + mset (map snd (nd_read nd))"
    and "set (nd_read (sv_node h)) \<subseteq> set (nd_read nd)"
    and "frames_ahead c (nd_config nd) (nd_opened nd) = mset (nd_read nd) + frames_ahead c (nd_config nd) (nd_conns nd)"
  shows "served_inv c (h\<lparr>sv_node := nd\<rparr>)"
proof -
  have "mset (map snd (nd_read nd)) = node_msgs 0 (nd_state nd) + mset (hand_msgs h @ sv_delivered h) + mset (sv_lost h)"
    by (rule mset_shift [OF _ assms(3)]) (use assms(1) in \<open>simp add: served_inv_def\<close>)
  then show ?thesis using assms unfolding served_inv_def by (auto simp: hand_msgs_def)
qed

lemma served_step_inv:
  "served_step net c ord st st' \<Longrightarrow> served_inv c (fst st) \<Longrightarrow> served_inv c (fst st') \<and> sv_member (fst st') = sv_member (fst st)"
proof (induction rule: served_step.induct)
  case (accepts h w r)
  let ?nd = "sv_node h"
  have "served_inv c (h\<lparr>sv_node := node_accepted net r ?nd\<rparr>)"
    using accepts
    by (intro served_inv_node) (auto simp: served_inv_def node_accepted_def frames_ahead_snoc split: sum.splits)
  then show ?case by simp
next
  case (reads i h nd w)
  have "served_inv c (h\<lparr>sv_node := nd\<rparr>)"
  proof (rule served_inv_node)
    show "served_inv c h" using reads by simp
    then have s: "serves (member_target (sv_member h)) 0 (set (nd_read (sv_node h))) (nd_state (sv_node h))"
      and f: "frames_ahead c (nd_config (sv_node h)) (nd_opened (sv_node h))
        = mset (nd_read (sv_node h)) + frames_ahead c (nd_config (sv_node h)) (nd_conns (sv_node h))"
      by (auto simp: served_inv_def)
    note n = node_conn_turn_serves [OF reads(2) s]
    show "serves (member_target (sv_member h)) 0 (set (nd_read nd)) (nd_state nd)"
      "node_msgs 0 (nd_state nd) + mset (map snd (nd_read (sv_node h))) = node_msgs 0 (nd_state (sv_node h)) + mset (map snd (nd_read nd))"
      "set (nd_read (sv_node h)) \<subseteq> set (nd_read nd)" using n by auto
    show "frames_ahead c (nd_config nd) (nd_opened nd) = mset (nd_read nd) + frames_ahead c (nd_config nd) (nd_conns nd)"
      using node_conn_turn_frames [OF reads(2,1)] f n(4,5) by simp
  qed
  then show ?case by simp
next
  case (dispatches h s w)
  have "serves (member_target (sv_member h)) 0 (set (nd_read (sv_node h))) (nd_state (sv_node h))"
    using dispatches by (simp add: served_inv_def)
  from serves_step [OF dispatches(1) this dispatches(2,3)] have "served_inv c (h\<lparr>sv_node := (sv_node h)\<lparr>nd_state := s\<rparr>\<rparr>)"
    using dispatches by (intro served_inv_node) (auto simp: served_inv_def)
  then show ?case by simp
next
  case (bridges h w st)
  then show ?case
  proof (cases rule: bridge_turn_cases)
    case (takes m q)
    then show ?thesis using bridges by (auto simp: served_inv_def serves_def node_msgs_def chan_msgs_def hand_msgs_def nd_channel_def)
  next
    case (delivers m w')
    then show ?thesis using bridges by (auto simp: served_inv_def serves_def node_msgs_def chan_msgs_def hand_msgs_def)
  next
    case (closes m w')
    then show ?thesis using bridges
      by (auto simp: served_inv_def serves_def node_msgs_def chan_msgs_def hand_msgs_def nd_channel_def close_def)
  qed
qed simp

interpretation served_sys: conserving "served_step net c ord" "\<lambda>st. served_inv c (fst st)" "\<lambda>st. sv_member (fst st)"
  for net c ord
  by unfold_locales (auto dest: served_step_inv)

lemma serve_actor_inv:
  assumes "serve_actor_on_runtime lnet n addr tg a dcfg acfg acceptor w = Returns (Inr h, w')"
  shows "served_inv c h" and "member_target (sv_member h) = tg"
  using assms
  by (auto simp: serve_actor_on_runtime_def bind_on_runtime_def nd_register_def node_register_def node_bound_def served_inv_def
      serves_def node_msgs_def chan_msgs_def frames_ahead_def hm_insert_def hand_msgs_def nd_channel_def channel_def
      split: outcome.splits sum.splits)

section \<open>What reaches the mailbox\<close>

lemma ref_send_mail:
  "ref_send r m w = Some (ok, w') \<Longrightarrow> mail (ref_id r) w' = mail (ref_id r) w @ (if ok then [Msg m] else [])"
  by (auto simp: ref_send_def ref_tx_send_def mail_def set_task_def chan_send_def split: option.splits if_splits)

definition delivery_inv :: "(('m, 'acc) NodeHandle \<times> ('a, 'm) World) \<times> ('a, 'm) Envelope list \<Rightarrow> bool" where
  "delivery_inv st \<longleftrightarrow> snd st = map Msg (sv_delivered (fst (fst st)))"

lemma delivery_step_inv: "delivery_step net c ord st st' \<Longrightarrow> delivery_inv st \<Longrightarrow> delivery_inv st'"
proof (induction rule: delivery_step.induct)
  case (bridged h w h' w' put)
  from bridged.hyps show ?case
    by (cases rule: bridge_turn_cases) (use bridged.prems ref_send_mail in \<open>force simp: delivery_inv_def\<close>)+
qed (simp add: delivery_inv_def)

interpretation delivery_sys: step_invariant "delivery_step net c ord" delivery_inv for net c ord
  by unfold_locales (rule delivery_step_inv)

text \<open>These are all the runs of a served actor, with a history.\<close>

lemma delivery_served: "delivery_step net c ord st st' \<Longrightarrow> served_step net c ord (fst st) (fst st')"
  by (induction rule: delivery_step.induct) (auto intro: served_step.bridges)

lemma delivery_run_served: "(delivery_step net c ord)\<^sup>*\<^sup>* st st' \<Longrightarrow> (served_step net c ord)\<^sup>*\<^sup>* (fst st) (fst st')"
  by (induction rule: rtranclp_induct) (auto intro: rtranclp.rtrancl_into_rtrancl dest: delivery_served)

lemma served_delivery:
  assumes "served_step net c ord st st'"
  shows "\<exists>put'. delivery_step net c ord (st, put) (st', put')"
  using assms
proof cases
  case (bridges h w)
  obtain h' w' where "st' = (h', w')" by (cases st')
  then show ?thesis using bridges delivery_step.bridged [of h w h' w' net c ord put] by auto
qed (rule exI, rule delivery_step.others [OF assms], simp)+

lemma served_run_delivery: "(served_step net c ord)\<^sup>*\<^sup>* st st' \<Longrightarrow> \<exists>put. (delivery_step net c ord)\<^sup>*\<^sup>* (st, []) (st', put)"
proof (induction rule: rtranclp_induct)
  case (step st1 st2)
  then show ?case using served_delivery by (meson rtranclp.rtrancl_into_rtrancl)
qed blast

section \<open>One message all the way\<close>

text \<open>The states a freshly served actor passes through while one frame arrives.\<close>

definition idle_node :: "string \<Rightarrow> string \<Rightarrow> 'm NodeState \<Rightarrow> instream list \<Rightarrow> instream list \<Rightarrow> (string \<times> 'm) list \<Rightarrow> ('m, 'acc) NodeServer" where
  "idle_node i a s cs os rs =
     \<lparr>nd_name = i, nd_addr = a, nd_config = DistributedConfig_default, nd_tls = None, nd_state = s, nd_listening = True,
      nd_conns = cs, nd_opened = os, nd_read = rs\<rparr>"

definition idle_state :: "string \<Rightarrow> nat \<Rightarrow> 'm task list \<Rightarrow> 'm list \<Rightarrow> 'm NodeState" where
  "idle_state i p ts q = \<lparr>dispatch = [(i, 0)], permits = p, tasks = ts, channels = (\<lambda>_. no_chan)(0 := \<lparr>cap = 32, queue = q, rx_open = True\<rparr>), dropped = []\<rparr>"

definition idle_handle ::
  "string \<Rightarrow> string \<Rightarrow> ActorRef \<Rightarrow> ('m, 'acc) NodeServer \<Rightarrow> 'm option \<Rightarrow> 'm list \<Rightarrow> ('m, 'acc) NodeHandle" where
  "idle_handle i a r nd x dl =
     \<lparr>sv_member = \<lparr>name = i, node_addr = a, member_target = i\<rparr>, sv_node = nd, sv_ref = r, sv_bridge = True,
      sv_hand = x, sv_delivered = dl, sv_lost = []\<rparr>"

lemma idle_bound:
  "nd_register i 0 (nd_channel \<lparr>cap = 32, queue = [], rx_open = True\<rparr>
       \<lparr>nd_name = i, nd_addr = a, nd_config = DistributedConfig_default, nd_tls = None,
        nd_state = node_bound DistributedConfig_default, nd_listening = True, nd_conns = [], nd_opened = [], nd_read = []\<rparr>)
     = idle_node i a (idle_state i 32 [] []) [] [] []"
  by (simp add: nd_register_def nd_channel_def node_register_def node_bound_def idle_node_def idle_state_def hm_insert_def
      DistributedConfig_default_def)

lemma idle_channel: "channel (bridge_capacity DistributedConfig_default) = Returns \<lparr>cap = 32, queue = [], rx_open = True\<rparr>"
  by (simp add: channel_def mpsc_capacity_def DistributedConfig_default_def)

lemma one_frame_delivered:
  fixes c :: "('m, 'j) codec" and net :: "('name, 'con, 'acc) data_net"
  assumes c: "codec_ok c" "sendable c (max_frame_bytes DistributedConfig_default) (i, m)"
    and send: "ref_send r m w = Some (True, w')"
  shows "\<exists>h. (delivery_step net c ord)\<^sup>*\<^sup>* ((idle_handle i a r (idle_node i a (idle_state i 32 [] []) [] [] []) None [], w), [])
      ((h, w'), [Msg m])
    \<and> sv_delivered h = [m] \<and> nd_opened (sv_node h) = [\<lparr>bytes = wire c (i, m), tail = Eof\<rparr>] \<and> nd_read (sv_node h) = [(i, m)]"
proof -
  let ?in = "\<lparr>bytes = wire c (i, m), tail = Eof\<rparr>" and ?rest = "\<lparr>bytes = [], tail = Eof\<rparr>"
  let ?h = "\<lambda>s cs rs x dl. idle_handle i a r (idle_node i a s cs (if rs = [] \<and> cs = [] then [] else [?in]) rs) x dl :: ('m, 'acc) NodeHandle"
  let ?step = "\<lambda>h h'. delivery_step net c ord ((h, w), []) ((h', w), [])"
  have lift: "?step h h'" if "served_step net c ord (h, w) (h', w)" "sv_delivered h' = sv_delivered h" for h h'
    using delivery_step.others [OF that(1), of "[]"] that(2) by simp
  have 1: "?step (?h (idle_state i 32 [] []) [] [] None []) (?h (idle_state i 32 [] []) [?in] [] None [])"
    using served_step.accepts [where net = net and c = c and ord = ord and h = "?h (idle_state i 32 [] []) [] [] None []"
        and r = "Inr ?in" and w = w]
    by (intro lift) (simp_all add: node_accepted_def idle_handle_def idle_node_def accept_def stream_inside_def)
  have "conn_turn c DistributedConfig_default ?in = Inr ((i, m), ?rest)"
    using conn_turn_frame [OF c, of "[]" Eof] by simp
  then have "node_conn_turn c 0 (sv_node (?h (idle_state i 32 [] []) [?in] [] None []))
      = Some (sv_node (?h (idle_state i 31 [Lookup i m] []) [?rest] [(i, m)] None []))"
    by (simp add: node_conn_turn_def idle_handle_def idle_node_def idle_state_def)
  from served_step.reads [where net = net and ord = ord and w = w, OF _ this]
  have 2: "?step (?h (idle_state i 32 [] []) [?in] [] None []) (?h (idle_state i 31 [Lookup i m] []) [?rest] [(i, m)] None [])"
    by (intro lift) (simp_all add: idle_handle_def idle_node_def)
  have task: "?step (?h s [?rest] [(i, m)] None []) (?h s' [?rest] [(i, m)] None [])"
    if "node_step s s'" "length (NodeState.tasks s') \<le> length (NodeState.tasks s)" "dispatch s' = dispatch s" for s s'
    using served_step.dispatches [where net = net and c = c and ord = ord and w = w and h = "?h s [?rest] [(i, m)] None []" and s = s'] that
    by (intro lift) (simp_all add: idle_handle_def idle_node_def)
  have 3: "?step (?h (idle_state i 31 [Lookup i m] []) [?rest] [(i, m)] None []) (?h (idle_state i 31 [Send 0 m] []) [?rest] [(i, m)] None [])"
    using node_step.lookup_found [of 0 "idle_state i 31 [Lookup i m] []" i m 0]
    by (intro task) (simp_all add: idle_state_def hm_get_def)
  have 4: "?step (?h (idle_state i 31 [Send 0 m] []) [?rest] [(i, m)] None []) (?h (idle_state i 32 [] [m]) [?rest] [(i, m)] None [])"
    using node_step.send_ok [of 0 "idle_state i 31 [Send 0 m] []" 0 m "\<lparr>cap = 32, queue = [m], rx_open = True\<rparr>"]
    by (intro task) (simp_all add: idle_state_def remove_task_def chan_send_def)
  have "bridge_turn (?h (idle_state i 32 [] [m]) [?rest] [(i, m)] None [], w)
      = Some (?h (idle_state i 32 [] []) [?rest] [(i, m)] (Some m) [], w)"
    by (simp add: bridge_turn_def idle_handle_def idle_node_def nd_channel_def idle_state_def)
  then have 5: "?step (?h (idle_state i 32 [] [m]) [?rest] [(i, m)] None []) (?h (idle_state i 32 [] []) [?rest] [(i, m)] (Some m) [])"
    by (intro lift served_step.bridges) (simp_all add: idle_handle_def)
  let ?last = "?h (idle_state i 32 [] []) [?rest] [(i, m)] None [m]"
  have "bridge_turn (?h (idle_state i 32 [] []) [?rest] [(i, m)] (Some m) [], w) = Some (?last, w')"
    using send by (simp add: bridge_turn_def idle_handle_def)
  from delivery_step.bridged [where net = net and c = c and ord = ord and put = "[]", OF this]
  have 6: "delivery_step net c ord ((?h (idle_state i 32 [] []) [?rest] [(i, m)] (Some m) [], w), []) ((?last, w'), [Msg m])"
    using ref_send_mail [OF send] by (simp add: idle_handle_def)
  have "(delivery_step net c ord)\<^sup>*\<^sup>* ((?h (idle_state i 32 [] []) [] [] None [], w), []) ((?last, w'), [Msg m])"
    using 1 2 3 4 5 6 by (meson converse_rtranclp_into_rtranclp rtranclp.rtrancl_refl)
  then show ?thesis by (intro exI [of _ ?last]) (simp add: idle_handle_def idle_node_def)
qed

lemma serve_actor_idle:
  assumes "serve_actor lnet i addr i a w = Returns (Inr h, w')"
  obtains r ad where "spawn_on_runtime a None ActorConfig_default w = Returns (r, w')"
    "h = idle_handle i ad r (idle_node i ad (idle_state i 32 [] []) [] [] []) None []"
  using assms
  by (auto simp: serve_actor_def serve_actor_on_runtime_def bind_on_runtime_def idle_channel idle_bound idle_handle_def
      split: outcome.splits sum.splits) (simp add: idle_node_def)?

lemma serve_microservice_idle:
  assumes "serve_microservice lnet srv i addr a w = Returns (Inr mh, w')"
  obtains r ad where "spawn_on_runtime a None ActorConfig_default w = Returns (r, w')"
    "mh = \<lparr>handle_record = \<lparr>service = srv, instance_id = i, address = ad, rec_target = i, registered_at = 0\<rparr>,
           node = idle_handle i ad r (idle_node i ad (idle_state i 32 [] []) [] [] []) None []\<rparr>"
proof -
  obtain h where h: "serve_actor lnet i addr i a w = Returns (Inr h, w')" "mh = microservice_handle srv i h"
    using assms by (auto simp: serve_microservice_def split: outcome.splits sum.splits)
  show thesis
    by (rule serve_actor_idle [OF h(1)]) (rule that, auto simp: h(2) microservice_handle_def nh_address_def idle_handle_def)
qed

lemma fresh_actor_has_room:
  assumes "spawn_on_runtime a None ActorConfig_default w = Returns (r, w1)"
  obtains t where "World.tasks w1 (ref_id r) = Some t"
    "ref_send r m w1 = Some (True, set_task (ref_id r) (t\<lparr>mailbox := (mailbox t)\<lparr>queue := [Msg m]\<rparr>\<rparr>) w1)"
proof -
  obtain t where t: "World.tasks w1 (ref_id r) = Some t" "queue (mailbox t) = []" "rx_open (mailbox t)" "cap (mailbox t) = 64"
    using assms by (auto simp: spawning)
  then show thesis by (intro that [of t]) (simp_all add: ref_send_def ref_tx_send_def chan_send_def)
qed

text \<open>When \<open>serve_microservice\<close> returns, its record has the address the node is bound to and the instance
  id as its frame target, and one frame for that target, written on a new connection, can travel through
  handler, dispatch task, channel and bridge into the empty mailbox of the actor.\<close>

lemma microservice_end_to_end:
  fixes c :: "('m, 'j) codec" and net :: "('name, 'con, 'acc) data_net" and w :: "('a, 'm) World"
    and mh :: "('m, 'acc) NodeHandle MicroserviceHandle"
  assumes serve: "serve_microservice lnet srv i addr a w = Returns (Inr mh, w1)" and codec: "codec_ok c"
    and fit: "sendable c (max_frame_bytes DistributedConfig_default) (i, m)"
  shows "rec_target (handle_record mh) = i \<and> instance_id (handle_record mh) = i \<and> service (handle_record mh) = srv
    \<and> address (handle_record mh) = nd_addr (sv_node (node mh))
    \<and> (\<exists>h w2 t. (served_step net c ord)\<^sup>*\<^sup>* (node mh, w1) (h, w2)
        \<and> nd_opened (sv_node h) = [\<lparr>bytes = wire c (rec_target (handle_record mh), m), tail = Eof\<rparr>]
        \<and> World.tasks w2 (ref_id (sv_ref (node mh))) = Some t \<and> queue (mailbox t) = [Msg m])"
proof -
  obtain r ad where s: "spawn_on_runtime a None ActorConfig_default w = Returns (r, w1)"
    and mh: "mh = \<lparr>handle_record = \<lparr>service = srv, instance_id = i, address = ad, rec_target = i, registered_at = 0\<rparr>,
           node = idle_handle i ad r (idle_node i ad (idle_state i 32 [] []) [] [] []) None []\<rparr>"
    by (rule serve_microservice_idle [OF serve])
  obtain t where t: "World.tasks w1 (ref_id r) = Some t"
    "ref_send r m w1 = Some (True, set_task (ref_id r) (t\<lparr>mailbox := (mailbox t)\<lparr>queue := [Msg m]\<rparr>\<rparr>) w1)"
    by (rule fresh_actor_has_room [OF s])
  from one_frame_delivered [where net = net and ord = ord and a = ad, OF codec fit t(2)] obtain h where
    d: "(delivery_step net c ord)\<^sup>*\<^sup>* ((node mh, w1), []) ((h, set_task (ref_id r) (t\<lparr>mailbox := (mailbox t)\<lparr>queue := [Msg m]\<rparr>\<rparr>) w1), [Msg m])"
    and o: "nd_opened (sv_node h) = [\<lparr>bytes = wire c (i, m), tail = Eof\<rparr>]" by (auto simp: mh)
  from delivery_run_served [OF d] o show ?thesis by (auto simp: mh idle_handle_def idle_node_def set_task_def intro!: exI)
qed

section \<open>Properties\<close>

text \<open>C5. What a served actor receives. In every run of a served actor, whatever the peers send and
  however handlers, dispatch tasks, the bridge and the actors interleave: the envelopes the bridge has
  appended to the mailbox of the actor (\<open>put\<close>, read off the mailbox itself before and after each turn) are
  exactly the messages it counts as delivered, in that order, and each is the message of a frame read for
  the served target; each frame read is in exactly one place (a dispatch task, the channel, the hand of the
  bridge, the mailbox, dropped for want of a target or receiver, or lost when the actor was gone), so none
  is duplicated; and the frames read are exactly those on the wire of the accepted connections, less the
  ones still ahead.\<close>

theorem served_actor_receives_its_frames:
  assumes "serve_actor_on_runtime lnet n addr tg a dcfg acfg acceptor w0 = Returns (Inr h0, w1)"
    and "(delivery_step net c ord)\<^sup>*\<^sup>* ((h0, w1), []) ((h, w), put)"
  shows "put = map Msg (sv_delivered h) \<and> set put \<subseteq> {Msg m | m. (tg, m) \<in> set (nd_read (sv_node h))}
    \<and> mset (map (Msg \<circ> snd) (nd_read (sv_node h))) = mset put
        + image_mset Msg (mset (map task_msg (NodeState.tasks (nd_state (sv_node h))))
            + mset (chan_msgs 0 (nd_state (sv_node h))) + mset (hand_msgs h)
            + mset (dropped (nd_state (sv_node h))) + mset (sv_lost h))
    \<and> frames_ahead c (nd_config (sv_node h)) (nd_opened (sv_node h))
        = mset (nd_read (sv_node h)) + frames_ahead c (nd_config (sv_node h)) (nd_conns (sv_node h))"
proof -
  have "delivery_inv ((h0, w1), [])"
    using assms(1) by (auto simp: delivery_inv_def serve_actor_on_runtime_def split: outcome.splits sum.splits)
  then have put: "put = map Msg (sv_delivered h)" using delivery_sys.steps_inv [OF assms(2)] by (simp add: delivery_inv_def)
  have run: "(served_step net c ord)\<^sup>*\<^sup>* (h0, w1) (h, w)" using delivery_run_served [OF assms(2)] by simp
  have inv: "served_inv c h" "member_target (sv_member h) = tg"
    using served_sys.steps_inv [OF run] served_sys.steps_quantity [OF run] serve_actor_inv(1) [OF assms(1), of c]
      serve_actor_inv(2) [OF assms(1)] by simp_all
  have "mset (map (Msg \<circ> snd) (nd_read (sv_node h))) = image_mset Msg (mset (map snd (nd_read (sv_node h))))"
    by (simp add: image_mset.compositionality comp_def)
  then show ?thesis using inv put by (auto simp: served_inv_def node_msgs_def ac_simps)
qed

definition demo_lnet :: "nat listen_net" where
  "demo_lnet = \<lparr>tcp_bind = (\<lambda>_. Inr 0), local_addr = (\<lambda>_. Inr ''127.0.0.1:9'')\<rparr>"

definition demo_byte_world :: "(unit, u8) World" where
  "demo_byte_world = world_new (\<lambda>_. \<lparr>cap = 4, queue = [], rx_open = True\<rparr>)"

lemma demo_serve:
  "\<exists>(mh :: (u8, nat) NodeHandle MicroserviceHandle) w. serve_microservice demo_lnet ''svc'' ''w'' ''127.0.0.1:0'' (actor_defaults ()) demo_byte_world
     = Returns (Inr mh, w)"
  by (simp add: serve_microservice_def serve_actor_def serve_actor_on_runtime_def spawn_on_runtime_def channel_def demo_byte_world_def
      ActorId_new_def bind_on_runtime_def demo_lnet_def mpsc_capacity_def DistributedConfig_default_def ActorConfig_default_def)

definition demo_data_net :: "(nat, nat, nat) data_net" where
  "demo_data_net = \<lparr>tcp_connect = (\<lambda>_. Inl eof_error), server_name = (\<lambda>_. Inr 0), connector_connect = (\<lambda>_ _ s. Inr s),
     acceptor_accept = (\<lambda>_ s. Inr s)\<rparr>"

lemma demo_serve_actor:
  obtains h :: "(u8, nat) NodeHandle" and w where
    "serve_actor_on_runtime demo_lnet ''w'' ''127.0.0.1:0'' ''w'' (actor_defaults ()) DistributedConfig_default
       ActorConfig_default None demo_byte_world = Returns (Inr h, w)"
  using demo_serve by (auto simp: serve_microservice_def serve_actor_def split: outcome.splits sum.splits)

text \<open>The witness is the run in which one frame for the target \<open>w\<close> arrives and its message, 7, ends in the
  mailbox.\<close>

theorem served_actor_receives_its_frames_witness:
  "\<exists>(h0 :: (u8, nat) NodeHandle) w1 h w put.
     serve_actor_on_runtime demo_lnet ''w'' ''127.0.0.1:0'' ''w'' (actor_defaults ()) DistributedConfig_default
       ActorConfig_default None demo_byte_world = Returns (Inr h0, w1)
     \<and> (delivery_step demo_data_net demo_codec rev)\<^sup>*\<^sup>* ((h0, w1), []) ((h, w), put)
     \<and> nd_opened (sv_node h) = [\<lparr>bytes = wire demo_codec (''w'', 7), tail = Eof\<rparr>] \<and> nd_read (sv_node h) = [(''w'', 7)]
     \<and> put = [Msg 7] \<and> NodeState.tasks (nd_state (sv_node h)) = [] \<and> hand_msgs h = [] \<and> sv_lost h = []"
proof -
  obtain h0 :: "(u8, nat) NodeHandle" and w1 where r: "serve_actor_on_runtime demo_lnet ''w'' ''127.0.0.1:0'' ''w'' (actor_defaults ())
      DistributedConfig_default ActorConfig_default None demo_byte_world = Returns (Inr h0, w1)" by (rule demo_serve_actor)
  then obtain r ad where s: "spawn_on_runtime (actor_defaults ()) None ActorConfig_default demo_byte_world = Returns (r, w1)"
    and h0: "h0 = idle_handle ''w'' ad r (idle_node ''w'' ad (idle_state ''w'' 32 [] []) [] [] []) None []"
    using serve_actor_idle [of demo_lnet "''w''" "''127.0.0.1:0''" "actor_defaults ()" demo_byte_world h0 w1]
    by (auto simp: serve_actor_def)
  obtain t where t: "ref_send r 7 w1 = Some (True, set_task (ref_id r) (t\<lparr>mailbox := (mailbox t)\<lparr>queue := [Msg 7]\<rparr>\<rparr>) w1)"
    using fresh_actor_has_room [OF s, where m = 7] by blast
  have fit: "sendable demo_codec (max_frame_bytes DistributedConfig_default) (''w'', 7)"
    by (simp add: sendable_def demo_codec_def DistributedConfig_default_def)
  obtain h where h: "(delivery_step demo_data_net demo_codec rev)\<^sup>*\<^sup>* ((h0, w1), [])
      ((h, set_task (ref_id r) (t\<lparr>mailbox := (mailbox t)\<lparr>queue := [Msg 7]\<rparr>\<rparr>) w1), [Msg 7])"
    "nd_opened (sv_node h) = [\<lparr>bytes = wire demo_codec (''w'', 7), tail = Eof\<rparr>]" "nd_read (sv_node h) = [(''w'', 7)]"
    using one_frame_delivered [where net = demo_data_net and ord = rev and a = ad, OF demo_codec_ok fit t] by (auto simp: h0)
  from served_actor_receives_its_frames [OF r h(1)] h(3) have "NodeState.tasks (nd_state (sv_node h)) = [] \<and> hand_msgs h = [] \<and> sv_lost h = []"
    by simp
  with r h show ?thesis by blast
qed

end
