(* ===== verification/Intake.thy ===== *)
theory Intake
  imports Serve
begin

text \<open>
  How the intake of a served actor ends: connection handlers, dispatch tasks and the bridge, once the
  accept loop brings nothing new. Every byte that was received and every message on its way pays for a
  bounded number of steps. Where none can be made, everything has either arrived or waits, along the whole
  chain of bounded buffers, for room in the actor's mailbox: the bridge for the mailbox, the dispatch tasks
  for the bridge's channel, the handlers for the permits those tasks hold.
\<close>

section \<open>Intake\<close>

text \<open>A dispatch task goes on. Spawning one, or registering an entry again, is none of these steps.\<close>

definition task_step :: "'m NodeState \<Rightarrow> 'm NodeState \<Rightarrow> bool" where
  "task_step s s' \<longleftrightarrow> node_step s s' \<and> length (NodeState.tasks s') \<le> length (NodeState.tasks s)
     \<and> dispatch s' = dispatch s \<and> s' \<noteq> s"

text \<open>The steps of \<open>served_step\<close> that move what has already arrived.\<close>

inductive intake_step ::
  "('m, 'j) codec \<Rightarrow> ('m, 'acc) NodeHandle \<times> ('a, 'm) World \<Rightarrow> ('m, 'acc) NodeHandle \<times> ('a, 'm) World \<Rightarrow> bool" for c where
  reads: "i < length (nd_conns (sv_node h)) \<Longrightarrow> node_conn_turn c i (sv_node h) = Some nd \<Longrightarrow>
     intake_step c (h, w) (h\<lparr>sv_node := nd\<rparr>, w)"
| dispatches: "task_step (nd_state (sv_node h)) s \<Longrightarrow>
     intake_step c (h, w) (h\<lparr>sv_node := (sv_node h)\<lparr>nd_state := s\<rparr>\<rparr>, w)"
| bridges: "bridge_turn (h, w) = Some st \<Longrightarrow> intake_step c (h, w) st"

lemma intake_served: "intake_step c st st' \<Longrightarrow> served_step net c ord st st'"
  by (induction rule: intake_step.induct) (auto simp: task_step_def intro: served_step.intros)

section \<open>The work left\<close>

fun task_work :: "'m task \<Rightarrow> nat" where
  "task_work (Lookup t m) = 4"
| "task_work (Send ch m) = 3"

definition state_work :: "'m NodeState \<Rightarrow> nat" where
  "state_work s = sum_list (map task_work (NodeState.tasks s)) + 2 * length (chan_msgs 0 s)"

definition conn_work :: "instream \<Rightarrow> nat" where
  "conn_work s = Suc (length (bytes s))"

definition intake_left :: "('m, 'acc) NodeHandle \<Rightarrow> nat" where
  "intake_left h = sum_list (map conn_work (nd_conns (sv_node h))) + state_work (nd_state (sv_node h)) + length (hand_msgs h)"

lemma sum_drop_nth:
  fixes f :: "'x \<Rightarrow> nat"
  assumes "i < length xs"
  shows "sum_list (map f xs) = f (xs ! i) + sum_list (map f (drop_nth i xs))"
proof -
  have "sum_mset (image_mset f (mset xs)) = sum_mset (image_mset f (add_mset (xs ! i) (mset (drop_nth i xs))))"
    using mset_drop_nth [OF assms] by simp
  then show ?thesis by (simp add: sum_mset_sum_list [symmetric])
qed

lemma sum_update:
  fixes f :: "'x \<Rightarrow> nat"
  assumes "i < length xs"
  shows "sum_list (map f (xs[i := x])) + f (xs ! i) = sum_list (map f xs) + f x"
  using sum_drop_nth [OF assms, of f] sum_drop_nth [of i "xs[i := x]" f] assms by (simp add: drop_nth_def)

text \<open>A frame costs its connection at least the four bytes of the length and one of the body.\<close>

lemma conn_turn_costs:
  "conn_turn c cfg s = Inr (d, s') \<Longrightarrow> length (bytes s') + 5 \<le> length (bytes s)"
  by (auto simp: conn_turn_def unat_gt_0 Suc_le_eq dest!: read_u32_le_timeout_consumes read_exact_consumes
    split: prod.splits timed.splits sum.splits option.splits)

lemma register_changes: "\<forall>t. hm_get (dispatch s) t \<noteq> Some ch \<Longrightarrow> dispatch (node_register t ch s') \<noteq> dispatch s"
proof
  assume new: "\<forall>t. hm_get (dispatch s) t \<noteq> Some ch" and "dispatch (node_register t ch s') = dispatch s"
  moreover have "hm_get (dispatch (node_register t ch s')) t = Some ch"
    by (simp add: node_register_def hm_get_def hm_insert_def update_conv')
  ultimately show False by metis
qed

lemma node_step_work:
  assumes "task_step s s'"
  shows "state_work s' < state_work s"
proof -
  have "node_step s s'" and d: "length (NodeState.tasks s') \<le> length (NodeState.tasks s)" "dispatch s' = dispatch s" "s' \<noteq> s"
    using assms by (simp_all add: task_step_def)
  then show ?thesis
  proof (cases rule: node_step.cases)
    case (lookup_found i t m ch)
    then show ?thesis using sum_update [of i "NodeState.tasks s" task_work "Send ch m"] by (simp add: state_work_def)
  next
    case (lookup_missing i t m)
    then show ?thesis using sum_drop_nth [of i "NodeState.tasks s" task_work]
      by (simp add: state_work_def remove_task_drop_nth chan_msgs_def)
  next
    case (send_ok i ch m q)
    then show ?thesis using sum_drop_nth [of i "NodeState.tasks s" task_work]
      by (auto simp: state_work_def remove_task_drop_nth chan_msgs_def chan_send_cases)
  next
    case (send_closed i ch m q)
    then show ?thesis using sum_drop_nth [of i "NodeState.tasks s" task_work]
      by (simp add: state_work_def remove_task_drop_nth chan_msgs_def)
  next
    case (register_new n q ch t)
    then show ?thesis using d(2) register_changes by metis
  qed (use d in \<open>auto simp: node_register_def node_unregister_def\<close>)
qed

lemma node_conn_turn_work:
  assumes "node_conn_turn c i nd = Some nd'" and i: "i < length (nd_conns nd)"
  shows "sum_list (map conn_work (nd_conns nd')) + state_work (nd_state nd')
    < sum_list (map conn_work (nd_conns nd)) + state_work (nd_state nd)"
proof (cases "conn_turn c (nd_config nd) (nd_conns nd ! i)")
  case (Inl r)
  then show ?thesis using assms sum_drop_nth [OF i, of conn_work] by (auto simp: node_conn_turn_def conn_work_def)
next
  case (Inr x)
  obtain t m s' where x: "x = ((t, m), s')" by (metis prod.exhaust)
  then have "length (bytes s') + 5 \<le> length (bytes (nd_conns nd ! i))" using Inr conn_turn_costs by blast
  then show ?thesis using assms Inr x sum_update [OF i, of conn_work s']
    by (auto simp: node_conn_turn_def conn_work_def state_work_def split: if_splits)
qed

lemma intake_step_work: "intake_step c st st' \<Longrightarrow> intake_left (fst st') < intake_left (fst st)"
proof (induction rule: intake_step.induct)
  case (reads i h nd w)
  then show ?case by (simp add: intake_left_def hand_msgs_def node_conn_turn_work)
next
  case (dispatches h s w)
  then show ?case by (simp add: intake_left_def hand_msgs_def node_step_work)
next
  case (bridges h w st)
  then show ?case by (cases rule: bridge_turn_cases) (auto simp: intake_left_def state_work_def chan_msgs_def hand_msgs_def nd_channel_def close_def)
qed

interpretation intake: terminating "intake_step c" "\<lambda>st. intake_left (fst st)" for c
  by unfold_locales (rule intake_step_work)

section \<open>States at rest\<close>

definition intake_inv :: "('m, 'acc) NodeHandle \<Rightarrow> bool" where
  "intake_inv h \<longleftrightarrow>
     (let rx = channels (nd_state (sv_node h)) 0 in
       (if sv_bridge h then rx_open rx else \<not> rx_open rx \<and> queue rx = [] \<and> sv_hand h = None) \<and> 0 < cap rx)
     \<and> 0 < permits (nd_state (sv_node h)) + length (NodeState.tasks (nd_state (sv_node h)))"

lemma node_step_channel:
  assumes "node_step s s'" and "dispatch s' = dispatch s"
  shows "cap (channels s' ch) = cap (channels s ch) \<and> rx_open (channels s' ch) = rx_open (channels s ch)
    \<and> (\<not> rx_open (channels s ch) \<longrightarrow> queue (channels s' ch) = queue (channels s ch))"
  using assms
proof (cases rule: node_step.cases)
  case (register_new n q ch t)
  then show ?thesis using assms(2) register_changes by metis
qed (auto simp: remove_task_def node_register_def node_unregister_def chan_send_cases)

lemma served_step_intake_inv: "served_step net c ord st st' \<Longrightarrow> intake_inv (fst st) \<Longrightarrow> intake_inv (fst st')"
proof (induction rule: served_step.induct)
  case (accepts h w r)
  then show ?case by (auto simp: intake_inv_def Let_def node_accepted_def split: sum.splits)
next
  case (reads i h nd w)
  then show ?case by (auto simp: intake_inv_def Let_def node_conn_turn_def split: sum.splits prod.splits if_splits)
next
  case (dispatches h s w)
  then show ?case using node_step_channel [OF dispatches(1,3), of 0] node_step_permits [OF dispatches(1)]
    by (auto simp: intake_inv_def Let_def split: if_splits)
next
  case (bridges h w st)
  then show ?case by (cases rule: bridge_turn_cases) (auto simp: intake_inv_def Let_def nd_channel_def close_def)
qed simp

interpretation intake_sys: step_invariant "served_step net c ord" "\<lambda>st. intake_inv (fst st)" for net c ord
  by unfold_locales (rule served_step_intake_inv)

lemma serve_actor_intake_inv:
  assumes "serve_actor_on_runtime lnet n addr tg a dcfg acfg acceptor w = Returns (Inr h, w')"
  shows "intake_inv h"
  using assms
  by (auto simp: serve_actor_on_runtime_def bind_on_runtime_def nd_register_def node_register_def node_bound_def intake_inv_def
      nd_channel_def channel_def mpsc_capacity_def split: outcome.splits sum.splits if_splits)

text \<open>What keeps the intake from resting: a dispatch task that looks up its target, or whose channel has
  room; an open connection while there is a permit; a message the bridge can take, or can put into the
  mailbox.\<close>

lemma remove_task_changes:
  assumes "permits s' = permits s"
  shows "remove_task i s' \<noteq> s"
proof
  assume "remove_task i s' = s"
  then have "permits (remove_task i s') = permits s" by simp
  then show False using assms by (simp add: remove_task_def)
qed

lemma task_ends:
  "node_step s (remove_task i s1) \<Longrightarrow> permits s1 = permits s \<Longrightarrow> NodeState.tasks s1 = NodeState.tasks s \<Longrightarrow>
   dispatch s1 = dispatch s \<Longrightarrow> task_step s (remove_task i s1)"
  using remove_task_changes [of s1 s i] by (simp add: task_step_def) (simp add: remove_task_def)

lemma task_runs:
  assumes i: "i < length (NodeState.tasks s)"
    and stuck: "\<forall>s'. \<not> task_step s s'"
  obtains ch m where "NodeState.tasks s ! i = Send ch m" "rx_open (channels s ch)" "cap (channels s ch) \<le> length (queue (channels s ch))"
proof (cases "NodeState.tasks s ! i")
  case (Lookup t m)
  have "\<exists>s'. task_step s s'"
  proof (cases "hm_get (dispatch s) t")
    case None
    show ?thesis by (rule exI, rule task_ends [OF node_step.lookup_missing [OF i Lookup None]]) simp_all
  next
    case (Some ch)
    let ?s = "s\<lparr>NodeState.tasks := (NodeState.tasks s)[i := Send ch m]\<rparr>"
    have "NodeState.tasks ?s ! i \<noteq> NodeState.tasks s ! i" using Lookup i by simp
    then have "?s \<noteq> s" by metis
    then have "task_step s ?s" using node_step.lookup_found [OF i Lookup Some] by (simp add: task_step_def)
    then show ?thesis by blast
  qed
  then show thesis using stuck by blast
next
  case (Send ch m)
  have "chan_send m (channels s ch) = None"
  proof (rule ccontr)
    assume "chan_send m (channels s ch) \<noteq> None"
    then obtain ok q where q: "chan_send m (channels s ch) = Some (ok, q)" by auto
    have "\<exists>s'. task_step s s'"
    proof (cases ok)
      case True
      with q have q: "chan_send m (channels s ch) = Some (True, q)" by simp
      show ?thesis by (rule exI, rule task_ends [OF node_step.send_ok [OF i Send q]]) simp_all
    next
      case False
      with q have q: "chan_send m (channels s ch) = Some (False, q)" by simp
      show ?thesis by (rule exI, rule task_ends [OF node_step.send_closed [OF i Send q]]) simp_all
    qed
    then show False using stuck by blast
  qed
  then show thesis using that [OF Send] by (simp add: chan_send_cases)
qed

lemma bridge_rests:
  assumes "bridge_turn (h, w) = None" and inv: "intake_inv h"
  shows "queue (channels (nd_state (sv_node h)) 0) \<noteq> [] \<Longrightarrow> sv_hand h \<noteq> None"
    and "sv_hand h = Some m \<Longrightarrow> ref_send (sv_ref h) m w = None"
  using assms by (auto simp: bridge_turn_def intake_inv_def Let_def split: if_splits option.splits list.splits bool.splits)

lemma ref_send_waits:
  "ref_send r m w = None \<longleftrightarrow> (\<exists>t. World.tasks w (ref_id r) = Some t \<and> rx_open (mailbox t) \<and> cap (mailbox t) \<le> length (queue (mailbox t)))"
  by (auto simp: ref_send_def ref_tx_send_def chan_send_def split: option.splits)

lemma at_rest:
  assumes rest: "\<forall>st. \<not> intake_step c (h, w) st" and inv: "intake_inv h" "served_inv c h"
  shows "nd_conns (sv_node h) \<noteq> [] \<Longrightarrow> permits (nd_state (sv_node h)) = 0"
    and "NodeState.tasks (nd_state (sv_node h)) \<noteq> [] \<Longrightarrow>
      cap (channels (nd_state (sv_node h)) 0) \<le> length (chan_msgs 0 (nd_state (sv_node h)))"
    and "chan_msgs 0 (nd_state (sv_node h)) \<noteq> [] \<Longrightarrow> sv_hand h \<noteq> None"
    and "sv_hand h = Some m \<Longrightarrow> ref_send (sv_ref h) m w = None"
proof -
  let ?s = "nd_state (sv_node h)"
  have stuck: "\<forall>s'. \<not> task_step ?s s'" using intake_step.dispatches [of h _ c w] rest by blast
  have bridge: "bridge_turn (h, w) = None" using intake_step.bridges [of h w _ c] rest by (cases "bridge_turn (h, w)") auto
  show "permits ?s = 0" if "nd_conns (sv_node h) \<noteq> []"
  proof (rule ccontr)
    assume "permits ?s \<noteq> 0"
    then have "\<exists>nd. node_conn_turn c 0 (sv_node h) = Some nd" by (auto simp: node_conn_turn_def split: sum.splits)
    then show False using intake_step.reads [of 0 h c _ w] rest that by auto
  qed
  show "cap (channels ?s 0) \<le> length (chan_msgs 0 ?s)" if "NodeState.tasks ?s \<noteq> []"
  proof -
    have 0: "0 < length (NodeState.tasks ?s)" using that by simp
    obtain ch m where t: "NodeState.tasks ?s ! 0 = Send ch m" "cap (channels ?s ch) \<le> length (queue (channels ?s ch))"
      by (rule task_runs [OF 0 stuck])
    then have "Send ch m \<in> set (NodeState.tasks ?s)" using 0 nth_mem by metis
    then show ?thesis using t(2) inv(2) by (auto simp: served_inv_def serves_def chan_msgs_def)
  qed
  show "sv_hand h \<noteq> None" if "chan_msgs 0 ?s \<noteq> []" using bridge_rests(1) [OF bridge inv(1)] that by (simp add: chan_msgs_def)
  show "ref_send (sv_ref h) m w = None" if "sv_hand h = Some m" using bridge_rests(2) [OF bridge inv(1) that] .
qed

lemma rest_empty:
  assumes "\<forall>st. \<not> intake_step c (h, w) st" and inv: "intake_inv h" "served_inv c h" and "sv_hand h = None"
  shows "chan_msgs 0 (nd_state (sv_node h)) = [] \<and> NodeState.tasks (nd_state (sv_node h)) = [] \<and> nd_conns (sv_node h) = []"
proof -
  note r = at_rest [OF assms(1-3)]
  have q: "chan_msgs 0 (nd_state (sv_node h)) = []" using r(3) assms(4) by blast
  then have "NodeState.tasks (nd_state (sv_node h)) = []" using r(2) inv(1) by (auto simp: intake_inv_def Let_def)
  then show ?thesis using q r(1) inv(1) by (auto simp: intake_inv_def)
qed

section \<open>Properties\<close>

text \<open>C28. Termination of intake. In any run of a served actor, from the moment nothing new arrives the
  connection handlers, dispatch tasks and bridge make at most as many steps as there are bytes and
  connections left, plus four per dispatch task, two per message in the channel and one for the message the
  bridge holds, and they do come to rest. Where they rest, either the bridge holds a message for which the
  open mailbox of the actor has no room, or every connection is closed, every dispatch task is done and the
  channel is empty. What has to wait waits in turn: a connection only while no permit is free, a dispatch
  task only while the channel is full, a message in the channel only for the one in the bridge's hand. And
  each frame read is in exactly one of these places, delivered, dropped or lost with the actor.\<close>

theorem intake_terminates:
  assumes serve: "serve_actor_on_runtime lnet n addr tg a dcfg acfg acceptor w0 = Returns (Inr h0, w1)"
    and run: "(served_step net c ord)\<^sup>*\<^sup>* (h0, w1) (h, w)"
  shows "(\<forall>k st. (intake_step c ^^ k) (h, w) st \<longrightarrow> k \<le> intake_left h)
    \<and> (\<exists>st. (intake_step c)\<^sup>*\<^sup>* (h, w) st \<and> (\<forall>st'. \<not> intake_step c st st'))
    \<and> (\<forall>h' w'. (intake_step c)\<^sup>*\<^sup>* (h, w) (h', w') \<longrightarrow> (\<forall>st. \<not> intake_step c (h', w') st) \<longrightarrow>
         (case sv_hand h' of
            None \<Rightarrow> nd_conns (sv_node h') = [] \<and> NodeState.tasks (nd_state (sv_node h')) = [] \<and> chan_msgs 0 (nd_state (sv_node h')) = []
          | Some m \<Rightarrow> \<exists>t. World.tasks w' (ref_id (sv_ref h')) = Some t \<and> rx_open (mailbox t) \<and> cap (mailbox t) \<le> length (queue (mailbox t)))
         \<and> (nd_conns (sv_node h') \<noteq> [] \<longrightarrow> permits (nd_state (sv_node h')) = 0)
         \<and> (NodeState.tasks (nd_state (sv_node h')) \<noteq> [] \<longrightarrow>
              cap (channels (nd_state (sv_node h')) 0) \<le> length (chan_msgs 0 (nd_state (sv_node h'))))
         \<and> mset (map snd (nd_read (sv_node h'))) = mset (map task_msg (NodeState.tasks (nd_state (sv_node h'))))
             + mset (chan_msgs 0 (nd_state (sv_node h'))) + mset (hand_msgs h') + mset (sv_delivered h')
             + mset (dropped (nd_state (sv_node h'))) + mset (sv_lost h'))"
proof (intro conjI allI impI)
  show "k \<le> intake_left h" if "(intake_step c ^^ k) (h, w) st" for k st
    using intake.run_bound [OF that] by simp
  show "\<exists>st. (intake_step c)\<^sup>*\<^sup>* (h, w) st \<and> (\<forall>st'. \<not> intake_step c st st')" by (rule intake.comes_to_rest)
  fix h' w' assume i: "(intake_step c)\<^sup>*\<^sup>* (h, w) (h', w')" and rest: "\<forall>st. \<not> intake_step c (h', w') st"
  have "(served_step net c ord)\<^sup>*\<^sup>* (h, w) (h', w')"
    by (rule mono_rtranclp [rule_format, OF _ i]) (rule intake_served)
  with run have all: "(served_step net c ord)\<^sup>*\<^sup>* (h0, w1) (h', w')" by simp
  have inv: "intake_inv h'" "served_inv c h'"
    using intake_sys.steps_inv [OF all] served_sys.steps_inv [OF all] serve_actor_intake_inv [OF serve] serve_actor_inv(1) [OF serve]
    by auto
  note r = at_rest [OF rest inv]
  show "case sv_hand h' of
      None \<Rightarrow> nd_conns (sv_node h') = [] \<and> NodeState.tasks (nd_state (sv_node h')) = [] \<and> chan_msgs 0 (nd_state (sv_node h')) = []
    | Some m \<Rightarrow> \<exists>t. World.tasks w' (ref_id (sv_ref h')) = Some t \<and> rx_open (mailbox t) \<and> cap (mailbox t) \<le> length (queue (mailbox t))"
    using rest_empty [OF rest inv] r(4) by (auto simp: ref_send_waits split: option.split)
  show "permits (nd_state (sv_node h')) = 0" if "nd_conns (sv_node h') \<noteq> []" using r(1) [OF that] .
  show "cap (channels (nd_state (sv_node h')) 0) \<le> length (chan_msgs 0 (nd_state (sv_node h')))"
    if "NodeState.tasks (nd_state (sv_node h')) \<noteq> []" using r(2) [OF that] .
  show "mset (map snd (nd_read (sv_node h'))) = mset (map task_msg (NodeState.tasks (nd_state (sv_node h'))))
      + mset (chan_msgs 0 (nd_state (sv_node h'))) + mset (hand_msgs h') + mset (sv_delivered h')
      + mset (dropped (nd_state (sv_node h'))) + mset (sv_lost h')"
    using inv(2) by (simp add: served_inv_def node_msgs_def ac_simps)
qed

theorem intake_terminates_witness:
  "\<exists>(h :: (u8, nat) NodeHandle) w (h1 :: (u8, nat) NodeHandle) st. serve_actor_on_runtime demo_lnet ''w'' ''127.0.0.1:0'' ''w'' (actor_defaults ()) DistributedConfig_default
       ActorConfig_default None demo_byte_world = Returns (Inr h, w)
    \<and> nd_conns (sv_node h1) = [\<lparr>bytes = [1, 0], tail = Stalled\<rparr>]
    \<and> (\<forall>k st. (intake_step demo_codec ^^ k) (h1, w) st \<longrightarrow> k \<le> 3)
    \<and> (intake_step demo_codec)\<^sup>*\<^sup>* (h1, w) st \<and> (\<forall>st'. \<not> intake_step demo_codec st st')"
proof -
  obtain h :: "(u8, nat) NodeHandle" and w where r: "serve_actor_on_runtime demo_lnet ''w'' ''127.0.0.1:0'' ''w'' (actor_defaults ())
      DistributedConfig_default ActorConfig_default None demo_byte_world = Returns (Inr h, w)"
    using demo_serve by (auto simp: serve_microservice_def serve_actor_def split: outcome.splits sum.splits)
  then have nd: "nd_listening (sv_node h)" "nd_tls (sv_node h) = None" "nd_conns (sv_node h) = []" "NodeState.tasks (nd_state (sv_node h)) = []"
    "chan_msgs 0 (nd_state (sv_node h)) = []" "hand_msgs h = []"
    by (auto simp: serve_actor_on_runtime_def bind_on_runtime_def nd_register_def node_register_def node_bound_def chan_msgs_def
        nd_channel_def channel_def hand_msgs_def split: outcome.splits sum.splits)
  let ?net = demo_data_net
  let ?h = "h\<lparr>sv_node := node_accepted ?net (Inr \<lparr>bytes = [1, 0], tail = Stalled\<rparr>) (sv_node h)\<rparr>"
  have hand: "hand_msgs ?h = []" using nd by (simp add: hand_msgs_def)
  have c: "nd_conns (sv_node ?h) = [\<lparr>bytes = [1, 0], tail = Stalled\<rparr>]" and s: "nd_state (sv_node ?h) = nd_state (sv_node h)"
    using nd by (simp_all add: node_accepted_def accept_def stream_inside_def)
  have run: "(served_step ?net demo_codec rev)\<^sup>*\<^sup>* (h, w) (?h, w)" by (rule r_into_rtranclp) (rule served_step.accepts)
  have left: "intake_left ?h = 3" unfolding intake_left_def c s hand by (simp add: conn_work_def state_work_def nd)
  note t = intake_terminates [OF r run, unfolded left]
  obtain st where st: "(intake_step demo_codec)\<^sup>*\<^sup>* (?h, w) st" "\<forall>st'. \<not> intake_step demo_codec st st'"
    using t [THEN conjunct2, THEN conjunct1] by blast
  show ?thesis
    by (rule exI [of _ h], rule exI [of _ w], rule exI [of _ ?h], rule exI [of _ st], intro conjI)
      (fact r, fact c, fact t [THEN conjunct1], fact st(1), fact st(2))
qed

end
