(* ===== verification/Request_Path.thy ===== *)
theory Request_Path
  imports Intake
begin

text \<open>
  The components together: a request that a client invokes on its mesh, through the hash ring of the
  service, the writer of the selected instance, the frame on the wire, the connection handler, dispatch
  task and bridge of that instance, into the mailbox of the served actor.
\<close>

section \<open>From the mesh to the wire\<close>

text \<open>A writer that waits for its first message, with the configuration the mesh gives it and room in its
  queue.\<close>

definition idle_writer :: "'m Writer \<Rightarrow> bool" where
  "idle_writer wr \<longleftrightarrow>
     w_queue wr = [] \<and> w_hand wr = None \<and> 0 < w_capacity wr \<and> w_conn wr = None \<and> \<not> w_done wr \<and> w_config wr = DistributedConfig_default"

text \<open>What the write loop does with the one message: connect, take it, then write one frame.\<close>

lemma idle_writer_sends:
  assumes "idle_writer wr" and "w_target wr = t" and "accepts out0 = None" and "written out0 = []"
    and "sendable c (max_frame_bytes DistributedConfig_default) (t, m)"
  shows "\<exists>out. w_conn (remote_write_loop c (offered m wr) [Connected (Inr out0), Pump, Pump]) = Some out
    \<and> written out = wire c (t, m)
    \<and> unwritten (remote_write_loop c (offered m wr) [Connected (Inr out0), Pump, Pump]) = []"
  using assms by (simp add: idle_writer_def offered_def write_frame_ok unwritten_def)

section \<open>From the client to the actor\<close>

text \<open>C27. A request to a microservice, all the way. Take an instance that \<open>serve_microservice\<close> started,
  registered with its own record in any consistent mesh whose writers are idle; let a key be routed to it
  by the service's hash ring. Then \<open>invoke\<close> returns \<open>Ok\<close>; the writer it chose is connected to the address
  the instance is bound to, and once connected it puts exactly one frame on the wire; and when the bytes
  it wrote arrive on a connection, the instance can carry the message through connection handler,
  dispatch task, channel and bridge, and the mailbox of the served actor then holds exactly this message.\<close>

theorem request_reaches_actor:
  fixes c :: "('m, 'j) codec" and net :: "('name, 'con, 'acc) data_net" and w :: "('a, 'm) World"
    and mh :: "('m, 'acc) NodeHandle MicroserviceHandle"
  assumes serve: "serve_microservice lnet srv i addr a w = Returns (Inr mh, w1)"
    and wf: "mesh_wf mur (sm, ws)" and ok: "addr_ok (handle_record mh)"
    and reg: "mesh_register mur (handle_record mh) sm ws = Returns (d, sm1, ws1)"
    and idle: "\<forall>wr \<in> set ws1. idle_writer wr"
    and rg: "mesh_ring srv sm1 = Some rg" and key: "get_node mur key rg = Some n" "nid n = i"
    and codec: "codec_ok c" and fit: "sendable c (max_frame_bytes DistributedConfig_default) (i, m)"
    and o: "accepts out0 = None" "written out0 = []"
  shows "\<exists>x wr' out h w2 t. x < length ws1 \<and> w_addr (ws1 ! x) = nd_addr (sv_node (node mh))
    \<and> invoke mur srv key m sm1 ws1 = Returns (Some (Inr (), ws1[x := offered m (ws1 ! x)]))
    \<and> remote_write_loop c (offered m (ws1 ! x)) [Connected (Inr out0), Pump, Pump] = wr'
    \<and> w_conn wr' = Some out \<and> unwritten wr' = [] \<and> written out = wire c (i, m)
    \<and> (served_step net c ord)\<^sup>*\<^sup>* (node mh, w1) (h, w2)
    \<and> nd_opened (sv_node h) = [\<lparr>bytes = written out, tail = Eof\<rparr>]
    \<and> World.tasks w2 (ref_id (sv_ref (node mh))) = Some t \<and> queue (mailbox t) = [Msg m]"
proof -
  obtain h w2 t where rec: "rec_target (handle_record mh) = i" "instance_id (handle_record mh) = i" "service (handle_record mh) = srv"
      "address (handle_record mh) = nd_addr (sv_node (node mh))"
    and h: "(served_step net c ord)\<^sup>*\<^sup>* (node mh, w1) (h, w2)"
      "nd_opened (sv_node h) = [\<lparr>bytes = wire c (rec_target (handle_record mh), m), tail = Eof\<rparr>]"
      "World.tasks w2 (ref_id (sv_ref (node mh))) = Some t" "queue (mailbox t) = [Msg m]"
    using microservice_end_to_end [where net = net and ord = ord, OF serve codec fit] by blast
  obtain dd m' ws' where "mesh_register mur (handle_record mh) sm ws = Returns (dd, m', ws')" "mesh_wf mur (m', ws')"
    "mesh_view m' = (mesh_view sm)((service (handle_record mh), instance_id (handle_record mh)) \<mapsto>
      (address (handle_record mh), rec_target (handle_record mh)))"
    by (rule mesh_register_ok [OF wf ok])
  then have view: "mesh_wf mur (sm1, ws1)" "mesh_view sm1 (srv, i) = Some (nd_addr (sv_node (node mh)), i)"
    using reg by (simp_all add: rec)
  obtain b tg x where x: "mesh_view sm1 (srv, i) = Some (b, tg)" "x < length ws1" "w_addr (ws1 ! x) = b" "w_target (ws1 ! x) = tg"
    "invoke mur srv key m sm1 ws1
       = Returns (if w_done (ws1 ! x) then Some (Inl channel_closed_error, ws1)
           else if queue_full (ws1 ! x) then None else Some (Inr (), ws1[x := offered m (ws1 ! x)]))"
    by (rule invoke_selected [OF view(1) rg key(1), unfolded key(2)])
  have iw: "idle_writer (ws1 ! x)" using idle x(2) by simp
  have tg: "w_target (ws1 ! x) = i" using x(1,4) view(2) by simp
  obtain out where out: "w_conn (remote_write_loop c (offered m (ws1 ! x)) [Connected (Inr out0), Pump, Pump]) = Some out"
    "written out = wire c (i, m)" "unwritten (remote_write_loop c (offered m (ws1 ! x)) [Connected (Inr out0), Pump, Pump]) = []"
    using idle_writer_sends [OF iw tg o fit] by blast
  have a: "w_addr (ws1 ! x) = nd_addr (sv_node (node mh))" using x(1,3) view(2) by simp
  have inv: "invoke mur srv key m sm1 ws1 = Returns (Some (Inr (), ws1[x := offered m (ws1 ! x)]))"
    using x(5) iw by (simp add: idle_writer_def queue_full_def)
  have opened: "nd_opened (sv_node h) = [\<lparr>bytes = written out, tail = Eof\<rparr>]" using h(2) out(2) by (simp add: rec)
  show ?thesis
    by (rule exI [of _ x], rule exI, rule exI [of _ out], rule exI [of _ h], rule exI [of _ w2], rule exI [of _ t], intro conjI)
      (fact x(2), fact a, fact inv, rule refl, fact out(1), fact out(3), fact out(2), fact h(1), fact opened, fact h(3), fact h(4))
qed

lemma demo_served:
  obtains mh :: "(u8, nat) NodeHandle MicroserviceHandle" and w where
    "serve_microservice demo_lnet ''svc'' ''w'' ''127.0.0.1:0'' (actor_defaults ()) demo_byte_world = Returns (Inr mh, w)"
    "handle_record mh = \<lparr>service = ''svc'', instance_id = ''w'', address = ''127.0.0.1:9'', rec_target = ''w'', registered_at = 0\<rparr>"
proof -
  obtain mh :: "(u8, nat) NodeHandle MicroserviceHandle" and w where
    r: "serve_microservice demo_lnet ''svc'' ''w'' ''127.0.0.1:0'' (actor_defaults ()) demo_byte_world = Returns (Inr mh, w)"
    using demo_serve by blast
  then have "handle_record mh = \<lparr>service = ''svc'', instance_id = ''w'', address = ''127.0.0.1:9'', rec_target = ''w'', registered_at = 0\<rparr>"
    by (auto simp: serve_microservice_def serve_actor_def serve_actor_on_runtime_def bind_on_runtime_def microservice_handle_def
        nh_address_def demo_lnet_def split: outcome.splits sum.splits)
  with r show thesis by (rule that)
qed

definition demo_svc :: ServiceRecord where
  "demo_svc = \<lparr>service = ''svc'', instance_id = ''w'', address = ''127.0.0.1:9'', rec_target = ''w'', registered_at = 0\<rparr>"

lemma demo_svc_node: "ring_node (record_member demo_svc) = Returns \<lparr>nid = ''w'', host = ''127.0.0.1'', port = 9\<rparr>"
  by (simp add: ring_node_def record_member_def ClusterMember_new_def demo_svc_def from_socket_addr_def try_from_socket_addr_def
      parse_host_port_def rsplit_once_def parse_u16_def digit_value_def)

text \<open>The mesh of a client that knows one instance: its ring has one node, so every key goes there.\<close>

definition demo_mesh :: "ServiceMesh \<times> u8 writers" where
  "demo_mesh = (case mesh_register demo_mur demo_svc mesh_new [] of Returns (_, st) \<Rightarrow> st | Panics _ \<Rightarrow> (mesh_new, []))"

lemma demo_mesh_reg: "mesh_register demo_mur demo_svc mesh_new [] = Returns (None, demo_mesh)"
  by (simp add: demo_mesh_def mesh_register_def route_register_def join_def demo_svc_node mesh_new_def hm.get_empty
      Cluster_new_def with_virtual_nodes_def Let_def split: prod.splits)

lemma demo_mesh_ring:
  "mesh_ring ''svc'' (fst demo_mesh) = Some (add_node demo_mur \<lparr>nid = ''w'', host = ''127.0.0.1'', port = 9\<rparr> (ring_new 150))"
  "idle_writer (hd (snd demo_mesh))" "length (snd demo_mesh) = 1"
proof -
  obtain rt and ws' :: "u8 writers" where reg: "route_register demo_mur demo_svc \<lparr>cluster = Cluster_new\<rparr> [] = Returns (None, rt, ws')"
    and rt: "cluster_ring (cluster rt) = add_node demo_mur \<lparr>nid = ''w'', host = ''127.0.0.1'', port = 9\<rparr> (ring_new 150)"
    and ws: "idle_writer (hd ws')" "length ws' = 1"
    by (simp add: route_register_def join_def demo_svc_node Cluster_new_def with_virtual_nodes_def remote_ref_with_def with_config_def
        idle_writer_def)
  then have e: "demo_mesh = (mesh_new\<lparr>routes := hm_insert ''svc'' rt (routes mesh_new)\<rparr>, ws')"
    by (simp add: demo_mesh_def mesh_register_def mesh_new_def hm.get_empty demo_svc_def)
  show "mesh_ring ''svc'' (fst demo_mesh) = Some (add_node demo_mur \<lparr>nid = ''w'', host = ''127.0.0.1'', port = 9\<rparr> (ring_new 150))"
    "idle_writer (hd (snd demo_mesh))" "length (snd demo_mesh) = 1"
    unfolding e using rt ws by (simp_all add: mesh_ring_def mesh_new_def hm.get_insert hm.inv_empty)
qed

lemma demo_routed:
  "get_node demo_mur key (add_node demo_mur \<lparr>nid = ''w'', host = ''127.0.0.1'', port = 9\<rparr> (ring_new 150))
     = Some \<lparr>nid = ''w'', host = ''127.0.0.1'', port = 9\<rparr>"
proof -
  let ?n = "\<lparr>nid = ''w'', host = ''127.0.0.1'', port = 9\<rparr> :: RingNode" and ?r = "add_node demo_mur (\<lparr>nid = ''w'', host = ''127.0.0.1'', port = 9\<rparr> :: RingNode) (ring_new 150)"
  have wf: "ring_wf demo_mur ?r" by (rule ring_wf_add [OF ring_wf_new])
  have full: "ring_full demo_mur ?r"
    by (rule ring_full_add [OF ring_wf_new ring_full_new]) (simp add: ring_new_def hm.get_empty)
  have ns: "nodes ?r = [(''w'', ?n)]" by (simp add: ring_new_def hm_insert_def)
  obtain n where n: "get_node demo_mur key ?r = Some n"
    using get_node_total [OF wf full, of key] ns by (auto simp: ring_new_def)
  then have "\<exists>i. hm_get (nodes ?r) i = Some n" by (auto simp: get_node_def Let_def split: if_splits list.splits option.splits prod.splits)
  then have "n = ?n" unfolding ns by (auto simp: hm_get_def split: if_splits)
  with n show ?thesis by simp
qed

theorem request_reaches_actor_witness:
  "\<exists>(mh :: (u8, nat) NodeHandle MicroserviceHandle) w1 h w2 t.
     serve_microservice demo_lnet ''svc'' ''w'' ''127.0.0.1:0'' (actor_defaults ()) demo_byte_world = Returns (Inr mh, w1)
     \<and> (served_step demo_data_net demo_codec rev)\<^sup>*\<^sup>* (node mh, w1) (h, w2)
     \<and> World.tasks w2 (ref_id (sv_ref (node mh))) = Some t \<and> queue (mailbox t) = [Msg 7]"
proof -
  obtain mh :: "(u8, nat) NodeHandle MicroserviceHandle" and w1 where
    r: "serve_microservice demo_lnet ''svc'' ''w'' ''127.0.0.1:0'' (actor_defaults ()) demo_byte_world = Returns (Inr mh, w1)"
    and hr: "handle_record mh = demo_svc" unfolding demo_svc_def by (rule demo_served)
  have reg: "mesh_register demo_mur (handle_record mh) mesh_new [] = Returns (None, fst demo_mesh, snd demo_mesh)"
    using demo_mesh_reg hr by simp
  have ok: "addr_ok (handle_record mh)" unfolding hr addr_ok_def demo_svc_node by simp
  have idle: "\<forall>wr \<in> set (snd demo_mesh). idle_writer wr"
    using demo_mesh_ring(2,3) by (cases "snd demo_mesh") auto
  have fit: "sendable demo_codec (max_frame_bytes DistributedConfig_default) (''w'', 7)"
    by (simp add: sendable_def demo_codec_def DistributedConfig_default_def)
  have out: "accepts fresh_out = None" "written fresh_out = []" by (simp_all add: fresh_out_def)
  have "nid \<lparr>nid = ''w'', host = ''127.0.0.1'', port = 9\<rparr> = ''w''" by simp
  from request_reaches_actor [where net = demo_data_net and ord = rev,
      OF r mesh_wf_new ok reg idle demo_mesh_ring(1) demo_routed [of "str_hash ''k''"] this demo_codec_ok fit out]
  show ?thesis
    by (elim exE conjE) (rule exI [of _ mh], rule exI [of _ w1], intro exI conjI, rule r, assumption, assumption, assumption)
qed

end
