(* ===== verification/Mesh_Launch.thy ===== *)
theory Mesh_Launch
  imports Request_Path Mesh_Control
begin

text \<open>
  \<open>examples/service_mesh.rs\<close>: three kinds of microservices and \<open>launch\<close>, which serves one instance and
  joins it to the local mesh and to the registry. The composition of \<open>serve_microservice\<close> (theory
  \<open>Serve\<close>) and \<open>join_mesh\<close> (theory \<open>Mesh_Control\<close>).
\<close>

section \<open>The services\<close>

datatype Service = Orders | Inventory | Billing

definition all_services :: "Service list" where
  "all_services = [Orders, Inventory, Billing]"

fun service_name :: "Service \<Rightarrow> string" where
  "service_name Orders = ''orders''"
| "service_name Inventory = ''inventory''"
| "service_name Billing = ''billing''"

datatype OrdersMsg = Create u64 string u32

datatype InventoryMsg = Reserve u64 string u32

datatype BillingMsg = Charge u64 u64

datatype MeshMsg = OrdersMsg OrdersMsg | InventoryMsg InventoryMsg | BillingMsg BillingMsg | HealthCheck

text \<open>The counter of orders is an \<open>AtomicU64\<close> of its own for every launched instance.\<close>

record OrdersService =
  orders_instance :: string
  orders_count :: u64

record InventoryService =
  inventory_instance :: string

record BillingService =
  billing_instance :: string

datatype MeshService = OrdersService OrdersService | InventoryService InventoryService | BillingService BillingService

fun service_of :: "Service \<Rightarrow> string \<Rightarrow> MeshService" where
  "service_of Orders i = OrdersService \<lparr>orders_instance = i, orders_count = 0\<rparr>"
| "service_of Inventory i = InventoryService \<lparr>inventory_instance = i\<rparr>"
| "service_of Billing i = BillingService \<lparr>billing_instance = i\<rparr>"

text \<open>\<open>handle\<close>: only the orders service changes its state; every other message is printed or ignored.\<close>

fun orders_handle :: "MeshMsg \<Rightarrow> OrdersService \<Rightarrow> callback \<times> OrdersService" where
  "orders_handle (OrdersMsg (Create order_id sku qty)) s = (CbOk, s\<lparr>orders_count := orders_count s + 1\<rparr>)"
| "orders_handle _ s = (CbOk, s)"

definition inventory_handle :: "MeshMsg \<Rightarrow> InventoryService \<Rightarrow> callback \<times> InventoryService" where
  "inventory_handle m s = (CbOk, s)"

definition billing_handle :: "MeshMsg \<Rightarrow> BillingService \<Rightarrow> callback \<times> BillingService" where
  "billing_handle m s = (CbOk, s)"

fun service_handle :: "MeshMsg \<Rightarrow> MeshService \<Rightarrow> callback \<times> MeshService" where
  "service_handle m (OrdersService s) = map_prod id OrdersService (orders_handle m s)"
| "service_handle m (InventoryService s) = map_prod id InventoryService (inventory_handle m s)"
| "service_handle m (BillingService s) = map_prod id BillingService (billing_handle m s)"

definition service_actor :: "duration \<Rightarrow> MeshService \<Rightarrow> (MeshService, MeshMsg) DynActor" where
  "service_actor t s = (actor_defaults s)
     \<lparr>dyn_handle := (\<lambda>m s. \<lparr>run_time = Some t, run_result = fst (service_handle m s), run_state = snd (service_handle m s), cancelled = s\<rparr>)\<rparr>"

section \<open>Launching\<close>

text \<open>The world of the actors, the local mesh with its writers, and the far side of the control plane.\<close>

record ('a, 'w, 'm) site =
  actors_world :: "('a, 'm) World"
  local_mesh :: ServiceMesh
  mesh_writers :: "'m writers"
  control_plane :: 'w

definition launch ::
  "'l listen_net \<Rightarrow> ('name, 'con, 'acc) ctl_net \<Rightarrow> ctl_codec \<Rightarrow> 'w peer \<Rightarrow> murmur \<Rightarrow> duration \<Rightarrow> Service \<Rightarrow> string \<Rightarrow> string
     \<Rightarrow> (MeshService, 'w, MeshMsg) site
     \<Rightarrow> ((MeshMsg, 'acc) NodeHandle MicroserviceHandle io_result \<times> (MeshService, 'w, MeshMsg) site) outcome" where
  "launch lnet net c peer mur t srv i reg_addr s =
     (case serve_microservice lnet (service_name srv) i ''127.0.0.1:0'' (service_actor t (service_of srv i)) (actors_world s) of
        Panics e \<Rightarrow> Panics e
      | Returns (Inl e, w) \<Rightarrow> Returns (Inl e, s\<lparr>actors_world := w\<rparr>)
      | Returns (Inr h, w) \<Rightarrow>
          (case join_mesh net c peer mur (Some reg_addr) h (local_mesh s) (control_plane s) (mesh_writers s) of
             Panics e \<Rightarrow> Panics e
           | Returns (res, sm, cw, ws) \<Rightarrow>
               Returns (case res of Inl e \<Rightarrow> Inl e | Inr _ \<Rightarrow> Inr h,
                 s\<lparr>actors_world := w, local_mesh := sm, mesh_writers := ws, control_plane := cw\<rparr>)))"

lemma client_register_registry:
  assumes c: "ctl_codec_ok c" and con: "connect net a None = Inr st" and idle: "idle_conn (inner_conn st) w"
    and f: "fits c (Register r)" "fits c Pong"
  shows "\<exists>cl' w'. client_register net c (registry_peer c ord) r (client_new a) w = (Inr (), cl', w')
    \<and> w_reg w' = reg_register (w_now w) r (w_reg w)"
proof -
  let ?cl = "(client_new a)\<lparr>stream := Some st\<rparr>"
  have same: "request net c p m (client_new a) w = request net c p m ?cl w" for p m
    using con by (simp add: request_def client_conn_def client_new_def invalidate_def split: prod.splits)
  show ?thesis
    using request_registry [where net = net, OF c _ idle f(1), of ?cl ord Pong "reg_register (w_now w) r (w_reg w)"] f(2)
    by (fastforce simp: client_register_def same)
qed

section \<open>Properties\<close>

text \<open>C35. Launching. Over a registry that can be reached, \<open>launch\<close> of a service that can be served returns the
  handle, and both sides know the instance: the local mesh maps it to the address the node is bound to and
  to its own frame target, with nothing else changed, and the registry holds its record with the time of
  the registration. When the control connection is refused, \<open>launch\<close> returns that error and drops the
  handle, but the local mesh has the instance all the same; when the service cannot be served, neither side
  hears of it.\<close>

theorem launch_registers_both:
  fixes s :: "(MeshService, ctl_world, MeshMsg) site"
  assumes serve: "serve_microservice lnet (service_name srv) i ''127.0.0.1:0'' (service_actor t (service_of srv i)) (actors_world s)
      = Returns (res, w)"
    and wf: "mesh_wf mur (local_mesh s, mesh_writers s)" and addr: "\<And>h. res = Inr h \<Longrightarrow> addr_ok (handle_record h)"
    and c: "ctl_codec_ok c" "\<And>h. res = Inr h \<Longrightarrow> fits c (Register (handle_record h))" "fits c Pong"
    and idle: "\<And>st. connect net a None = Inr st \<Longrightarrow> idle_conn (inner_conn st) (control_plane s)"
  shows "\<exists>out s'. launch lnet net c (registry_peer c ord) mur t srv i a s = Returns (out, s')
    \<and> actors_world s' = w \<and> mesh_wf mur (local_mesh s', mesh_writers s')
    \<and> (case res of
         Inl e \<Rightarrow> out = Inl e \<and> local_mesh s' = local_mesh s \<and> control_plane s' = control_plane s
       | Inr h \<Rightarrow>
           mesh_view (local_mesh s') = (mesh_view (local_mesh s))((service_name srv, i) \<mapsto> (nd_addr (sv_node (node h)), i))
           \<and> (case connect net a None of
                Inl e \<Rightarrow> out = Inl e \<and> control_plane s' = control_plane s
              | Inr _ \<Rightarrow> out = Inr h
                  \<and> w_reg (control_plane s') = reg_register (w_now (control_plane s)) (handle_record h) (w_reg (control_plane s))))"
proof (cases res)
  case (Inl e)
  then show ?thesis using serve wf by (simp add: launch_def)
next
  case (Inr h)
  let ?r = "handle_record h"
  have rec: "service ?r = service_name srv" "instance_id ?r = i" "rec_target ?r = i" "address ?r = nd_addr (sv_node (node h))"
    by (rule serve_microservice_idle [OF serve [unfolded Inr]], simp add: idle_handle_def idle_node_def)+
  obtain d sm ws where reg: "mesh_register mur ?r (local_mesh s) (mesh_writers s) = Returns (d, sm, ws)" "mesh_wf mur (sm, ws)"
    "mesh_view sm = (mesh_view (local_mesh s))((service_name srv, i) \<mapsto> (nd_addr (sv_node (node h)), i))"
    using mesh_register_ok [OF wf addr [OF Inr]] unfolding rec by metis
  show ?thesis
  proof (cases "connect net a None")
    case (Inl e)
    then have "client_register net c (registry_peer c ord) ?r (client_new a) (control_plane s) = (Inl e, client_new a, control_plane s)"
      by (simp add: client_register_def request_def client_conn_def client_new_def invalidate_def)
    then show ?thesis using serve Inr reg Inl by (simp add: launch_def join_mesh_def)
  next
    case con: (Inr st)
    obtain cl' w' where "client_register net c (registry_peer c ord) ?r (client_new a) (control_plane s) = (Inr (), cl', w')"
      "w_reg w' = reg_register (w_now (control_plane s)) ?r (w_reg (control_plane s))"
      using client_register_registry [OF c(1) con idle [OF con] c(2) [OF Inr] c(3)] by blast
    then show ?thesis using serve Inr reg con by (simp add: launch_def join_mesh_def)
  qed
qed

text \<open>A registry that answers, and one instance of the orders service.\<close>

definition orders_record :: ServiceRecord where
  "orders_record = \<lparr>service = ''orders'', instance_id = ''w'', address = ''127.0.0.1:9'', rec_target = ''w'', registered_at = 0\<rparr>"

definition launch_ctl :: ctl_codec where
  "launch_ctl =
     \<lparr>ctl_to_vec = (\<lambda>m. if m = Register orders_record then Inr [1] else if m = Pong then Inr [2] else Inl ''unsupported''),
      ctl_from_slice = (\<lambda>b. if b = [1] then Inr (Register orders_record) else if b = [2] then Inr Pong else Inl ''syntax'')\<rparr>"

definition launch_net :: "(nat, nat, nat) ctl_net" where
  "launch_net = \<lparr>tcp_connect = (\<lambda>_. Inr \<lparr>c_out = fresh_out, c_in = \<lparr>bytes = [], tail = Stalled\<rparr>\<rparr>), server_name = (\<lambda>_. Inr 0),
     connector_connect = (\<lambda>_ _ c. Inr c), acceptor_accept = (\<lambda>_ c. Inr c)\<rparr>"

definition launch_site :: "(MeshService, ctl_world, MeshMsg) site" where
  "launch_site = \<lparr>actors_world = world_new (\<lambda>_. \<lparr>cap = 4, queue = [], rx_open = True\<rparr>), local_mesh = mesh_new, mesh_writers = [],
     control_plane = demo_ctl_world\<rparr>"

theorem launch_registers_both_witness:
  "\<exists>h :: (MeshMsg, nat) NodeHandle MicroserviceHandle. \<exists>s'.
     launch demo_lnet launch_net launch_ctl (registry_peer launch_ctl rev) demo_mur 0 Orders ''w'' ''h:1'' launch_site = Returns (Inr h, s')
     \<and> mesh_view (local_mesh s') = [(''orders'', ''w'') \<mapsto> (''127.0.0.1:9'', ''w'')]
     \<and> hm_get (records (w_reg (control_plane s'))) (''orders'', ''w'') = Some (orders_record\<lparr>registered_at := 9\<rparr>)"
proof -
  obtain h :: "(MeshMsg, nat) NodeHandle MicroserviceHandle" and w where
    serve: "serve_microservice demo_lnet (service_name Orders) ''w'' ''127.0.0.1:0'' (service_actor 0 (service_of Orders ''w'')) (actors_world launch_site)
      = Returns (Inr h, w)"
    by (simp add: serve_microservice_def serve_actor_def serve_actor_on_runtime_def spawn_on_runtime_def channel_def launch_site_def
        ActorId_new_def bind_on_runtime_def demo_lnet_def mpsc_capacity_def DistributedConfig_default_def ActorConfig_default_def)
  then have h: "handle_record h = orders_record" "nd_addr (sv_node (node h)) = ''127.0.0.1:9''"
    by (auto simp: serve_microservice_def serve_actor_def serve_actor_on_runtime_def bind_on_runtime_def microservice_handle_def
        nh_address_def demo_lnet_def orders_record_def nd_register_def nd_channel_def split: outcome.splits sum.splits)
  have node: "ring_node (record_member orders_record) = Returns \<lparr>nid = ''w'', host = ''127.0.0.1'', port = 9\<rparr>"
    by (simp add: ring_node_def record_member_def ClusterMember_new_def orders_record_def from_socket_addr_def try_from_socket_addr_def
        parse_host_port_def rsplit_once_def parse_u16_def digit_value_def)
  have con: "connect launch_net ''h:1'' None = Inr (Plain \<lparr>c_out = fresh_out, c_in = \<lparr>bytes = [], tail = Stalled\<rparr>\<rparr>)"
    by (simp add: connect_def launch_net_def)
  have side: "mesh_wf demo_mur (local_mesh launch_site, mesh_writers launch_site)" "addr_ok orders_record" "ctl_codec_ok launch_ctl"
    "fits launch_ctl (Register orders_record)" "fits launch_ctl Pong"
    "idle_conn (inner_conn (Plain \<lparr>c_out = fresh_out, c_in = \<lparr>bytes = [], tail = Stalled\<rparr>\<rparr>)) (control_plane launch_site)"
    by (auto simp: launch_site_def mesh_wf_new addr_ok_def node ctl_codec_ok_def launch_ctl_def fits_def demo_idle(2))
  have view: "mesh_view (local_mesh launch_site) = Map.empty"
    by (simp add: launch_site_def mesh_view_def mesh_new_def hm.get_empty fun_eq_iff)
  have reg: "hm_inv (records registry_new)" by (simp add: registry_new_def with_ttl_def hm.inv_empty)
  from launch_registers_both [OF serve, of demo_mur launch_ctl launch_net "''h:1''" rev] show ?thesis
    using side con h view reg
    by (force simp: reg_register_def demo_ctl_world_def launch_site_def orders_record_def hm.get_insert)
qed

end
