(* ===== verification/Child_Registry.thy ===== *)
theory Child_Registry
  imports Actor
begin

text \<open>
  The shared tables of \<open>src/supervisor.rs\<close> that name the current instance of a supervised child:
  \<open>ChildRegistry\<close> (references with a generation counter) and \<open>ChildSlot\<close>, and the macros of
  \<open>src/macros.rs\<close> that ask an actor for a reply. A generation is a \<open>u64\<close>; its increment overflows
  after 2^64 restarts, written as the wrap of a release build.
\<close>

record 'k ChildRegistry =
  reg_refs :: "('k, ActorRef) hashmap"
  reg_generations :: "('k, u64) hashmap"

definition ChildRegistry_new :: "'k ChildRegistry" where
  "ChildRegistry_new = \<lparr>reg_refs = [], reg_generations = []\<rparr>"

definition ChildRegistry_default :: "'k ChildRegistry" where
  "ChildRegistry_default = ChildRegistry_new"

definition registry_get :: "'k \<Rightarrow> 'k ChildRegistry \<Rightarrow> ActorRef option" where
  "registry_get n reg = hm_get (reg_refs reg) n"

definition track :: "'k \<Rightarrow> ActorRef \<Rightarrow> 'k ChildRegistry \<Rightarrow> 'k ChildRegistry" where
  "track n r reg = reg\<lparr>reg_refs := hm_insert n r (reg_refs reg)\<rparr>"

definition generation :: "'k \<Rightarrow> 'k ChildRegistry \<Rightarrow> u64" where
  "generation n reg = (case hm_get (reg_generations reg) n of Some g \<Rightarrow> g | None \<Rightarrow> 0)"

text \<open>\<open>*entry(name).or_insert(0) += 1\<close>.\<close>

definition bump_generation :: "'k \<Rightarrow> 'k ChildRegistry \<Rightarrow> 'k ChildRegistry" where
  "bump_generation n reg =
     reg\<lparr>reg_generations := hm_insert n
       ((case hm_get (reg_generations reg) n of Some g \<Rightarrow> g | None \<Rightarrow> 0) + 1) (reg_generations reg)\<rparr>"

definition track_and_bump :: "'k \<Rightarrow> ActorRef \<Rightarrow> 'k ChildRegistry \<Rightarrow> 'k ChildRegistry" where
  "track_and_bump n r reg =
     (let reg1 = reg\<lparr>reg_refs := hm_insert n r (reg_refs reg)\<rparr>
      in reg1\<lparr>reg_generations := hm_insert n
           ((case hm_get (reg_generations reg1) n of Some g \<Rightarrow> g | None \<Rightarrow> 0) + 1) (reg_generations reg1)\<rparr>)"

definition get_with_generation :: "'k \<Rightarrow> 'k ChildRegistry \<Rightarrow> (ActorRef \<times> u64) option" where
  "get_with_generation n reg =
     map_option (\<lambda>r. (r, case hm_get (reg_generations reg) n of Some g \<Rightarrow> g | None \<Rightarrow> 0)) (hm_get (reg_refs reg) n)"

definition generations :: "'k ChildRegistry \<Rightarrow> ('k, u64) hashmap" where
  "generations reg = reg_generations reg"

section \<open>Child slots\<close>

record ChildSlot =
  current :: "ActorRef option"

definition ChildSlot_new :: ChildSlot where
  "ChildSlot_new = \<lparr>current = None\<rparr>"

definition ChildSlot_default :: ChildSlot where
  "ChildSlot_default = ChildSlot_new"

definition slot_get :: "ChildSlot \<Rightarrow> ActorRef option" where
  "slot_get s = current s"

definition slot_require :: "ChildSlot \<Rightarrow> string + ActorRef" where
  "slot_require s = (case slot_get s of Some r \<Rightarrow> Inr r | None \<Rightarrow> Inl ''supervised child not running'')"

section \<open>Asking\<close>

text \<open>\<open>actor_ask!\<close>: send the request built around a fresh reply channel, then wait. \<open>reply\<close> is what
  the oneshot yields: a value, or \<open>None\<close> when the actor dropped the sender. The outer \<open>None\<close> is a
  mailbox that is still full.\<close>

definition actor_ask ::
  "ActorRef \<Rightarrow> (nat \<Rightarrow> 'm) \<Rightarrow> nat \<Rightarrow> 'r option \<Rightarrow> ('a, 'm) World \<Rightarrow> ((string + 'r) \<times> ('a, 'm) World) option" where
  "actor_ask r mk chan reply w =
     (case ref_send r (mk chan) w of
        None \<Rightarrow> None
      | Some (False, w') \<Rightarrow> Some (Inl ''channel closed'', w')
      | Some (True, w') \<Rightarrow> Some (case reply of Some x \<Rightarrow> Inr x | None \<Rightarrow> Inl ''actor dropped reply'', w'))"

definition registry_ask ::
  "'k ChildRegistry \<Rightarrow> 'k \<Rightarrow> string \<Rightarrow> (nat \<Rightarrow> 'm) \<Rightarrow> nat \<Rightarrow> 'r option \<Rightarrow> ('a, 'm) World
     \<Rightarrow> ((string + 'r) \<times> ('a, 'm) World) option" where
  "registry_ask reg n missing mk chan reply w =
     (case registry_get n reg of
        Some r \<Rightarrow> actor_ask r mk chan reply w
      | None \<Rightarrow> Some (Inl missing, w))"

section \<open>Lemmas\<close>

definition registry_inv :: "'k ChildRegistry \<Rightarrow> bool" where
  "registry_inv reg \<longleftrightarrow> hm_inv (reg_refs reg) \<and> hm_inv (reg_generations reg)"

lemma track_and_bump_lookup:
  assumes "registry_inv reg"
  shows "registry_inv (track_and_bump n r reg)"
    and "registry_get k (track_and_bump n r reg) = (if k = n then Some r else registry_get k reg)"
    and "generation k (track_and_bump n r reg) = (if k = n then generation k reg + 1 else generation k reg)"
  using assms
  by (auto simp: registry_inv_def track_and_bump_def registry_get_def generation_def Let_def hm.inv_insert hm.get_insert)

lemma track_and_bump_atomic:
  "track_and_bump n r reg = bump_generation n (track n r reg)"
  by (simp add: track_and_bump_def bump_generation_def track_def Let_def)

text \<open>The registry names the newest instance. After any sequence of spawns and restarts of named
  children, a lookup returns the reference tracked last under that name together with the number of
  times the name was tracked (mod 2^64), and names never tracked are absent with generation 0.\<close>

theorem registry_names_newest:
  "get_with_generation n (fold (\<lambda>(k, r). track_and_bump k r) hist ChildRegistry_new) =
     (case filter (\<lambda>(k, r). k = n) hist of
        [] \<Rightarrow> None
      | h # hs \<Rightarrow> Some (snd (last (h # hs)), of_nat (Suc (length hs))))
   \<and> generation n (fold (\<lambda>(k, r). track_and_bump k r) hist ChildRegistry_new)
     = of_nat (length (filter (\<lambda>(k, r). k = n) hist))"
proof -
  let ?reg = "\<lambda>h. fold (\<lambda>(k, r). track_and_bump k r) h ChildRegistry_new"
  have "registry_inv (?reg hist)
    \<and> registry_get n (?reg hist) = (case filter (\<lambda>(k, r). k = n) hist of [] \<Rightarrow> None | h # hs \<Rightarrow> Some (snd (last (h # hs))))
    \<and> generation n (?reg hist) = of_nat (length (filter (\<lambda>(k, r). k = n) hist))"
  proof (induction hist rule: rev_induct)
    case Nil
    then show ?case
      by (simp add: ChildRegistry_new_def registry_inv_def registry_get_def generation_def hm.inv_empty hm.get_empty)
  next
    case (snoc x hist)
    obtain k r where x: "x = (k, r)" by (cases x)
    let ?f = "filter (\<lambda>(k, r). k = n) hist"
    have "?reg (hist @ [x]) = track_and_bump k r (?reg hist)" by (simp add: x)
    moreover note track_and_bump_lookup [of "?reg hist"] snoc
    moreover have "(case ?f @ [(n, r)] of [] \<Rightarrow> None | h # hs \<Rightarrow> Some (snd (last (h # hs)))) = Some r"
      by (cases ?f) auto
    ultimately show ?case by (auto simp: x add.commute)
  qed
  then show ?thesis
    by (auto simp: get_with_generation_def registry_get_def generation_def split: list.splits option.splits)
qed

end
