(* ===== verification/Supervisor.thy ===== *)
theory Supervisor
  imports Child_Registry
begin

text \<open>
  \<open>src/supervisor.rs\<close>: child specifications, the start of a supervisor, and its reaction to restart
  signals. The environment of a supervisor is the world of actors with the child registries and
  slots its factories write. A factory returns a reference, an error, or panics. The supervisor task
  reacts to one event at a time: a restart signal with the time it is received, or the shutdown
  request; \<open>tokio::select!\<close> without \<open>biased\<close> may take either when both are ready, so the order of
  events is free. Times are nanoseconds on the monotonic clock, possibly negative after subtraction.
\<close>

section \<open>Configuration\<close>

datatype RestartStrategy = OneForOne | OneForAll | RestForOne

datatype IntensityAction = ShutdownSupervisor | AbandonChild

record SupervisorConfig =
  strategy :: RestartStrategy
  max_restarts :: nat
  within_secs :: u64
  intensity_action :: IntensityAction
  sup_mailbox_capacity :: nat

definition SupervisorConfig_default :: SupervisorConfig where
  "SupervisorConfig_default =
     \<lparr>strategy = OneForOne, max_restarts = 5, within_secs = 10, intensity_action = ShutdownSupervisor,
      sup_mailbox_capacity = 32\<rparr>"

section \<open>Children\<close>

record ('a, 'm, 'k) Env =
  world :: "('a, 'm) World"
  registries :: "nat \<Rightarrow> 'k ChildRegistry"
  child_slots :: "nat \<Rightarrow> ChildSlot"

type_synonym ('a, 'm, 'k) factory =
  "nat \<Rightarrow> ActorConfig \<Rightarrow> ('a, 'm, 'k) Env \<Rightarrow> ((string + ActorRef) \<times> ('a, 'm, 'k) Env) outcome"

record ('a, 'm, 'k) ChildSpec =
  spec_id :: ActorId
  spec_order :: nat
  spec_factory :: "('a, 'm, 'k) factory"

definition spec_restart ::
  "('a, 'm, 'k) ChildSpec \<Rightarrow> nat \<Rightarrow> ActorConfig \<Rightarrow> ('a, 'm, 'k) Env \<Rightarrow> ((string + ActorRef) \<times> ('a, 'm, 'k) Env) outcome" where
  "spec_restart s sup_tx cfg env = spec_factory s sup_tx cfg env"

definition set_id :: "ActorId \<Rightarrow> ('a, 'm, 'k) ChildSpec \<Rightarrow> ('a, 'm, 'k) ChildSpec" where
  "set_id i s = s\<lparr>spec_id := i\<rparr>"

text \<open>\<open>child_spec\<close> takes an id of its own from the counter.\<close>

definition child_spec ::
  "nat \<Rightarrow> ('a, 'm, 'k) factory \<Rightarrow> ('a, 'm, 'k) Env \<Rightarrow> ('a, 'm, 'k) ChildSpec \<times> ('a, 'm, 'k) Env" where
  "child_spec ordr f env =
     (case ActorId_new (counter (world env)) of
        (i, ctr) \<Rightarrow> (\<lparr>spec_id = i, spec_order = ordr, spec_factory = f\<rparr>,
                    env\<lparr>world := (world env)\<lparr>counter := ctr\<rparr>\<rparr>))"

text \<open>The factories built by \<open>spawn_child_spec\<close>, by \<open>ChildSlot::child_spec\<close> and by \<open>supervise_actor\<close>:
  spawn, then record the new reference.\<close>

definition spawn_factory :: "('a, 'm) DynActor \<Rightarrow> (ActorRef \<Rightarrow> ('a, 'm, 'k) Env \<Rightarrow> ('a, 'm, 'k) Env) \<Rightarrow> ('a, 'm, 'k) factory" where
  "spawn_factory build note sup_tx cfg env =
     (case spawn_on_runtime build (Some sup_tx) cfg (world env) of
        Panics e \<Rightarrow> Panics e
      | Returns (r, w) \<Rightarrow> Returns (Inr r, note r (env\<lparr>world := w\<rparr>)))"

definition spawn_child_spec ::
  "nat \<Rightarrow> 'k \<Rightarrow> nat \<Rightarrow> ('a, 'm) DynActor \<Rightarrow> ('a, 'm, 'k) Env \<Rightarrow> ('a, 'm, 'k) ChildSpec \<times> ('a, 'm, 'k) Env" where
  "spawn_child_spec ordr n reg build env =
     child_spec ordr (spawn_factory build (\<lambda>r env.
       env\<lparr>registries := (registries env)(reg := track_and_bump n r (registries env reg))\<rparr>)) env"

definition slot_child_spec ::
  "nat \<Rightarrow> nat \<Rightarrow> ('a, 'm) DynActor \<Rightarrow> ('a, 'm, 'k) Env \<Rightarrow> ('a, 'm, 'k) ChildSpec \<times> ('a, 'm, 'k) Env" where
  "slot_child_spec ordr slot build env =
     child_spec ordr (spawn_factory build (\<lambda>r env.
       env\<lparr>child_slots := (child_slots env)(slot := (child_slots env slot)\<lparr>current := Some r\<rparr>)\<rparr>)) env"

text \<open>\<open>registry_child_spec!\<close> is \<open>spawn_child_spec\<close> with the registry handle cloned into the closure.\<close>

definition registry_child_spec ::
  "nat \<Rightarrow> 'k \<Rightarrow> nat \<Rightarrow> ('a, 'm) DynActor \<Rightarrow> ('a, 'm, 'k) Env \<Rightarrow> ('a, 'm, 'k) ChildSpec \<times> ('a, 'm, 'k) Env" where
  "registry_child_spec ordr n reg actor_expr env = spawn_child_spec ordr n reg actor_expr env"

section \<open>The supervisor task\<close>

record ('a, 'm, 'k) Supervisor =
  sup_config :: SupervisorConfig
  sup_actor_config :: ActorConfig
  children :: "('a, 'm, 'k) ChildSpec list"

definition with_actor_config ::
  "ActorConfig \<Rightarrow> SupervisorConfig \<Rightarrow> ('a, 'm, 'k) ChildSpec list \<Rightarrow> ('a, 'm, 'k) Supervisor" where
  "with_actor_config acfg cfg specs = \<lparr>sup_config = cfg, sup_actor_config = acfg, children = specs\<rparr>"

definition Supervisor_new :: "SupervisorConfig \<Rightarrow> ('a, 'm, 'k) ChildSpec list \<Rightarrow> ('a, 'm, 'k) Supervisor" where
  "Supervisor_new cfg specs = with_actor_config ActorConfig_default cfg specs"

text \<open>The variables of the spawned task.\<close>

record ('a, 'm, 'k) SupTask =
  slots :: "('a, 'm, 'k) ChildSpec list"
  current_refs :: "ActorRef list"
  restart_log :: "int list"
  sup_running :: bool

type_synonym ('a, 'm, 'k) sup_state = "('a, 'm, 'k) SupTask \<times> ('a, 'm, 'k) Env"

definition restart_child ::
  "nat \<Rightarrow> ActorConfig \<Rightarrow> nat \<Rightarrow> ('a, 'm, 'k) sup_state \<Rightarrow> ('a, 'm, 'k) sup_state outcome" where
  "restart_child tx acfg idx st =
     (case st of (s, env) \<Rightarrow>
        if length (slots s) \<le> idx then Panics ''index out of bounds''
        else case spec_restart (slots s ! idx) tx acfg env of
               Panics e \<Rightarrow> Panics e
             | Returns (Inr r, env') \<Rightarrow>
                 (if length (current_refs s) \<le> idx then Panics ''index out of bounds''
                  else Returns (s\<lparr>slots := (slots s)[idx := set_id (ref_id r) (slots s ! idx)],
                                 current_refs := (current_refs s)[idx := r]\<rparr>, env'))
             | Returns (Inl e, env') \<Rightarrow>
                 Returns (s\<lparr>slots := (slots s)[idx := set_id DEAD (slots s ! idx)]\<rparr>, env'))"

text \<open>The loop over \<open>0..slots.len()\<close>, restarting where \<open>P\<close> holds of the slot at that time.\<close>

fun restart_where ::
  "nat \<Rightarrow> ActorConfig \<Rightarrow> (('a, 'm, 'k) ChildSpec \<Rightarrow> bool) \<Rightarrow> nat list \<Rightarrow> ('a, 'm, 'k) sup_state \<Rightarrow> ('a, 'm, 'k) sup_state outcome" where
  "restart_where tx acfg P [] st = Returns st"
| "restart_where tx acfg P (idx # is) st =
     (if P (slots (fst st) ! idx)
      then (case restart_child tx acfg idx st of
              Panics e \<Rightarrow> Panics e
            | Returns st' \<Rightarrow> restart_where tx acfg P is st')
      else restart_where tx acfg P is st)"

text \<open>\<open>for actor_ref in current_refs.iter().rev() { let _ = actor_ref.stop().await; }\<close>: \<open>None\<close> while a
  mailbox is full.\<close>

fun stop_all :: "ActorRef list \<Rightarrow> ('a, 'm) World \<Rightarrow> ('a, 'm) World option" where
  "stop_all [] w = Some w"
| "stop_all (r # rs) w = (case ref_stop r w of None \<Rightarrow> None | Some (_, w') \<Rightarrow> stop_all rs w')"

text \<open>The receiver of the signal channel is dropped when the task ends, or with a failed start. The
  references the task held are dropped too; when that closes a mailbox is up to the world of actors.\<close>

definition drop_signals :: "nat \<Rightarrow> ('a, 'm, 'k) Env \<Rightarrow> ('a, 'm, 'k) Env" where
  "drop_signals tx env = env\<lparr>world := (world env)\<lparr>signals := (signals (world env))(tx := close (signals (world env) tx))\<rparr>\<rparr>"

definition shut_down :: "nat \<Rightarrow> ('a, 'm, 'k) sup_state \<Rightarrow> ('a, 'm, 'k) sup_state option" where
  "shut_down tx st =
     (case stop_all (rev (current_refs (fst st))) (world (snd st)) of
        None \<Rightarrow> None
      | Some w \<Rightarrow> Some ((fst st)\<lparr>sup_running := False\<rparr>, drop_signals tx ((snd st)\<lparr>world := w\<rparr>)))"

text \<open>\<open>now - Duration::from_secs(s)\<close> panics when the seconds leave the range of \<open>i64\<close>.\<close>

definition instant_sub :: "int \<Rightarrow> u64 \<Rightarrow> int outcome" where
  "instant_sub now s =
     (let t = now - int (secs (unat s))
      in if t div 1000000000 < - (2 ^ 63) then Panics ''overflow when subtracting duration from instant'' else Returns t)"

text \<open>The window of recent signals: drop what is older than the cutoff, add the new one.\<close>

definition log_signal :: "int \<Rightarrow> int \<Rightarrow> int list \<Rightarrow> int list" where
  "log_signal cutoff now log = dropWhile (\<lambda>t. t < cutoff) log @ [now]"

definition find_slot :: "ActorId \<Rightarrow> ('a, 'm, 'k) ChildSpec list \<Rightarrow> nat option" where
  "find_slot i ss = position (\<lambda>s. spec_id s = i) ss"

definition abandon :: "ActorId \<Rightarrow> ('a, 'm, 'k) SupTask \<Rightarrow> ('a, 'm, 'k) SupTask" where
  "abandon i s =
     (case find_slot i (slots s) of
        None \<Rightarrow> s
      | Some idx \<Rightarrow> s\<lparr>slots := (slots s)[idx := set_id DEAD (slots s ! idx)]\<rparr>)"

definition failed_order :: "ActorId \<Rightarrow> ('a, 'm, 'k) ChildSpec list \<Rightarrow> nat" where
  "failed_order i ss = (case find_slot i ss of Some idx \<Rightarrow> spec_order (ss ! idx) | None \<Rightarrow> 0)"

definition apply_strategy ::
  "nat \<Rightarrow> SupervisorConfig \<Rightarrow> ActorConfig \<Rightarrow> ActorId \<Rightarrow> ('a, 'm, 'k) sup_state \<Rightarrow> ('a, 'm, 'k) sup_state outcome" where
  "apply_strategy tx cfg acfg child st =
     (case strategy cfg of
        OneForOne \<Rightarrow>
          (case find_slot child (slots (fst st)) of
             None \<Rightarrow> Returns st
           | Some idx \<Rightarrow> restart_child tx acfg idx st)
      | OneForAll \<Rightarrow> restart_where tx acfg (\<lambda>_. True) [0..<length (slots (fst st))] st
      | RestForOne \<Rightarrow>
          (let fo = failed_order child (slots (fst st))
           in restart_where tx acfg (\<lambda>s. fo \<le> spec_order s) [0..<length (slots (fst st))] st))"

text \<open>The branch \<open>rx.recv()\<close>. The inner \<open>None\<close> is a shutdown still waiting for a full mailbox.\<close>

definition on_signal ::
  "nat \<Rightarrow> SupervisorConfig \<Rightarrow> ActorConfig \<Rightarrow> int \<Rightarrow> RestartSignal \<Rightarrow> ('a, 'm, 'k) sup_state \<Rightarrow> ('a, 'm, 'k) sup_state option outcome" where
  "on_signal tx cfg acfg now sig st =
     (case instant_sub now (within_secs cfg) of
        Panics e \<Rightarrow> Panics e
      | Returns cutoff \<Rightarrow>
          (let st1 = ((fst st)\<lparr>restart_log := log_signal cutoff now (restart_log (fst st))\<rparr>, snd st)
           in if max_restarts cfg < length (restart_log (fst st1))
              then (case intensity_action cfg of
                      ShutdownSupervisor \<Rightarrow> Returns (shut_down tx st1)
                    | AbandonChild \<Rightarrow> Returns (Some (abandon (child_id sig) (fst st1), snd st1)))
              else (case apply_strategy tx cfg acfg (child_id sig) st1 of
                      Panics e \<Rightarrow> Panics e
                    | Returns st2 \<Rightarrow> Returns (Some st2))))"

section \<open>Starting\<close>

record SupervisorHandle =
  initial_refs :: "ActorRef list"

definition initial_ref :: "SupervisorHandle \<Rightarrow> ActorRef option" where
  "initial_ref h = (case initial_refs h of [] \<Rightarrow> None | r # _ \<Rightarrow> Some r)"

text \<open>The first loop of \<open>start_settled\<close>: the specs with their ids set and the references, up to the
  first error, which is returned at once.\<close>

fun start_children ::
  "nat \<Rightarrow> ActorConfig \<Rightarrow> ('a, 'm, 'k) ChildSpec list \<Rightarrow> ('a, 'm, 'k) Env
     \<Rightarrow> ((string + ('a, 'm, 'k) ChildSpec list \<times> ActorRef list) \<times> ('a, 'm, 'k) Env) outcome" where
  "start_children tx acfg [] env = Returns (Inr ([], []), env)"
| "start_children tx acfg (s # ss) env =
     (case spec_restart s tx acfg env of
        Panics e \<Rightarrow> Panics e
      | Returns (Inl e, env') \<Rightarrow> Returns (Inl e, env')
      | Returns (Inr r, env') \<Rightarrow>
          (case start_children tx acfg ss env' of
             Panics e \<Rightarrow> Panics e
           | Returns (Inl e, env'') \<Rightarrow> Returns (Inl e, env'')
           | Returns (Inr (ss', rs), env'') \<Rightarrow> Returns (Inr (set_id (ref_id r) s # ss', r # rs), env'')))"

text \<open>\<open>start_settled\<close> makes the signal channel \<open>tx\<close>, starts the children in order and spawns the task.
  The settling delay only lets other tasks run.\<close>

definition start_settled ::
  "duration \<Rightarrow> nat \<Rightarrow> ('a, 'm, 'k) Supervisor \<Rightarrow> ('a, 'm, 'k) Env
     \<Rightarrow> ((string + SupervisorHandle \<times> ('a, 'm, 'k) SupTask) \<times> ('a, 'm, 'k) Env) outcome" where
  "start_settled settle tx sv env =
     (let ss = sort_key spec_order (children sv) in
      case channel (sup_mailbox_capacity (sup_config sv)) of
        Panics e \<Rightarrow> Panics e
      | Returns ch \<Rightarrow>
          (case start_children tx (sup_actor_config sv) ss
                  (env\<lparr>world := (world env)\<lparr>signals := (signals (world env))(tx := ch)\<rparr>\<rparr>) of
             Panics e \<Rightarrow> Panics e
           | Returns (Inl e, env') \<Rightarrow> Returns (Inl e, drop_signals tx env')
           | Returns (Inr (ss', rs), env') \<Rightarrow>
               Returns (Inr (\<lparr>initial_refs = rs\<rparr>,
                 \<lparr>slots = ss', current_refs = rs, restart_log = [], sup_running = True\<rparr>), env')))"

definition start ::
  "nat \<Rightarrow> ('a, 'm, 'k) Supervisor \<Rightarrow> ('a, 'm, 'k) Env
     \<Rightarrow> ((string + SupervisorHandle \<times> ('a, 'm, 'k) SupTask) \<times> ('a, 'm, 'k) Env) outcome" where
  "start tx sv env = start_settled 0 tx sv env"

definition supervise_actor_with_config ::
  "nat \<Rightarrow> ('a, 'm) DynActor \<Rightarrow> SupervisorConfig \<Rightarrow> ActorConfig \<Rightarrow> ('a, 'm, 'k) Env
     \<Rightarrow> ((string + ActorRef \<times> SupervisorHandle \<times> ('a, 'm, 'k) SupTask) \<times> ('a, 'm, 'k) Env) outcome" where
  "supervise_actor_with_config tx a cfg acfg env =
     (case child_spec 0 (spawn_factory a (\<lambda>_ env. env)) env of
        (spec, env1) \<Rightarrow>
          (case start tx (with_actor_config acfg cfg [spec]) env1 of
             Panics e \<Rightarrow> Panics e
           | Returns (Inl e, env2) \<Rightarrow> Returns (Inl e, env2)
           | Returns (Inr (h, task), env2) \<Rightarrow>
               (case initial_ref h of
                  None \<Rightarrow> Returns (Inl ''supervised child failed to spawn'', env2)
                | Some r \<Rightarrow> Returns (Inr (r, h, task), env2))))"

definition supervise_actor ::
  "nat \<Rightarrow> ('a, 'm) DynActor \<Rightarrow> SupervisorConfig \<Rightarrow> ('a, 'm, 'k) Env
     \<Rightarrow> ((string + ActorRef \<times> SupervisorHandle \<times> ('a, 'm, 'k) SupTask) \<times> ('a, 'm, 'k) Env) outcome" where
  "supervise_actor tx a cfg env = supervise_actor_with_config tx a cfg ActorConfig_default env"

section \<open>Runs of the supervisor task\<close>

datatype sup_event = Signal int RestartSignal | ShutdownRequest

text \<open>One turn of the loop; \<open>None\<close>: it panicked, or its shutdown waits on a full mailbox.\<close>

definition sup_turn ::
  "nat \<Rightarrow> SupervisorConfig \<Rightarrow> ActorConfig \<Rightarrow> sup_event \<Rightarrow> ('a, 'm, 'k) sup_state \<Rightarrow> ('a, 'm, 'k) sup_state option" where
  "sup_turn tx cfg acfg ev st =
     (if \<not> sup_running (fst st) then Some st
      else case ev of
             ShutdownRequest \<Rightarrow> shut_down tx st
           | Signal now sig \<Rightarrow>
               (case on_signal tx cfg acfg now sig st of Panics _ \<Rightarrow> None | Returns r \<Rightarrow> r))"

text \<open>\<open>SupervisorHandle::stop\<close> completes the shutdown request and waits for the task, which may have ended
  before; \<open>None\<close> while the shutdown waits on a full mailbox. A handle that is dropped completes the
  request too: its sender is gone.\<close>

definition handle_stop ::
  "nat \<Rightarrow> SupervisorConfig \<Rightarrow> ActorConfig \<Rightarrow> ('a, 'm, 'k) sup_state \<Rightarrow> ('a, 'm, 'k) sup_state option" where
  "handle_stop tx cfg acfg st = sup_turn tx cfg acfg ShutdownRequest st"

fun sup_run ::
  "nat \<Rightarrow> SupervisorConfig \<Rightarrow> ActorConfig \<Rightarrow> sup_event list \<Rightarrow> ('a, 'm, 'k) sup_state \<Rightarrow> ('a, 'm, 'k) sup_state option" where
  "sup_run tx cfg acfg [] st = Some st"
| "sup_run tx cfg acfg (e # es) st = Option.bind (sup_turn tx cfg acfg e st) (sup_run tx cfg acfg es)"

definition signal_times :: "sup_event list \<Rightarrow> int list" where
  "signal_times es = concat (map (\<lambda>e. case e of Signal t _ \<Rightarrow> [t] | ShutdownRequest \<Rightarrow> []) es)"

section \<open>Restarting\<close>

text \<open>The specification of a strategy: the slots it restarts, in slot order.\<close>

definition restart_set :: "RestartStrategy \<Rightarrow> ActorId \<Rightarrow> ('a, 'm, 'k) ChildSpec list \<Rightarrow> nat list" where
  "restart_set strat child ss =
     (case strat of
        OneForOne \<Rightarrow> (case find_slot child ss of None \<Rightarrow> [] | Some idx \<Rightarrow> [idx])
      | OneForAll \<Rightarrow> [0..<length ss]
      | RestForOne \<Rightarrow> filter (\<lambda>i. failed_order child ss \<le> spec_order (ss ! i)) [0..<length ss])"

text \<open>Running the factories of some specs one after the other.\<close>

fun run_factories ::
  "nat \<Rightarrow> ActorConfig \<Rightarrow> ('a, 'm, 'k) ChildSpec list \<Rightarrow> ('a, 'm, 'k) Env
     \<Rightarrow> ((string + ActorRef) list \<times> ('a, 'm, 'k) Env) outcome" where
  "run_factories tx acfg [] env = Returns ([], env)"
| "run_factories tx acfg (s # ss) env =
     (case spec_factory s tx acfg env of
        Panics e \<Rightarrow> Panics e
      | Returns (r, env') \<Rightarrow>
          (case run_factories tx acfg ss env' of
             Panics e \<Rightarrow> Panics e
           | Returns (rs, env'') \<Rightarrow> Returns (r # rs, env'')))"

text \<open>What a restart result does to its slot: the new id and reference, or the sentinel.\<close>

definition apply_result :: "nat \<times> (string + ActorRef) \<Rightarrow> ('a, 'm, 'k) SupTask \<Rightarrow> ('a, 'm, 'k) SupTask" where
  "apply_result p s =
     (case snd p of
        Inr r \<Rightarrow> s\<lparr>slots := (slots s)[fst p := set_id (ref_id r) (slots s ! fst p)],
                  current_refs := (current_refs s)[fst p := r]\<rparr>
      | Inl _ \<Rightarrow> s\<lparr>slots := (slots s)[fst p := set_id DEAD (slots s ! fst p)]\<rparr>)"

text \<open>The state after the slots \<open>is\<close> got their results.\<close>

definition restarted ::
  "nat list \<Rightarrow> ('a, 'm, 'k) SupTask \<Rightarrow> ((string + ActorRef) list \<times> ('a, 'm, 'k) Env) outcome \<Rightarrow> ('a, 'm, 'k) sup_state outcome" where
  "restarted is s x =
     (case x of Panics e \<Rightarrow> Panics e | Returns (rs, env) \<Rightarrow> Returns (fold apply_result (zip is rs) s, env))"

text \<open>Slots and references are parallel, and a slot's id is its reference's or the sentinel.\<close>

definition sup_ok :: "('a, 'm, 'k) SupTask \<Rightarrow> bool" where
  "sup_ok s \<longleftrightarrow> length (current_refs s) = length (slots s) \<and>
     (\<forall>i < length (slots s). spec_id (slots s ! i) = DEAD \<or> spec_id (slots s ! i) = ref_id (current_refs s ! i))"

lemma find_slot_Some: "find_slot i ss = Some k \<Longrightarrow> k < length ss \<and> spec_id (ss ! k) = i"
  unfolding find_slot_def by (drule position_Some) simp

lemma apply_result_length [simp]:
  "length (slots (apply_result p s)) = length (slots s)"
  "length (current_refs (apply_result p s)) = length (current_refs s)"
  by (simp_all add: apply_result_def split: sum.split)

lemma apply_result_other:
  "i \<noteq> fst p \<Longrightarrow> slots (apply_result p s) ! i = slots s ! i"
  "i \<noteq> fst p \<Longrightarrow> current_refs (apply_result p s) ! i = current_refs s ! i"
  by (simp_all add: apply_result_def split: sum.split)

lemma apply_result_ok: "sup_ok s \<Longrightarrow> sup_ok (apply_result p s)"
  by (cases "fst p < length (slots s)")
    (auto simp: sup_ok_def apply_result_def set_id_def nth_list_update split: sum.split)

lemma restart_child_eq:
  assumes "sup_ok s" and "idx < length (slots s)"
  shows "restart_child tx acfg idx (s, env) =
    (case spec_factory (slots s ! idx) tx acfg env of
       Panics e \<Rightarrow> Panics e
     | Returns (r, env') \<Rightarrow> Returns (apply_result (idx, r) s, env'))"
  using assms
  by (auto simp: restart_child_def spec_restart_def sup_ok_def apply_result_def split: outcome.splits sum.splits)

lemma restart_where_eq:
  assumes "sup_ok s" and "\<forall>i \<in> set is. i < length (slots s)" and "distinct is"
    and P: "\<And>a b. spec_order a = spec_order b \<Longrightarrow> P a = P b"
  shows "restart_where tx acfg P is (s, env) = restarted (filter (\<lambda>i. P (slots s ! i)) is) s
    (run_factories tx acfg (map ((!) (slots s)) (filter (\<lambda>i. P (slots s ! i)) is)) env)"
  using assms(1-3)
proof (induction "is" arbitrary: s env)
  case (Cons i "is")
  show ?case
  proof (cases "P (slots s ! i)")
    case False
    then show ?thesis using Cons by simp
  next
    case True
    show ?thesis
    proof (cases "spec_factory (slots s ! i) tx acfg env")
      case (Panics e)
      then show ?thesis using True Cons.prems by (simp add: restart_child_eq restarted_def)
    next
      case (Returns x)
      obtain r env1 where x: "x = (r, env1)" by (cases x)
      let ?s = "apply_result (i, r) s"
      have st: "restart_child tx acfg i (s, env) = Returns (?s, env1)"
        using Cons.prems Returns x by (simp add: restart_child_eq)
      have same: "j \<in> set is \<Longrightarrow> slots ?s ! j = slots s ! j" for j
        using Cons.prems(3) apply_result_other(1) [of j "(i, r)" s] by auto
      have f: "filter (\<lambda>j. P (slots ?s ! j)) is = filter (\<lambda>j. P (slots s ! j)) is"
        using same by (auto intro: filter_cong)
      have g: "map ((!) (slots ?s)) (filter (\<lambda>j. P (slots s ! j)) is) = map ((!) (slots s)) (filter (\<lambda>j. P (slots s ! j)) is)"
        using same by auto
      have "restart_where tx acfg P is (?s, env1) = restarted (filter (\<lambda>i. P (slots s ! i)) is) ?s
        (run_factories tx acfg (map ((!) (slots s)) (filter (\<lambda>i. P (slots s ! i)) is)) env1)"
        using Cons.IH [of ?s env1] Cons.prems by (simp add: apply_result_ok f g)
      then show ?thesis using True st Returns x
        by (cases "run_factories tx acfg (map ((!) (slots s)) (filter (\<lambda>i. P (slots s ! i)) is)) env1")
          (auto simp: restarted_def)
    qed
  qed
qed (simp add: restarted_def)

lemma apply_strategy_eq:
  assumes "sup_ok s"
  shows "apply_strategy tx cfg acfg child (s, env) =
    restarted (restart_set (strategy cfg) child (slots s)) s
      (run_factories tx acfg (map ((!) (slots s)) (restart_set (strategy cfg) child (slots s))) env)"
proof (cases "strategy cfg")
  case OneForOne
  then show ?thesis
    by (cases "find_slot child (slots s)")
      (auto simp: apply_strategy_def restart_set_def restarted_def restart_child_eq [OF assms] split: outcome.splits dest!: find_slot_Some)
next
  case OneForAll
  then show ?thesis
    using restart_where_eq [OF assms, of "[0..<length (slots s)]" "\<lambda>_. True"]
    by (simp add: apply_strategy_def restart_set_def filter_True)
next
  case RestForOne
  then show ?thesis
    using restart_where_eq [OF assms, of "[0..<length (slots s)]" "\<lambda>x. failed_order child (slots s) \<le> spec_order x"]
    by (simp add: apply_strategy_def restart_set_def Let_def)
qed

lemma run_factories_length: "run_factories tx acfg ss env = Returns (rs, env') \<Longrightarrow> length rs = length ss"
  by (induction ss arbitrary: env rs) (auto split: outcome.splits)

lemma restart_set_props: "distinct (restart_set st c ss)" "i \<in> set (restart_set st c ss) \<Longrightarrow> i < length ss"
  by (auto simp: restart_set_def split: RestartStrategy.splits option.splits dest!: find_slot_Some [OF sym] find_slot_Some)

lemma fold_apply_result:
  assumes "distinct is" and "length rs = length is" and "\<forall>i \<in> set is. i < length (slots s)" and "sup_ok s"
  shows "sup_ok (fold apply_result (zip is rs) s)"
    and "length (slots (fold apply_result (zip is rs) s)) = length (slots s)"
    and "i \<notin> set is \<Longrightarrow> slots (fold apply_result (zip is rs) s) ! i = slots s ! i
      \<and> current_refs (fold apply_result (zip is rs) s) ! i = current_refs s ! i"
    and "k < length is \<Longrightarrow> spec_id (slots (fold apply_result (zip is rs) s) ! (is ! k))
      = (case rs ! k of Inr r \<Rightarrow> ref_id r | Inl _ \<Rightarrow> DEAD)"
    and "k < length is \<Longrightarrow> rs ! k = Inr r \<Longrightarrow> current_refs (fold apply_result (zip is rs) s) ! (is ! k) = r"
proof -
  have "sup_ok (fold apply_result (zip is rs) s)
    \<and> length (slots (fold apply_result (zip is rs) s)) = length (slots s)
    \<and> (\<forall>i. i \<notin> set is \<longrightarrow> slots (fold apply_result (zip is rs) s) ! i = slots s ! i
      \<and> current_refs (fold apply_result (zip is rs) s) ! i = current_refs s ! i)
    \<and> (\<forall>k < length is. spec_id (slots (fold apply_result (zip is rs) s) ! (is ! k))
      = (case rs ! k of Inr r \<Rightarrow> ref_id r | Inl _ \<Rightarrow> DEAD)
      \<and> (\<forall>r. rs ! k = Inr r \<longrightarrow> current_refs (fold apply_result (zip is rs) s) ! (is ! k) = r))"
    using assms
  proof (induction "is" arbitrary: rs s)
    case (Cons j js)
    obtain r rs' where rs: "rs = r # rs'" "length rs' = length js" using Cons.prems(2) by (cases rs) auto
    let ?s = "apply_result (j, r) s"
    note IH = Cons.IH [of rs' ?s]
    have j: "j < length (slots s)" "j \<notin> set js" "length (current_refs s) = length (slots s)"
      using Cons.prems by (auto simp: sup_ok_def)
    have own: "spec_id (slots ?s ! j) = (case r of Inr x \<Rightarrow> ref_id x | Inl _ \<Rightarrow> DEAD)"
      "\<forall>x. r = Inr x \<longrightarrow> current_refs ?s ! j = x"
      using j by (auto simp: apply_result_def set_id_def split: sum.split)
    show ?case
      using IH Cons.prems rs own j apply_result_other [of _ "(j, r)" s]
      by (auto simp: apply_result_ok nth_Cons split: nat.splits)
  qed simp
  then show "sup_ok (fold apply_result (zip is rs) s)"
    and "length (slots (fold apply_result (zip is rs) s)) = length (slots s)"
    and "i \<notin> set is \<Longrightarrow> slots (fold apply_result (zip is rs) s) ! i = slots s ! i
      \<and> current_refs (fold apply_result (zip is rs) s) ! i = current_refs s ! i"
    and "k < length is \<Longrightarrow> spec_id (slots (fold apply_result (zip is rs) s) ! (is ! k))
      = (case rs ! k of Inr r \<Rightarrow> ref_id r | Inl _ \<Rightarrow> DEAD)"
    and "k < length is \<Longrightarrow> rs ! k = Inr r \<Longrightarrow> current_refs (fold apply_result (zip is rs) s) ! (is ! k) = r"
    by blast+
qed

section \<open>The restart window\<close>

lemma dropWhile_sorted:
  "sorted xs \<Longrightarrow> dropWhile (\<lambda>t. t < c) xs = filter (\<lambda>t. c \<le> (t :: int)) xs"
  by (induction xs) (auto intro!: sym [OF filter_True])

lemma filter_window: "c \<le> c' \<Longrightarrow> filter (\<lambda>t. c' \<le> t) (filter (\<lambda>t. c \<le> (t :: int)) xs) = filter (\<lambda>t. c' \<le> t) xs"
  by (auto intro: filter_cong)

definition window :: "SupervisorConfig \<Rightarrow> int" where
  "window cfg = int (secs (unat (within_secs cfg)))"

lemma instant_sub_Returns: "instant_sub now w = Returns c \<Longrightarrow> c = now - int (secs (unat w))"
  by (auto simp: instant_sub_def Let_def split: if_splits)

lemma restart_child_log: "restart_child tx acfg i st = Returns st' \<Longrightarrow> restart_log (fst st') = restart_log (fst st)"
  by (cases st) (auto simp: restart_child_def split: if_splits outcome.splits sum.splits)

lemma restart_where_log: "restart_where tx acfg P is st = Returns st' \<Longrightarrow> restart_log (fst st') = restart_log (fst st)"
proof (induction "is" arbitrary: st)
  case (Cons i "is")
  then show ?case by (auto split: if_splits outcome.splits simp: restart_child_log)
qed simp

lemma apply_strategy_log: "apply_strategy tx cfg acfg c st = Returns st' \<Longrightarrow> restart_log (fst st') = restart_log (fst st)"
  by (auto simp: apply_strategy_def Let_def restart_child_log restart_where_log
      split: RestartStrategy.splits option.splits)

lemma on_signal_log:
  assumes "on_signal tx cfg acfg now sig st = Returns (Some st')"
  shows "restart_log (fst st') = log_signal (now - window cfg) now (restart_log (fst st))"
  using assms
  by (auto simp: on_signal_def Let_def shut_down_def abandon_def window_def dest!: instant_sub_Returns apply_strategy_log
      split: outcome.splits if_splits IntensityAction.splits option.splits)

text \<open>The log is a window onto the signal times: old enough entries may be missing, recent ones not.\<close>

definition log_ok :: "int \<Rightarrow> int list \<Rightarrow> int list \<Rightarrow> bool" where
  "log_ok wd ts log \<longleftrightarrow>
     sorted log \<and> set log \<subseteq> set ts \<and>
     (\<forall>c. (\<forall>t \<in> set ts. t - wd \<le> c) \<longrightarrow> filter (\<lambda>t. c \<le> t) log = filter (\<lambda>t. c \<le> t) ts)"

lemma log_signal_ok:
  assumes ok: "log_ok wd ts log" and now: "\<forall>t \<in> set ts. t \<le> now" and wd: "0 \<le> wd"
  shows "log_signal (now - wd) now log = filter (\<lambda>t. now - wd \<le> t) (ts @ [now])"
    and "log_ok wd (ts @ [now]) (log_signal (now - wd) now log)"
proof -
  have "filter (\<lambda>t. now - wd \<le> t) log = filter (\<lambda>t. now - wd \<le> t) ts"
    using ok now by (auto simp: log_ok_def)
  then show eq: "log_signal (now - wd) now log = filter (\<lambda>t. now - wd \<le> t) (ts @ [now])"
    using ok wd by (simp add: log_signal_def log_ok_def dropWhile_sorted)
  have "sorted log" "set log \<subseteq> set ts" using ok by (auto simp: log_ok_def)
  then have "sorted (log_signal (now - wd) now log)"
    using now by (auto simp: log_signal_def sorted_append sorted_dropWhile dest!: set_dropWhileD)
  moreover have "filter (\<lambda>t. c \<le> t) (log_signal (now - wd) now log) = filter (\<lambda>t. c \<le> t) (ts @ [now])"
    if "\<forall>t \<in> set (ts @ [now]). t - wd \<le> c" for c
    unfolding eq using that by (intro filter_window) simp
  ultimately show "log_ok wd (ts @ [now]) (log_signal (now - wd) now log)"
    unfolding log_ok_def by (auto simp: eq)
qed

lemma signal_times_snoc:
  "signal_times (es @ [e]) = signal_times es @ (case e of Signal t _ \<Rightarrow> [t] | ShutdownRequest \<Rightarrow> [])"
  by (simp add: signal_times_def)

lemma sup_run_snoc:
  "sup_run tx cfg acfg (es @ [e]) st = Option.bind (sup_run tx cfg acfg es st) (sup_turn tx cfg acfg e)"
  by (induction es arbitrary: st) (auto split: Option.bind_splits)

lemma shut_down_stopped: "shut_down tx st = Some st' \<Longrightarrow> \<not> sup_running (fst st')"
  by (auto simp: shut_down_def split: option.splits)

lemma sup_run_log:
  assumes "sup_run tx cfg acfg es st = Some st'" and "sup_running (fst st')" and "restart_log (fst st) = []"
    and "sorted (signal_times es)"
  shows "log_ok (window cfg) (signal_times es) (restart_log (fst st'))"
  using assms
proof (induction es arbitrary: st' rule: rev_induct)
  case Nil
  then show ?case by (simp add: log_ok_def signal_times_def)
next
  case (snoc e es)
  obtain st1 where st1: "sup_run tx cfg acfg es st = Some st1" "sup_turn tx cfg acfg e st1 = Some st'"
    using snoc.prems(1) by (auto simp: sup_run_snoc bind_eq_Some_conv)
  have run1: "sup_running (fst st1)" using st1(2) snoc.prems(2) by (auto simp: sup_turn_def split: if_splits)
  have so: "sorted (signal_times es)" using snoc.prems(4) by (auto simp: signal_times_snoc sorted_append)
  note IH = snoc.IH [OF st1(1) run1 snoc.prems(3) so]
  show ?case
  proof (cases e)
    case ShutdownRequest
    then show ?thesis using st1(2) run1 snoc.prems(2) shut_down_stopped [of tx st1 st'] by (simp add: sup_turn_def)
  next
    case (Signal now sig)
    then have "on_signal tx cfg acfg now sig st1 = Returns (Some st')"
      using st1(2) run1 by (auto simp: sup_turn_def split: outcome.splits)
    moreover have "\<forall>t \<in> set (signal_times es). t \<le> now"
      using snoc.prems(4) Signal by (auto simp: signal_times_snoc sorted_append)
    ultimately show ?thesis
      using log_signal_ok(2) [OF IH] on_signal_log [of tx cfg acfg now sig st1 st'] Signal
      by (simp add: signal_times_snoc window_def)
  qed
qed

lemma start_children_error:
  "start_children tx acfg ss e = Returns (Inl x, e') \<Longrightarrow>
   \<exists>pre s post rs env1. ss = pre @ s # post \<and> run_factories tx acfg pre e = Returns (map Inr rs, env1)
     \<and> spec_factory s tx acfg env1 = Returns (Inl x, e')"
proof (induction ss arbitrary: e)
  case (Cons s ss)
  show ?case
  proof (cases "spec_factory s tx acfg e")
    case (Returns y)
    obtain r e1 where y: "y = (r, e1)" by (cases y)
    show ?thesis
    proof (cases r)
      case (Inl z)
      then have "run_factories tx acfg [] e = Returns (map Inr [], e) \<and> spec_factory s tx acfg e = Returns (Inl x, e')"
        using Cons.prems Returns y by (simp add: spec_restart_def)
      then show ?thesis by blast
    next
      case (Inr q)
      then have "start_children tx acfg ss e1 = Returns (Inl x, e')"
        using Cons.prems Returns y by (auto simp: spec_restart_def split: outcome.splits sum.splits)
      from Cons.IH [OF this] obtain pre s' post rs env1 where h: "ss = pre @ s' # post"
        "run_factories tx acfg pre e1 = Returns (map Inr rs, env1)" "spec_factory s' tx acfg env1 = Returns (Inl x, e')"
        by blast
      have "run_factories tx acfg (s # pre) e = Returns (map Inr (q # rs), env1)"
        using Returns y Inr h(2) by simp
      then show ?thesis using h(1,3) by (metis append_Cons)
    qed
  qed (use Cons.prems in \<open>simp add: spec_restart_def\<close>)
qed simp

lemma start_children_ok:
  "start_children tx acfg ss e = Returns (Inr (ss', rs), e') \<Longrightarrow>
   map spec_order ss' = map spec_order ss \<and> map spec_factory ss' = map spec_factory ss \<and> map spec_id ss' = map ref_id rs
     \<and> length rs = length ss \<and> run_factories tx acfg ss e = Returns (map Inr rs, e')"
proof (induction ss arbitrary: e ss' rs)
  case (Cons s ss)
  then show ?case
    by (fastforce simp: spec_restart_def set_id_def split: outcome.splits sum.splits prod.splits)
qed simp

lemma started_ok:
  assumes "start_children tx acfg ss e = Returns (Inr (ss', rs), e')"
  shows "sup_ok \<lparr>slots = ss', current_refs = rs, restart_log = [], sup_running = True\<rparr>"
proof -
  note f = start_children_ok [OF assms]
  have len: "length ss' = length rs" using f by (metis map_eq_imp_length_eq)
  have "spec_id (ss' ! i) = ref_id (rs ! i)" if "i < length ss'" for i using f len that by (metis nth_map)
  then show ?thesis using len by (simp add: sup_ok_def)
qed

text \<open>The environment in which the children start: the signal channel \<open>tx\<close> is fresh and empty.\<close>

definition listening :: "nat \<Rightarrow> ('a, 'm, 'k) Supervisor \<Rightarrow> ('a, 'm, 'k) Env \<Rightarrow> ('a, 'm, 'k) Env" where
  "listening tx sv env = env\<lparr>world := (world env)\<lparr>signals :=
     (signals (world env))(tx := \<lparr>cap = sup_mailbox_capacity (sup_config sv), queue = [], rx_open = True\<rparr>)\<rparr>\<rparr>"

lemma start_eq:
  "start tx sv env =
     (if sup_mailbox_capacity (sup_config sv) = 0 then Panics ''mpsc bounded channel requires buffer > 0''
      else case start_children tx (sup_actor_config sv) (sort_key spec_order (children sv)) (listening tx sv env) of
             Panics e \<Rightarrow> Panics e
           | Returns (Inl e, env') \<Rightarrow> Returns (Inl e, drop_signals tx env')
           | Returns (Inr (ss', rs), env') \<Rightarrow>
               Returns (Inr (\<lparr>initial_refs = rs\<rparr>,
                 \<lparr>slots = ss', current_refs = rs, restart_log = [], sup_running = True\<rparr>), env'))"
  by (simp add: start_def start_settled_def listening_def channel_def mpsc_capacity_def)

section \<open>Properties\<close>

text \<open>C3. Restart intensity. After any run of the supervisor on signals received in time order, the
  next signal is counted against exactly the signals of the last \<open>within_secs\<close> seconds, itself
  included and the boundary included: the supervisor gives up (by its intensity action) if and only if
  they are more than \<open>max_restarts\<close>, and applies its strategy otherwise; the log it keeps is exactly
  that window.\<close>

theorem restart_intensity_window:
  assumes run: "sup_run tx cfg acfg es st = Some (s, env)" and up: "sup_running s" and fresh: "restart_log (fst st) = []"
    and sorted: "sorted (signal_times es @ [now])" and c: "instant_sub now (within_secs cfg) = Returns cutoff"
  shows "let recent = filter (\<lambda>t. now - int (secs (unat (within_secs cfg))) \<le> t) (signal_times es @ [now]);
             s' = s\<lparr>restart_log := recent\<rparr>
    in on_signal tx cfg acfg now sig (s, env) =
      (if max_restarts cfg < length recent
       then Returns (case intensity_action cfg of
                       ShutdownSupervisor \<Rightarrow> shut_down tx (s', env)
                     | AbandonChild \<Rightarrow> Some (abandon (child_id sig) s', env))
       else case apply_strategy tx cfg acfg (child_id sig) (s', env) of
              Panics e \<Rightarrow> Panics e | Returns st' \<Rightarrow> Returns (Some st'))"
proof -
  have so: "sorted (signal_times es)" "\<forall>t \<in> set (signal_times es). t \<le> now"
    using sorted by (auto simp: sorted_append)
  have "log_ok (window cfg) (signal_times es) (restart_log s)"
    using sup_run_log [OF run _ fresh so(1)] up by simp
  from log_signal_ok(1) [OF this so(2)]
  have "log_signal cutoff now (restart_log s) = filter (\<lambda>t. now - window cfg \<le> t) (signal_times es @ [now])"
    using instant_sub_Returns [OF c] by (simp add: window_def)
  then show ?thesis
    unfolding Let_def on_signal_def c window_def [symmetric] by (simp split: IntensityAction.split)
qed

definition demo_env :: "(unit, nat, string) Env" where
  "demo_env = \<lparr>world = world_new (\<lambda>_. \<lparr>cap = 4, queue = [], rx_open = True\<rparr>), registries = (\<lambda>_. ChildRegistry_new),
     child_slots = (\<lambda>_. ChildSlot_new)\<rparr>"

definition demo_task :: "(unit, nat, string) SupTask" where
  "demo_task = \<lparr>slots = [], current_refs = [], restart_log = [], sup_running = True\<rparr>"

theorem restart_intensity_window_witness:
  "on_signal 0 (SupervisorConfig_default\<lparr>max_restarts := 0\<rparr>) ActorConfig_default 7 \<lparr>child_id = 1, sig_reason = ''x''\<rparr>
     (demo_task, demo_env) = Returns (shut_down 0 (demo_task\<lparr>restart_log := [7]\<rparr>, demo_env))"
proof -
  have "instant_sub 7 (within_secs (SupervisorConfig_default\<lparr>max_restarts := 0\<rparr>)) = Returns (7 - 10 * 1000000000)"
    by (simp add: instant_sub_def SupervisorConfig_default_def secs_def Let_def)
  from restart_intensity_window [of 0 "SupervisorConfig_default\<lparr>max_restarts := 0\<rparr>" ActorConfig_default "[]" "(demo_task, demo_env)"
      demo_task demo_env 7, OF _ _ _ _ this]
  show ?thesis by (simp add: demo_task_def signal_times_def SupervisorConfig_default_def secs_def)
qed

text \<open>C2. What a restart touches. Every strategy refines the same contract: it runs the factories of
  the slots in its restart set, each once and in slot order, gives each of them the new id and
  reference or, when its factory failed, the sentinel id; every other slot and reference is unchanged,
  and slots and references stay parallel. \<open>OneForOne\<close> restarts the slot with the failed id and nothing
  when no slot has it; \<open>OneForAll\<close> all slots; \<open>RestForOne\<close> every slot whose order is at least the failed
  one's.\<close>

theorem strategy_restarts_its_set:
  assumes ok: "sup_ok s" and r: "apply_strategy tx cfg acfg child (s, env) = Returns (s', env')"
  defines "rset \<equiv> restart_set (strategy cfg) child (slots s)"
  shows "\<exists>rs. run_factories tx acfg (map ((!) (slots s)) rset) env = Returns (rs, env') \<and> length rs = length rset
    \<and> sup_ok s' \<and> length (slots s') = length (slots s)
    \<and> (\<forall>k < length rset. spec_id (slots s' ! (rset ! k)) = (case rs ! k of Inr x \<Rightarrow> ref_id x | Inl _ \<Rightarrow> DEAD)
        \<and> (\<forall>x. rs ! k = Inr x \<longrightarrow> current_refs s' ! (rset ! k) = x))
    \<and> (\<forall>i. i \<notin> set rset \<longrightarrow> slots s' ! i = slots s ! i \<and> current_refs s' ! i = current_refs s ! i)"
proof -
  obtain rs where rs: "run_factories tx acfg (map ((!) (slots s)) rset) env = Returns (rs, env')"
    "s' = fold apply_result (zip rset rs) s"
    using r unfolding apply_strategy_eq [OF ok] rset_def by (auto simp: restarted_def split: outcome.splits)
  have len: "length rs = length rset" using run_factories_length [OF rs(1)] by simp
  have d: "distinct rset" "\<forall>i \<in> set rset. i < length (slots s)"
    unfolding rset_def using restart_set_props by auto
  note f = fold_apply_result [OF d(1) len d(2) ok]
  show ?thesis using rs len f by (intro exI [of _ rs]) auto
qed

definition demo_spec :: "(unit, nat, string) ChildSpec" where
  "demo_spec = \<lparr>spec_id = 1, spec_order = 0, spec_factory = (\<lambda>_ _ env. Returns (Inl ''no'', env))\<rparr>"

theorem strategy_restarts_its_set_witness:
  "\<exists>s' :: (unit, nat, string) SupTask.
     apply_strategy 0 SupervisorConfig_default ActorConfig_default 1
       (demo_task\<lparr>slots := [demo_spec], current_refs := [\<lparr>ref_id = 1\<rparr>]\<rparr>, demo_env) = Returns (s', demo_env)
     \<and> sup_ok s' \<and> spec_id (slots s' ! 0) = DEAD"
proof -
  let ?s = "demo_task\<lparr>slots := [demo_spec], current_refs := [\<lparr>ref_id = 1\<rparr>]\<rparr>"
  have ok: "sup_ok ?s" by (simp add: sup_ok_def demo_spec_def demo_task_def)
  have r: "apply_strategy 0 SupervisorConfig_default ActorConfig_default 1 (?s, demo_env)
      = Returns (?s\<lparr>slots := [set_id DEAD demo_spec]\<rparr>, demo_env)"
    by (simp add: apply_strategy_def SupervisorConfig_default_def find_slot_def restart_child_def spec_restart_def demo_spec_def)
  show ?thesis using strategy_restarts_its_set [OF ok r] r by (auto simp: set_id_def)
qed

text \<open>On slots in start order, those of order at least \<open>f\<close> are a suffix.\<close>

lemma restart_suffix:
  "sorted (map spec_order ss) \<Longrightarrow>
   filter (\<lambda>i. f \<le> spec_order (ss ! i)) [0..<length ss] = [length (filter (\<lambda>s. spec_order s < f) ss)..<length ss]"
proof (induction ss rule: rev_induct)
  case (snoc x ss)
  have IH: "filter (\<lambda>i. f \<le> spec_order (ss ! i)) [0..<length ss] = [length (filter (\<lambda>s. spec_order s < f) ss)..<length ss]"
    using snoc by (simp add: sorted_append)
  have "filter (\<lambda>i. f \<le> spec_order ((ss @ [x]) ! i)) [0..<length ss] = filter (\<lambda>i. f \<le> spec_order (ss ! i)) [0..<length ss]"
    by (auto intro: filter_cong simp: nth_append)
  moreover have "length (filter (\<lambda>s. spec_order s < f) ss) = length ss" if "spec_order x < f"
    using that snoc.prems by (subst filter_True) (auto simp: sorted_append)
  moreover have "length (filter (\<lambda>s. spec_order s < f) ss) \<le> length ss" by simp
  ultimately show ?case using IH by (auto simp: not_less)
qed simp

lemma refs_other: "i \<notin> set is \<Longrightarrow> current_refs (fold apply_result (zip is rs) s) ! i = current_refs s ! i"
proof (induction "is" arbitrary: rs s)
  case (Cons j js)
  then show ?case by (cases rs) (auto simp: apply_result_def split: sum.split)
qed simp

lemma failed_keeps_ref:
  "distinct is \<Longrightarrow> length rs = length is \<Longrightarrow> k < length is \<Longrightarrow> rs ! k = Inl e \<Longrightarrow>
   current_refs (fold apply_result (zip is rs) s) ! (is ! k) = current_refs s ! (is ! k)"
proof (induction "is" arbitrary: rs s k)
  case (Cons j js)
  obtain r rs' where rs: "rs = r # rs'" "length rs' = length js" using Cons.prems(2) by (cases rs) auto
  show ?case
  proof (cases k)
    case 0
    then have "current_refs (apply_result (j, r) s) = current_refs s" using Cons.prems rs by (simp add: apply_result_def)
    then show ?thesis using Cons.prems rs 0 refs_other [of j js rs' "apply_result (j, r) s"] by simp
  next
    case (Suc k')
    then have "js ! k' \<noteq> j" using Cons.prems by auto
    then show ?thesis using Cons.IH [of rs' k' "apply_result (j, r) s"] Cons.prems rs Suc
      by (auto simp: apply_result_def split: sum.split)
  qed
qed simp

lemma nth_upt_drop: "map ((!) xs) [j..<length xs] = drop j xs"
  by (rule nth_equalityI) simp_all

text \<open>C36. What a \<open>RestForOne\<close> restart does to slots in start order. Let \<open>j\<close> be the number of slots whose
  order is smaller than that of the slot with the failed id, and 0 when no slot has it (a child already
  replaced, or abandoned). The first \<open>j\<close> children are left alone, slot and reference. All the others,
  siblings of equal order that started before the failed one included, are restarted: exactly their
  factories run, in start order, and each slot gets the id of the new actor, with its reference, or the
  sentinel where the factory failed, when the old reference stays. So a stale signal restarts every child.\<close>

theorem rest_for_one_suffix:
  assumes ok: "sup_ok s" and sorted: "sorted (map spec_order (slots s))" and cfg: "strategy cfg = RestForOne"
    and r: "apply_strategy tx cfg acfg child (s, env) = Returns (s', env')"
  defines "j \<equiv> (case find_slot child (slots s) of
      None \<Rightarrow> 0 | Some idx \<Rightarrow> length (filter (\<lambda>x. spec_order x < spec_order (slots s ! idx)) (slots s)))"
  shows "\<exists>rs. run_factories tx acfg (drop j (slots s)) env = Returns (rs, env')
    \<and> take j (slots s') = take j (slots s) \<and> take j (current_refs s') = take j (current_refs s)
    \<and> map spec_id (drop j (slots s')) = map (\<lambda>x. case x of Inr r \<Rightarrow> ref_id r | Inl _ \<Rightarrow> DEAD) rs
    \<and> drop j (current_refs s') = map2 (\<lambda>x old. case x of Inr r \<Rightarrow> r | Inl _ \<Rightarrow> old) rs (drop j (current_refs s))
    \<and> (child \<notin> spec_id ` set (slots s) \<longrightarrow> j = 0)"
proof -
  let ?n = "length (slots s)"
  have jn: "j \<le> ?n" by (simp add: j_def split: option.split)
  have set: "restart_set (strategy cfg) child (slots s) = [j..<?n]"
    unfolding cfg restart_set_def RestartStrategy.case restart_suffix [OF sorted]
    by (simp add: failed_order_def j_def split: option.split)
  obtain rs where rs: "run_factories tx acfg (drop j (slots s)) env = Returns (rs, env')" "s' = fold apply_result (zip [j..<?n] rs) s"
    using r unfolding apply_strategy_eq [OF ok] set nth_upt_drop by (auto simp: restarted_def split: outcome.splits)
  have len: "length rs = length [j..<?n]" using run_factories_length [OF rs(1)] by simp
  have "\<forall>i \<in> set [j..<?n]. i < ?n" by simp
  note f = fold_apply_result [OF distinct_upt len this ok, folded rs(2)]
  have refs: "length (current_refs s') = ?n" "length (current_refs s) = ?n" using f(1,2) ok by (simp_all add: sup_ok_def)
  have kept: "current_refs s' ! (j + k) = current_refs s ! (j + k)" if "rs ! k = Inl e" "k < ?n - j" for k e
    using failed_keeps_ref [OF distinct_upt len, of k e s, folded rs(2)] that by simp
  have before: "i < j \<Longrightarrow> slots s' ! i = slots s ! i \<and> current_refs s' ! i = current_refs s ! i" for i using f(3) by simp
  have at: "spec_id (slots s' ! (j + k)) = (case rs ! k of Inr r \<Rightarrow> ref_id r | Inl _ \<Rightarrow> DEAD)"
    "current_refs s' ! (j + k) = (case rs ! k of Inr r \<Rightarrow> r | Inl _ \<Rightarrow> current_refs s ! (j + k))" if "k < ?n - j" for k
    using f(4,5) [of k] kept [of k] that by (auto split: sum.split)
  have "find_slot child (slots s) = None" if "child \<notin> spec_id ` set (slots s)"
    using that by (auto simp: find_slot_def position_None)
  then have "child \<notin> spec_id ` set (slots s) \<longrightarrow> j = 0" by (simp add: j_def)
  moreover have "take j (slots s') = take j (slots s)" "take j (current_refs s') = take j (current_refs s)"
    using before f(2) refs jn by (auto intro!: nth_equalityI)
  moreover have "map spec_id (drop j (slots s')) = map (\<lambda>x. case x of Inr r \<Rightarrow> ref_id r | Inl _ \<Rightarrow> DEAD) rs"
    using at(1) f(2) jn len by (intro nth_equalityI) simp_all
  moreover have "drop j (current_refs s') = map2 (\<lambda>x old. case x of Inr r \<Rightarrow> r | Inl _ \<Rightarrow> old) rs (drop j (current_refs s))"
    using at(2) refs jn len by (intro nth_equalityI) (simp_all split: sum.split)
  ultimately show ?thesis using rs(1) by blast
qed

theorem rest_for_one_suffix_witness:
  "\<exists>s' :: (unit, nat, string) SupTask. let f = demo_spec\<lparr>spec_factory := (\<lambda>_ _ env. Returns (Inr \<lparr>ref_id = 7\<rparr>, env))\<rparr> in
     apply_strategy 0 (SupervisorConfig_default\<lparr>strategy := RestForOne\<rparr>) ActorConfig_default 3
       (demo_task\<lparr>slots := [f, f\<lparr>spec_id := 2, spec_order := 1\<rparr>, demo_spec\<lparr>spec_id := 3, spec_order := 1\<rparr>],
          current_refs := [\<lparr>ref_id = 1\<rparr>, \<lparr>ref_id = 2\<rparr>, \<lparr>ref_id = 3\<rparr>]\<rparr>, demo_env) = Returns (s', demo_env)
     \<and> map spec_id (slots s') = [1, 7, DEAD] \<and> current_refs s' = [\<lparr>ref_id = 1\<rparr>, \<lparr>ref_id = 7\<rparr>, \<lparr>ref_id = 3\<rparr>]"
proof -
  let ?f = "demo_spec\<lparr>spec_factory := (\<lambda>_ _ env. Returns (Inr \<lparr>ref_id = 7\<rparr>, env))\<rparr>"
  let ?s = "demo_task\<lparr>slots := [?f, ?f\<lparr>spec_id := 2, spec_order := 1\<rparr>, demo_spec\<lparr>spec_id := 3, spec_order := 1\<rparr>],
      current_refs := [\<lparr>ref_id = 1\<rparr>, \<lparr>ref_id = 2\<rparr>, \<lparr>ref_id = 3\<rparr>]\<rparr>"
  let ?cfg = "SupervisorConfig_default\<lparr>strategy := RestForOne\<rparr>"
  have ok: "sup_ok ?s" by (auto simp: sup_ok_def demo_spec_def demo_task_def less_Suc_eq)
  have st: "strategy ?cfg = RestForOne" "sorted (map spec_order (slots ?s))" by (simp_all add: demo_spec_def)
  obtain s' where r: "apply_strategy 0 ?cfg ActorConfig_default 3 (?s, demo_env) = Returns (s', demo_env)"
    unfolding apply_strategy_eq [OF ok] by (simp add: restart_set_def failed_order_def find_slot_def demo_spec_def upt_rec restarted_def)
  have j: "(case find_slot 3 (slots ?s) of
      None \<Rightarrow> 0 | Some idx \<Rightarrow> length (filter (\<lambda>x. spec_order x < spec_order (slots ?s ! idx)) (slots ?s))) = 1"
    by (simp add: find_slot_def demo_spec_def)
  from rest_for_one_suffix [OF ok st(2,1) r, unfolded j]
  have "take 1 (slots s') = take 1 (slots ?s)" "take 1 (current_refs s') = take 1 (current_refs ?s)"
    "map spec_id (drop 1 (slots s')) = [7, DEAD]" "drop 1 (current_refs s') = [\<lparr>ref_id = 7\<rparr>, \<lparr>ref_id = 3\<rparr>]"
    by (auto simp: demo_spec_def)
  then have "map spec_id (take 1 (slots s') @ drop 1 (slots s')) = [1, 7, DEAD]"
    "take 1 (current_refs s') @ drop 1 (current_refs s') = [\<lparr>ref_id = 1\<rparr>, \<lparr>ref_id = 7\<rparr>, \<lparr>ref_id = 3\<rparr>]"
    unfolding map_append by (simp_all add: demo_spec_def)
  then show ?thesis using r by (simp add: Let_def)
qed

text \<open>C33. Starting. Children start in the order of their specs, specs of equal order in the order
  given; a successful start leaves a task whose slots are the sorted specs with the ids of the started
  actors, whose references are the handle's initial references, and which is running with an empty
  restart log; otherwise the error is that of the first factory that failed, the later ones did not run,
  and the signal channel is closed.\<close>

theorem start_order:
  "start tx sv env = Returns (res, env') \<Longrightarrow>
   (case res of
      Inl e \<Rightarrow> (\<exists>pre s post rs env1 env2. sort_key spec_order (children sv) = pre @ s # post
        \<and> run_factories tx (sup_actor_config sv) pre (listening tx sv env) = Returns (map Inr rs, env1)
        \<and> spec_factory s tx (sup_actor_config sv) env1 = Returns (Inl e, env2) \<and> env' = drop_signals tx env2)
    | Inr (h, task) \<Rightarrow>
        sorted (map spec_order (slots task)) \<and> mset (map spec_order (slots task)) = mset (map spec_order (children sv))
        \<and> map spec_factory (slots task) = map spec_factory (sort_key spec_order (children sv))
        \<and> map spec_id (slots task) = map ref_id (initial_refs h) \<and> current_refs task = initial_refs h
        \<and> sup_ok task \<and> sup_running task \<and> restart_log task = []
        \<and> run_factories tx (sup_actor_config sv) (sort_key spec_order (children sv)) (listening tx sv env)
              = Returns (map Inr (initial_refs h), env'))"
proof -
  assume st: "start tx sv env = Returns (res, env')"
  let ?ss = "sort_key spec_order (children sv)"
  show ?thesis
  proof (cases res)
    case (Inr x)
    obtain h task where x: "x = (h, task)" by (cases x)
    obtain ss' rs where sr: "start_children tx (sup_actor_config sv) ?ss (listening tx sv env) = Returns (Inr (ss', rs), env')"
      "h = \<lparr>initial_refs = rs\<rparr>" "task = \<lparr>slots = ss', current_refs = rs, restart_log = [], sup_running = True\<rparr>"
      using st Inr x by (auto simp: start_eq split: if_splits outcome.splits sum.splits)
    note f = start_children_ok [OF sr(1)]
    have t: "slots task = ss'" "current_refs task = rs" "restart_log task = []" "sup_running task" "initial_refs h = rs"
      by (simp_all add: sr)
    have ok: "sup_ok task" using started_ok [OF sr(1)] by (simp add: sr(3))
    have ms: "mset (map spec_order ?ss) = mset (map spec_order (children sv))" by (simp only: mset_map mset_sort)
    have eq: "map spec_order ss' = map spec_order ?ss" using f by simp
    have srt: "sorted (map spec_order ss')" "mset (map spec_order ss') = mset (map spec_order (children sv))"
      unfolding eq using ms by simp_all
    show ?thesis unfolding Inr x sum.case prod.case t using f ok srt t(4) by blast
  next
    case (Inl e)
    then obtain env2 where "start_children tx (sup_actor_config sv) ?ss (listening tx sv env) = Returns (Inl e, env2)"
      and env': "env' = drop_signals tx env2"
      using st by (auto simp: start_eq split: if_splits outcome.splits sum.splits)
    from start_children_error [OF this(1)] show ?thesis unfolding Inl sum.case env' by blast
  qed
qed

theorem start_order_witness:
  "\<exists>h task env'. start 0 (Supervisor_new SupervisorConfig_default
      [demo_spec\<lparr>spec_factory := (\<lambda>_ _ env. Returns (Inr \<lparr>ref_id = 7\<rparr>, env))\<rparr>]) demo_env = Returns (Inr (h, task), env')
    \<and> sup_ok task \<and> map spec_id (slots task) = map ref_id (initial_refs h)"
proof -
  let ?sv = "Supervisor_new SupervisorConfig_default
      [demo_spec\<lparr>spec_factory := (\<lambda>_ _ env. Returns (Inr \<lparr>ref_id = 7\<rparr>, env))\<rparr>]"
  obtain h task env' where r: "start 0 ?sv demo_env = Returns (Inr (h, task), env')"
    by (simp add: start_def start_settled_def Supervisor_new_def with_actor_config_def SupervisorConfig_default_def
        channel_def mpsc_capacity_def spec_restart_def)
  from start_order [OF r] r show ?thesis by auto
qed

end
