(* ===== verification/Supervision.thy ===== *)
theory Supervision
  imports Supervisor
begin

text \<open>
  The supervisor of \<open>src/supervisor.rs\<close> together with the runtime of \<open>src/actor.rs\<close>: what a shutdown
  does to the mailboxes of the children and when it has to wait, every way its turn on a signal can go, and
  what a restart by spawning factories leaves behind.
\<close>

section \<open>Stopping\<close>

text \<open>The task after \<open>stop()\<close>: one more \<open>Stop\<close> in an open mailbox.\<close>

definition told_stop :: "('a, 'm) Task \<Rightarrow> ('a, 'm) Task" where
  "told_stop t = (if rx_open (mailbox t) then t\<lparr>mailbox := (mailbox t)\<lparr>queue := queue (mailbox t) @ [Stop]\<rparr>\<rparr> else t)"

definition stop_room :: "('a, 'm) World \<Rightarrow> ActorId \<Rightarrow> bool" where
  "stop_room w i \<longleftrightarrow>
     (case tasks w i of None \<Rightarrow> True
      | Some t \<Rightarrow> rx_open (mailbox t) \<longrightarrow> length (queue (mailbox t)) < cap (mailbox t))"

lemma ref_stop_room:
  assumes "stop_room w (ref_id r)"
  obtains ok where "ref_stop r w = Some (ok, w\<lparr>tasks := (tasks w)(ref_id r := map_option told_stop (tasks w (ref_id r)))\<rparr>)"
proof (cases "tasks w (ref_id r)")
  case None
  then have "(tasks w)(ref_id r := None) = tasks w" by (auto simp: fun_eq_iff)
  then show ?thesis using that [of False] None by (simp add: ref_stop_def ref_tx_send_def)
next
  case (Some t)
  have same: "t\<lparr>mailbox := mailbox t\<rparr> = t" by (cases t) simp
  show ?thesis
    by (rule that [of "rx_open (mailbox t)"], cases "rx_open (mailbox t)")
      (use Some assms same in \<open>simp_all add: ref_stop_def ref_tx_send_def chan_send_def stop_room_def told_stop_def set_task_def\<close>)
qed

lemma stop_room_other: "i \<noteq> j \<Longrightarrow> stop_room (w\<lparr>tasks := (tasks w)(j := x)\<rparr>) i = stop_room w i"
  by (simp add: stop_room_def)

lemma stop_all_room:
  assumes "distinct (map ref_id rs)" and "\<forall>r \<in> set rs. stop_room w (ref_id r)"
  shows "stop_all rs w = Some (w\<lparr>tasks := \<lambda>i. if i \<in> ref_id ` set rs then map_option told_stop (tasks w i) else tasks w i\<rparr>)"
  using assms
proof (induction rs arbitrary: w)
  case (Cons r rs)
  let ?w = "w\<lparr>tasks := (tasks w)(ref_id r := map_option told_stop (tasks w (ref_id r)))\<rparr>"
  obtain ok where st: "ref_stop r w = Some (ok, ?w)" using ref_stop_room [of w r] Cons.prems by auto
  have "\<forall>x \<in> set rs. ref_id x \<noteq> ref_id r" using Cons.prems(1) by (metis distinct.simps(2) image_eqI list.set_map list.simps(9))
  then have "\<forall>x \<in> set rs. stop_room ?w (ref_id x)" using Cons.prems(2) by (simp add: stop_room_other)
  with Cons have "stop_all rs ?w = Some (?w\<lparr>tasks := \<lambda>i. if i \<in> ref_id ` set rs then map_option told_stop (tasks ?w i) else tasks ?w i\<rparr>)"
    by simp
  moreover have "(\<lambda>i. if i \<in> ref_id ` set rs then map_option told_stop (tasks ?w i) else tasks ?w i)
      = (\<lambda>i. if i \<in> ref_id ` set (r # rs) then map_option told_stop (tasks w i) else tasks w i)"
    using Cons.prems(1) by (auto simp: fun_eq_iff)
  ultimately show ?case by (simp add: st)
qed simp

text \<open>Stopping a list of references completes exactly when every open mailbox has room for as many \<open>Stop\<close>
  messages as there are references to it.\<close>

definition fits :: "('a, 'm) World \<Rightarrow> ActorId \<Rightarrow> nat \<Rightarrow> bool" where
  "fits w i n \<longleftrightarrow>
     (case tasks w i of None \<Rightarrow> True
      | Some t \<Rightarrow> rx_open (mailbox t) \<longrightarrow> length (queue (mailbox t)) + n \<le> cap (mailbox t))"

definition stops_fit :: "ActorRef list \<Rightarrow> ('a, 'm) World \<Rightarrow> bool" where
  "stops_fit rs w \<longleftrightarrow> (\<forall>r \<in> set rs. fits w (ref_id r) (count_list (map ref_id rs) (ref_id r)))"

lemma fits_mono: "fits w i n \<Longrightarrow> m \<le> n \<Longrightarrow> fits w i m"
  by (auto simp: fits_def split: option.splits)

lemma fits_told:
  assumes "stop_room w j"
  shows "fits (w\<lparr>tasks := (tasks w)(j := map_option told_stop (tasks w j))\<rparr>) i n = fits w i (n + (if i = j then 1 else 0))"
  using assms by (auto simp: fits_def stop_room_def told_stop_def split: option.splits)

lemma ref_stop_full: "\<not> stop_room w (ref_id r) \<Longrightarrow> ref_stop r w = None"
  by (auto simp: stop_room_def ref_stop_def ref_tx_send_def chan_send_def split: option.splits)

lemma stop_all_fits: "stop_all rs w = None \<longleftrightarrow> \<not> stops_fit rs w"
proof (induction rs arbitrary: w)
  case (Cons r rs)
  let ?ids = "map ref_id rs" and ?i = "ref_id r"
  have one: "fits w ?i 1 = stop_room w ?i" by (auto simp: fits_def stop_room_def Suc_le_eq split: option.split)
  show ?case
  proof (cases "stop_room w ?i")
    case True
    let ?w = "w\<lparr>tasks := (tasks w)(?i := map_option told_stop (tasks w ?i))\<rparr>"
    obtain ok where st: "ref_stop r w = Some (ok, ?w)" using ref_stop_room [OF True] by blast
    have "stops_fit rs ?w \<longleftrightarrow> (\<forall>x \<in> set rs. fits w (ref_id x) (count_list (?i # ?ids) (ref_id x)))"
      unfolding stops_fit_def fits_told [OF True] by (intro ball_cong refl) simp
    also have "\<dots> \<longleftrightarrow> stops_fit (r # rs) w"
    proof (cases "?i \<in> set ?ids")
      case False
      then have "count_list (?i # ?ids) ?i = 1" by (simp add: count_notin)
      then show ?thesis using one True by (simp add: stops_fit_def)
    qed (auto simp: stops_fit_def)
    finally show ?thesis using Cons.IH [of ?w] by (simp add: st)
  next
    case False
    then have "\<not> stops_fit (r # rs) w"
      using one fits_mono [of w ?i "count_list (map ref_id (r # rs)) ?i" 1] by (auto simp: stops_fit_def)
    then show ?thesis using ref_stop_full [OF False] by simp
  qed
qed (simp add: stops_fit_def)

lemma stops_fit_rev: "stops_fit (rev rs) w = stops_fit rs w"
  by (simp add: stops_fit_def rev_map [symmetric])

lemma shut_down_fits: "shut_down tx (s, env) = None \<longleftrightarrow> \<not> stops_fit (current_refs s) (world env)"
  using stop_all_fits [of "rev (current_refs s)" "world env"] by (auto simp: shut_down_def stops_fit_rev split: option.splits)

section \<open>Spawning factories\<close>

text \<open>A factory of \<open>spawn_child_spec\<close>, \<open>ChildSlot::child_spec\<close> or \<open>supervise_actor\<close>: it spawns and notes the
  reference outside the world of actors.\<close>

definition spawns :: "('a, 'm, 'k) ChildSpec \<Rightarrow> bool" where
  "spawns s \<longleftrightarrow> (\<exists>build nt. spec_factory s = spawn_factory build nt \<and> (\<forall>r env. world (nt r env) = world env))"

lemma child_specs_spawn:
  "spawns (fst (spawn_child_spec ordr n reg build env))"
  "spawns (fst (slot_child_spec ordr slot build env))"
  "spawns (fst (child_spec ordr (spawn_factory build (\<lambda>_ env. env)) env))"
  unfolding spawns_def spawn_child_spec_def slot_child_spec_def child_spec_def ActorId_new_def prod.case fst_conv ChildSpec.select_convs
  by (rule exI, rule exI, rule conjI, rule refl, simp)+

text \<open>A task just spawned, reporting to the supervisor channel \<open>tx\<close>.\<close>

definition fresh_child :: "nat \<Rightarrow> ActorConfig \<Rightarrow> ActorId \<Rightarrow> ('a, 'm) World \<Rightarrow> bool" where
  "fresh_child tx acfg i w \<longleftrightarrow>
     (\<exists>t. tasks w i = Some t \<and> status t = Running \<and> pc t = [APreStart] \<and> config t = acfg \<and> queue (mailbox t) = []
       \<and> cap (mailbox t) = mailbox_capacity acfg) \<and> get_supervisor_sender i (actors w) = Some tx"

lemma spawn_factory_fresh:
  assumes inv: "world_inv (world env)" and c: "counter (world env) \<noteq> 0" and m: "0 < mailbox_capacity acfg" and sp: "spawns s"
  obtains env' where "spec_factory s tx acfg env = Returns (Inr \<lparr>ref_id = counter (world env)\<rparr>, env')"
    "world_inv (world env')" "counter (world env') = counter (world env) + 1"
    "fresh_child tx acfg (counter (world env)) (world env')"
    "\<forall>i. i \<noteq> counter (world env) \<longrightarrow> tasks (world env') i = tasks (world env) i
       \<and> get_supervisor_sender i (actors (world env')) = get_supervisor_sender i (actors (world env))"
proof -
  obtain build nt where f: "spec_factory s = spawn_factory build nt" "\<forall>r env. world (nt r env) = world env"
    using sp by (auto simp: spawns_def)
  obtain w' where w': "spawn_on_runtime build (Some tx) acfg (world env) = Returns (\<lparr>ref_id = counter (world env)\<rparr>, w')"
    using m by (simp add: spawning mpsc_capacity_def)
  have w'_eq: "w' = set_task (counter (world env)) (new_task (into_dyn_actor build) acfg
      \<lparr>cap = mailbox_capacity acfg, queue = [], rx_open = True\<rparr> \<lparr>cap = mailbox_capacity acfg, queue = [], rx_open = True\<rparr>)
      ((world env)\<lparr>counter := counter (world env) + 1,
        actors := register_actor (counter (world env)) (counter (world env)) (Some tx) (actors (world env)),
        cells := mon_register (counter (world env)) (cells (world env))\<rparr>)"
    using w' m by (simp add: spawn_on_runtime_def ActorId_new_def channel_def mpsc_capacity_def)
  let ?env = "nt \<lparr>ref_id = counter (world env)\<rparr> (env\<lparr>world := w'\<rparr>)"
  have we: "world ?env = w'" using f(2) by simp
  have "spec_factory s tx acfg env = Returns (Inr \<lparr>ref_id = counter (world env)\<rparr>, ?env)"
    using f(1) w' by (simp add: spawn_factory_def)
  moreover have "world_inv w'" by (rule spawn_inv [OF inv c w'])
  moreover have "get_supervisor_sender i (actors w')
      = (if i = counter (world env) then Some tx else get_supervisor_sender i (actors (world env)))" for i
    using world_invD(1) [OF inv]
    by (simp add: w'_eq set_task_def get_supervisor_sender_def register_actor_def hm.get_insert)
  ultimately show ?thesis using that [of ?env] unfolding we
    by (simp add: w'_eq fresh_child_def set_task_def new_task_def)
qed

lemma run_factories_fresh:
  assumes "world_inv (world env)" and "counter (world env) \<noteq> 0" and "0 < mailbox_capacity acfg"
    and "\<forall>s \<in> set ss. spawns s" and "unat (counter (world env)) + length ss < 2 ^ 64"
  shows "\<exists>env'. run_factories tx acfg ss env
      = Returns (map (\<lambda>k. Inr \<lparr>ref_id = counter (world env) + of_nat k\<rparr>) [0..<length ss], env')
    \<and> world_inv (world env')
    \<and> (\<forall>k < length ss. fresh_child tx acfg (counter (world env) + of_nat k) (world env'))
    \<and> (\<forall>i < counter (world env). tasks (world env') i = tasks (world env) i
       \<and> get_supervisor_sender i (actors (world env')) = get_supervisor_sender i (actors (world env)))"
  using assms
proof (induction ss arbitrary: env)
  case (Cons s ss)
  let ?c = "counter (world env)"
  obtain env1 where e1: "spec_factory s tx acfg env = Returns (Inr \<lparr>ref_id = ?c\<rparr>, env1)"
    "world_inv (world env1)" "counter (world env1) = ?c + 1" "fresh_child tx acfg ?c (world env1)"
    "\<forall>i. i \<noteq> ?c \<longrightarrow> tasks (world env1) i = tasks (world env) i
       \<and> get_supervisor_sender i (actors (world env1)) = get_supervisor_sender i (actors (world env))"
    using spawn_factory_fresh [of env acfg s tx] Cons.prems by auto
  have un: "unat (?c + 1) = unat ?c + 1" using Cons.prems(5) by (simp add: unat_word_ariths)
  then have nz: "?c + 1 \<noteq> 0" by (metis add_is_0 one_neq_zero unat_0)
  have lt: "?c < ?c + 1" using un by (simp add: word_less_nat_alt)
  obtain env2 where e2: "run_factories tx acfg ss env1
      = Returns (map (\<lambda>k. Inr \<lparr>ref_id = ?c + 1 + of_nat k\<rparr>) [0..<length ss], env2)"
    "world_inv (world env2)" "\<forall>k < length ss. fresh_child tx acfg (?c + 1 + of_nat k) (world env2)"
    "\<forall>i < ?c + 1. tasks (world env2) i = tasks (world env1) i
       \<and> get_supervisor_sender i (actors (world env2)) = get_supervisor_sender i (actors (world env1))"
    using Cons.IH [of env1] Cons.prems e1(2,3) un nz by auto
  have ids: "map (\<lambda>k. Inr \<lparr>ref_id = ?c + of_nat k\<rparr>) [0..<length (s # ss)]
      = Inr \<lparr>ref_id = ?c\<rparr> # map (\<lambda>k. Inr \<lparr>ref_id = ?c + 1 + of_nat k\<rparr>) [0..<length ss]"
    by (simp add: upt_conv_Cons map_Suc_upt [symmetric] add.assoc del: upt_Suc)
  have "fresh_child tx acfg ?c (world env2)" using e1(4) e2(4) lt by (simp add: fresh_child_def)
  then have "fresh_child tx acfg (?c + of_nat k) (world env2)" if "k < length (s # ss)" for k
    using that e2(3) by (cases k) (auto simp: add.assoc)
  moreover have "run_factories tx acfg (s # ss) env = Returns (map (\<lambda>k. Inr \<lparr>ref_id = ?c + of_nat k\<rparr>) [0..<length (s # ss)], env2)"
    unfolding ids by (simp add: e1(1) e2(1))
  moreover have "tasks (world env2) i = tasks (world env) i
      \<and> get_supervisor_sender i (actors (world env2)) = get_supervisor_sender i (actors (world env))" if "i < ?c" for i
  proof -
    have "i \<noteq> ?c" "i < ?c + 1" using that lt order.strict_trans by auto
    then show ?thesis using e1(5) e2(4) by simp
  qed
  ultimately show ?case using e2(2) by blast
qed auto

section \<open>The supervisor task keeps its shape\<close>

text \<open>What no restart changes of the slots.\<close>

definition shape :: "('a, 'm, 'k) SupTask \<Rightarrow> (nat \<times> ('a, 'm, 'k) factory) list" where
  "shape s = map (\<lambda>x. (spec_order x, spec_factory x)) (slots s)"

lemma set_id_shape: "map (\<lambda>x. (spec_order x, spec_factory x)) (ss[i := set_id d (ss ! i)]) = map (\<lambda>x. (spec_order x, spec_factory x)) ss"
  by (cases "i < length ss") (simp_all add: set_id_def map_update list_update_same_conv list_update_beyond)

lemma apply_results_ok:
  "sup_ok s \<Longrightarrow> sup_ok (fold apply_result ps s) \<and> shape (fold apply_result ps s) = shape s"
proof (induction ps arbitrary: s)
  case (Cons p ps)
  have "shape (apply_result p s) = shape s"
    by (simp add: shape_def apply_result_def set_id_shape split: sum.split)
  then show ?case using Cons.IH [OF apply_result_ok [OF Cons.prems]] by simp
qed simp

lemma apply_strategy_ok:
  assumes "sup_ok s" and "apply_strategy tx cfg acfg child (s, env) = Returns (s', env')"
  shows "sup_ok s' \<and> shape s' = shape s"
  using assms apply_results_ok [OF assms(1)] by (auto simp: apply_strategy_eq restarted_def split: outcome.splits)

lemma abandon_ok: "sup_ok s \<Longrightarrow> sup_ok (abandon i s) \<and> shape (abandon i s) = shape s"
proof (cases "find_slot i (slots s)")
  case (Some idx)
  then have "abandon i s = fold apply_result [(idx, Inl [])] s" by (simp add: abandon_def apply_result_def)
  then show "sup_ok s \<Longrightarrow> ?thesis" using apply_results_ok [of s "[(idx, Inl [])]"] by simp
qed (simp add: abandon_def)

lemma sup_ok_log [simp]: "sup_ok (s\<lparr>restart_log := l\<rparr>) = sup_ok s" "sup_ok (s\<lparr>sup_running := b\<rparr>) = sup_ok s"
  by (simp_all add: sup_ok_def)

lemma shape_log [simp]: "shape (s\<lparr>restart_log := l\<rparr>) = shape s" "shape (s\<lparr>sup_running := b\<rparr>) = shape s"
  by (simp_all add: shape_def)

lemma sup_turn_ok:
  assumes ok: "sup_ok (fst st)" and turn: "sup_turn tx cfg acfg e st = Some st'"
  shows "sup_ok (fst st') \<and> shape (fst st') = shape (fst st)"
proof -
  obtain s env where st: "st = (s, env)" by (cases st)
  have down: "shut_down tx (s1, env1) = Some st1 \<Longrightarrow> sup_ok s1 \<Longrightarrow> sup_ok (fst st1) \<and> shape (fst st1) = shape s1" for s1 env1 st1
    by (auto simp: shut_down_def split: option.splits)
  have signal: "on_signal tx cfg acfg now sig (s, env) = Returns (Some st') \<Longrightarrow> ?thesis" for now sig
    using ok down abandon_ok [of "s\<lparr>restart_log := l\<rparr>" for l] apply_strategy_ok [of "s\<lparr>restart_log := l\<rparr>" for l]
    unfolding st by (cases st') (fastforce simp: on_signal_def Let_def split: outcome.splits if_splits IntensityAction.splits)
  show ?thesis
  proof (cases e)
    case ShutdownRequest
    then show ?thesis using turn ok down [of s env st'] by (auto simp: sup_turn_def st split: if_splits)
  next
    case (Signal now sig)
    then show ?thesis using turn ok signal by (auto simp: sup_turn_def st split: if_splits outcome.splits)
  qed
qed

interpretation sup_sys: conserving "\<lambda>st st'. \<exists>e. sup_turn tx cfg acfg e st = Some st'" "\<lambda>st. sup_ok (fst st)" "\<lambda>st. shape (fst st)"
  for tx cfg acfg
  by unfold_locales (auto dest: sup_turn_ok)

lemma sup_run_steps:
  "sup_run tx cfg acfg es st = Some st' \<Longrightarrow> (\<lambda>st st'. \<exists>e. sup_turn tx cfg acfg e st = Some st')\<^sup>*\<^sup>* st st'"
proof (induction es arbitrary: st)
  case (Cons e es)
  then show ?case
    by (auto simp: bind_eq_Some_conv intro: converse_rtranclp_into_rtranclp)
qed simp

lemma run_factories_returns:
  "\<forall>f \<in> set (map spec_factory ss). \<forall>env e. f tx acfg env \<noteq> Panics e \<Longrightarrow> \<exists>r. run_factories tx acfg ss env = Returns r"
proof (induction ss arbitrary: env)
  case (Cons s ss)
  obtain r env' where "spec_factory s tx acfg env = Returns (r, env')"
    using Cons.prems by (cases "spec_factory s tx acfg env") auto
  then show ?case using Cons.IH [of env'] Cons.prems by auto
qed simp

lemma strategy_returns:
  assumes ok: "sup_ok s" and f: "\<forall>f \<in> set (map spec_factory (slots s)). \<forall>env e. f tx acfg env \<noteq> Panics e"
  obtains st' where "apply_strategy tx cfg acfg child (s\<lparr>restart_log := log\<rparr>, env) = Returns st'" "restart_log (fst st') = log"
    "sup_running (fst st') = sup_running s"
proof -
  let ?s = "s\<lparr>restart_log := log\<rparr>"
  let ?rset = "restart_set (strategy cfg) child (slots s)"
  have r: "set (map ((!) (slots s)) ?rset) \<subseteq> set (slots s)" using restart_set_props(2) by fastforce
  then have "\<forall>f \<in> set (map spec_factory (map ((!) (slots s)) ?rset)). \<forall>env e. f tx acfg env \<noteq> Panics e" using f by auto
  from run_factories_returns [OF this, of env] obtain rs env' where
    e: "run_factories tx acfg (map ((!) (slots s)) ?rset) env = Returns (rs, env')" by auto
  let ?s' = "fold apply_result (zip ?rset rs) ?s"
  have keep: "restart_log (fold apply_result ps u) = restart_log u \<and> sup_running (fold apply_result ps u) = sup_running u" for ps u
    by (induction ps arbitrary: u) (auto simp: apply_result_def split: sum.split)
  have "apply_strategy tx cfg acfg child (?s, env) = Returns (?s', env')"
    using ok e by (simp add: apply_strategy_eq restarted_def)
  from that [OF this] show thesis using keep [of "zip ?rset rs" ?s] by simp
qed

text \<open>Every way a turn on a signal can go: \<open>log\<close> is the window with the signal in it, \<open>r\<close> the state after
  the turn, or \<open>None\<close> when it waits.\<close>

definition processed ::
  "nat \<Rightarrow> SupervisorConfig \<Rightarrow> ActorConfig \<Rightarrow> RestartSignal \<Rightarrow> int list \<Rightarrow> ('a, 'm, 'k) SupTask \<Rightarrow> ('a, 'm, 'k) Env
     \<Rightarrow> ('a, 'm, 'k) sup_state option \<Rightarrow> bool" where
  "processed tx cfg acfg sig log s env r \<longleftrightarrow>
     (case r of
         None \<Rightarrow> max_restarts cfg < length log \<and> intensity_action cfg = ShutdownSupervisor \<and> \<not> stops_fit (current_refs s) (world env)
       | Some (s', env') \<Rightarrow> restart_log s' = log
           \<and> (if length log \<le> max_restarts cfg
              then sup_running s' \<and> apply_strategy tx cfg acfg (child_id sig) (s\<lparr>restart_log := log\<rparr>, env) = Returns (s', env')
              else case intensity_action cfg of
                     AbandonChild \<Rightarrow> sup_running s' \<and> s' = abandon (child_id sig) (s\<lparr>restart_log := log\<rparr>) \<and> env' = env
                   | ShutdownSupervisor \<Rightarrow> \<not> sup_running s' \<and> stops_fit (current_refs s) (world env)))"

lemma signal_turn:
  fixes s :: "('a, 'm, 'k) SupTask"
  assumes ok: "sup_ok s" and c: "instant_sub now (within_secs cfg) = Returns c" and run: "sup_running s"
    and f: "\<forall>f \<in> set (map spec_factory (slots s)). \<forall>env e. f tx acfg env \<noteq> Panics e"
  defines "log \<equiv> log_signal c now (restart_log s)"
  shows "\<exists>r. on_signal tx cfg acfg now sig (s, env) = Returns r \<and> sup_turn tx cfg acfg (Signal now sig) (s, env) = r
    \<and> processed tx cfg acfg sig log s env r"
proof (cases "length log \<le> max_restarts cfg")
  case True
  obtain st' where "apply_strategy tx cfg acfg (child_id sig) (s\<lparr>restart_log := log\<rparr>, env) = Returns st'" "restart_log (fst st') = log"
    "sup_running (fst st') = sup_running s"
    by (rule strategy_returns [OF ok f])
  then show ?thesis using True run c by (cases st') (simp add: processed_def on_signal_def sup_turn_def log_def [symmetric])
next
  case False
  have keep: "restart_log (abandon i u) = restart_log u \<and> sup_running (abandon i u) = sup_running u" for i and u :: "('a, 'm, 'k) SupTask"
    by (auto simp: abandon_def split: option.split)
  show ?thesis
  proof (cases "intensity_action cfg")
    case AbandonChild
    then show ?thesis using False run c keep by (simp add: processed_def on_signal_def sup_turn_def log_def [symmetric])
  next
    case ShutdownSupervisor
    let ?r = "shut_down tx (s\<lparr>restart_log := log\<rparr>, env)"
    have "?r = Some (s', env') \<Longrightarrow> restart_log s' = log \<and> \<not> sup_running s'" for s' env'
      by (auto simp: shut_down_def split: option.splits)
    moreover have "?r = None \<longleftrightarrow> \<not> stops_fit (current_refs s) (world env)" using shut_down_fits [of tx "s\<lparr>restart_log := log\<rparr>"] by simp
    ultimately show ?thesis using ShutdownSupervisor False run c
      by (intro exI [of _ ?r]) (auto simp: processed_def on_signal_def sup_turn_def log_def [symmetric] split: option.split)
  qed
qed

section \<open>Properties\<close>

text \<open>C32. Shutdown. Stopping a supervisor whose children are different actors with room in their mailboxes
  completes: every current
  child that still has an open mailbox gets exactly one \<open>Stop\<close> behind what was queued, nothing else in
  the world of actors changes but the signal channel, which is closed, and the task ends; a breach of the
  restart intensity does the same. Stopping it again changes nothing.\<close>

theorem shutdown_stops_children:
  fixes tx :: nat
  assumes "distinct (map ref_id (current_refs s))" and "\<forall>r \<in> set (current_refs s). stop_room (world env) (ref_id r)"
    and "sup_running s"
  defines "env' \<equiv> drop_signals tx (env\<lparr>world := (world env)\<lparr>tasks :=
     \<lambda>i. if i \<in> ref_id ` set (current_refs s) then map_option told_stop (tasks (world env) i) else tasks (world env) i\<rparr>\<rparr>)"
  shows "handle_stop tx cfg acfg (s, env) = Some (s\<lparr>sup_running := False\<rparr>, env')
    \<and> shut_down tx (s, env) = Some (s\<lparr>sup_running := False\<rparr>, env')
    \<and> handle_stop tx cfg acfg (s\<lparr>sup_running := False\<rparr>, env') = Some (s\<lparr>sup_running := False\<rparr>, env')"
  using assms stop_all_room [of "rev (current_refs s)" "world env"]
  by (simp add: handle_stop_def sup_turn_def shut_down_def rev_map [symmetric])

definition demo_supervised :: "(unit, nat, string) Env" where
  "demo_supervised = demo_env\<lparr>world := demo_world\<rparr>"

theorem shutdown_stops_children_witness:
  "\<exists>env'. handle_stop 0 SupervisorConfig_default ActorConfig_default (demo_task\<lparr>current_refs := [\<lparr>ref_id = 1\<rparr>]\<rparr>, demo_supervised)
      = Some (demo_task\<lparr>current_refs := [\<lparr>ref_id = 1\<rparr>], sup_running := False\<rparr>, env')
    \<and> (\<exists>t. tasks (world env') 1 = Some t \<and> queue (mailbox t) = [Stop])"
proof -
  let ?s = "demo_task\<lparr>current_refs := [\<lparr>ref_id = 1\<rparr>]\<rparr>"
  obtain t where t: "tasks (world demo_supervised) 1 = Some t" "rx_open (mailbox t)" "queue (mailbox t) = []" "cap (mailbox t) = 64"
    using demo_world_task by (simp add: demo_supervised_def new_task_def)
  have "distinct (map ref_id (current_refs ?s))" "\<forall>r \<in> set (current_refs ?s). stop_room (world demo_supervised) (ref_id r)"
    "sup_running ?s"
    using t by (simp_all add: stop_room_def demo_task_def)
  from shutdown_stops_children [OF this] show ?thesis using t by (simp add: told_stop_def drop_signals_def)
qed

text \<open>C11. A restart replaces and does not stop. When every child is built by a spawning factory, a
  strategy always succeeds: the slots of its restart set get consecutive new ids, each the id of a
  running task with an empty mailbox that has yet to run \<open>pre_start\<close> and reports to this supervisor;
  every task that existed before is exactly as it was, so a sibling that \<open>OneForAll\<close> or \<open>RestForOne\<close>
  replaces is not stopped: it goes on beside its successor while any reference to it is left.\<close>

theorem restart_spawns_beside:
  fixes cfg :: SupervisorConfig and child :: ActorId
  assumes ok: "sup_ok s" and inv: "world_inv (world env)" and c: "counter (world env) \<noteq> 0" and m: "0 < mailbox_capacity acfg"
    and sp: "\<forall>x \<in> set (slots s). spawns x" and room: "unat (counter (world env)) + length (slots s) < 2 ^ 64"
  defines "rset \<equiv> restart_set (strategy cfg) child (slots s)"
  shows "\<exists>s' env'. apply_strategy tx cfg acfg child (s, env) = Returns (s', env')
    \<and> (\<forall>k < length rset. let i = counter (world env) + of_nat k in
         spec_id (slots s' ! (rset ! k)) = i \<and> current_refs s' ! (rset ! k) = \<lparr>ref_id = i\<rparr>
         \<and> tasks (world env) i = None \<and> fresh_child tx acfg i (world env'))
    \<and> (\<forall>i t. tasks (world env) i = Some t \<longrightarrow> tasks (world env') i = Some t)"
proof -
  have d: "distinct rset" "\<forall>i \<in> set rset. i < length (slots s)"
    unfolding rset_def using restart_set_props by auto
  then have card: "length rset \<le> length (slots s)"
    by (metis atLeastLessThan_iff card_atLeastLessThan card_mono diff_zero distinct_card finite_atLeastLessThan le0 subsetI)
  let ?c = "counter (world env)"
  let ?rs = "map (\<lambda>k. Inr \<lparr>ref_id = ?c + of_nat k\<rparr>) [0..<length rset]"
  have "\<forall>x \<in> set (map ((!) (slots s)) rset). spawns x" using sp d(2) by auto
  from run_factories_fresh [OF inv c m this, of tx] obtain env' where
    e: "run_factories tx acfg (map ((!) (slots s)) rset) env = Returns (?rs, env')"
    "\<forall>k < length rset. fresh_child tx acfg (?c + of_nat k) (world env')"
    "\<forall>i < ?c. tasks (world env') i = tasks (world env) i"
    using room card by auto
  let ?s = "fold apply_result (zip rset ?rs) s"
  have r: "apply_strategy tx cfg acfg child (s, env) = Returns (?s, env')"
    unfolding apply_strategy_eq [OF ok] rset_def [symmetric] e(1) by (simp add: restarted_def)
  have len: "length ?rs = length rset" by simp
  note f = fold_apply_result [OF d(1) len d(2) ok]
  have old: "i < ?c" if "tasks (world env) i \<noteq> None" for i using world_invD(3) [OF inv that c] .
  have "tasks (world env) (?c + of_nat k) = None" if "k < length rset" for k
  proof -
    have "unat (?c + of_nat k) = unat ?c + k" using that room card by (simp add: unat_word_ariths unat_of_nat)
    then have "\<not> ?c + of_nat k < ?c" by (simp add: word_less_nat_alt)
    then show ?thesis using old by blast
  qed
  then show ?thesis using r e(2,3) old f(4,5) by (intro exI [of _ ?s] exI [of _ env']) (auto simp: Let_def)
qed

definition demo_child :: "(unit, nat, string) ChildSpec" where
  "demo_child = \<lparr>spec_id = 1, spec_order = 0, spec_factory = spawn_factory (actor_defaults ()) (\<lambda>_ env. env)\<rparr>"

theorem restart_spawns_beside_witness:
  "\<exists>s' env'. apply_strategy 0 (SupervisorConfig_default\<lparr>strategy := OneForAll\<rparr>) ActorConfig_default 9
      (demo_task\<lparr>slots := [demo_child], current_refs := [\<lparr>ref_id = 1\<rparr>]\<rparr>, demo_supervised) = Returns (s', env')
    \<and> spec_id (slots s' ! 0) = 2 \<and> fresh_child 0 ActorConfig_default 2 (world env')
    \<and> tasks (world env') 1 = tasks (world demo_supervised) 1"
proof -
  let ?s = "demo_task\<lparr>slots := [demo_child], current_refs := [\<lparr>ref_id = 1\<rparr>]\<rparr>" and ?w = "world demo_supervised"
  have inv: "world_inv ?w" "counter ?w = 2"
    using areach_world_inv [OF demo_world_reach, simplified]
    by (simp_all add: demo_supervised_def demo_world_def spawning world_new_def)
  obtain t where t: "tasks ?w 1 = Some t" using demo_world_task by (auto simp: demo_supervised_def)
  have ok: "sup_ok ?s" by (simp add: sup_ok_def demo_child_def)
  have sp: "\<forall>x \<in> set (slots ?s). spawns x" by (auto simp: demo_child_def spawns_def)
  have side: "counter ?w \<noteq> 0" "0 < mailbox_capacity ActorConfig_default" "unat (counter ?w) + length (slots ?s) < 2 ^ 64"
    by (simp_all add: inv(2) ActorConfig_default_def)
  have rs: "restart_set (strategy (SupervisorConfig_default\<lparr>strategy := OneForAll\<rparr>)) 9 (slots ?s) = [0]"
    by (simp add: restart_set_def)
  from restart_spawns_beside [OF ok inv(1) side(1,2) sp side(3), where cfg = "SupervisorConfig_default\<lparr>strategy := OneForAll\<rparr>" and child = 9
      and tx = 0, unfolded rs] t
  show ?thesis by (auto simp: Let_def inv(2) simp del: SupTask.simps)
qed

text \<open>C4. A started supervisor keeps its shape, never panics by itself and processes every signal. After every
  run of its task the slots are the specs it was started with, in the same order and with the same
  factories, slots and references are parallel, and every slot has the id of its reference or the sentinel.
  Unless a factory panics or the restart window reaches before the clock's range, a supervisor that still
  runs completes its turn on the next signal: it logs it, and as long as the window allows it applies its
  strategy and goes on; on a breach it goes on without the child, or stops. The one turn that does not
  complete is the shutdown of a breach while the open mailbox of a child has no room for its \<open>Stop\<close>.\<close>

theorem supervisor_never_panics:
  assumes st: "start tx sv env = Returns (Inr (h, task), env0)"
    and run: "sup_run tx (sup_config sv) (sup_actor_config sv) es (task, env0) = Some (s, env1)"
  shows "sup_ok s \<and> map spec_order (slots s) = map spec_order (sort_key spec_order (children sv))
    \<and> map spec_factory (slots s) = map spec_factory (sort_key spec_order (children sv))
    \<and> ((\<forall>x \<in> set (children sv). \<forall>env e. spec_factory x tx (sup_actor_config sv) env \<noteq> Panics e) \<longrightarrow> sup_running s \<longrightarrow>
        (\<forall>now c sig. instant_sub now (within_secs (sup_config sv)) = Returns c \<longrightarrow>
          (\<exists>r. on_signal tx (sup_config sv) (sup_actor_config sv) now sig (s, env1) = Returns r
            \<and> sup_turn tx (sup_config sv) (sup_actor_config sv) (Signal now sig) (s, env1) = r
            \<and> processed tx (sup_config sv) (sup_actor_config sv) sig (log_signal c now (restart_log s)) s env1 r)))"
proof -
  let ?ss = "sort_key spec_order (children sv)"
  obtain ss' rs where sr: "start_children tx (sup_actor_config sv) ?ss (listening tx sv env) = Returns (Inr (ss', rs), env0)"
    "task = \<lparr>slots = ss', current_refs = rs, restart_log = [], sup_running = True\<rparr>"
    using st by (auto simp: start_eq split: if_splits outcome.splits sum.splits)
  note f = start_children_ok [OF sr(1)]
  have ok0: "sup_ok task" using started_ok [OF sr(1)] by (simp add: sr(2))
  note steps = sup_run_steps [OF run]
  have ok: "sup_ok s" using sup_sys.steps_inv [OF steps] ok0 by simp
  have sh: "shape s = shape task" using sup_sys.steps_quantity [OF steps] ok0 by simp
  have "map fst (shape s) = map spec_order ss'" "map snd (shape s) = map spec_factory ss'"
    unfolding sh by (simp_all add: shape_def sr(2) comp_def)
  then have o: "map spec_order (slots s) = map spec_order ?ss" "map spec_factory (slots s) = map spec_factory ?ss"
    using f by (simp_all add: shape_def comp_def)
  show ?thesis
  proof (intro conjI impI allI)
    fix now c sig
    assume p: "\<forall>x \<in> set (children sv). \<forall>env e. spec_factory x tx (sup_actor_config sv) env \<noteq> Panics e"
      and r: "sup_running s" and c: "instant_sub now (within_secs (sup_config sv)) = Returns c"
    have fs: "set (map spec_factory (slots s)) = spec_factory ` set (children sv)" by (simp add: o(2))
    have np: "\<forall>f \<in> set (map spec_factory (slots s)). \<forall>env e. f tx (sup_actor_config sv) env \<noteq> Panics e"
      unfolding fs using p by simp
    show "\<exists>r. on_signal tx (sup_config sv) (sup_actor_config sv) now sig (s, env1) = Returns r
        \<and> sup_turn tx (sup_config sv) (sup_actor_config sv) (Signal now sig) (s, env1) = r
        \<and> processed tx (sup_config sv) (sup_actor_config sv) sig (log_signal c now (restart_log s)) s env1 r"
      by (rule signal_turn [OF ok c r np])
  qed (fact ok, fact o(1), fact o(2))
qed

text \<open>A supervisor of one child that fails once: its turn is completed, and it goes on.\<close>

theorem supervisor_never_panics_witness:
  "\<exists>h (task :: (unit, nat, string) SupTask) env0 s' env'.
     start 0 (Supervisor_new SupervisorConfig_default [demo_spec\<lparr>spec_factory := (\<lambda>_ _ env. Returns (Inr \<lparr>ref_id = 7\<rparr>, env))\<rparr>]) demo_env
       = Returns (Inr (h, task), env0)
     \<and> sup_turn 0 SupervisorConfig_default ActorConfig_default (Signal 5 \<lparr>child_id = 7, sig_reason = ''x''\<rparr>) (task, env0) = Some (s', env')
     \<and> sup_running s' \<and> restart_log s' = [5]"
proof -
  let ?sv = "Supervisor_new SupervisorConfig_default
      [demo_spec\<lparr>spec_factory := (\<lambda>_ _ env. Returns (Inr \<lparr>ref_id = 7\<rparr>, env))\<rparr>]"
  let ?sig = "\<lparr>child_id = 7, sig_reason = ''x''\<rparr>"
  obtain h task env0 where r: "start 0 ?sv demo_env = Returns (Inr (h, task), env0)" "sup_running task" "restart_log task = []"
    by (simp add: start_def start_settled_def Supervisor_new_def with_actor_config_def SupervisorConfig_default_def
        channel_def mpsc_capacity_def spec_restart_def)
  have cfg: "sup_config ?sv = SupervisorConfig_default" "sup_actor_config ?sv = ActorConfig_default"
    "\<forall>x \<in> set (children ?sv). \<forall>env e. spec_factory x 0 ActorConfig_default env \<noteq> Panics e"
    by (simp_all add: Supervisor_new_def with_actor_config_def)
  have c: "instant_sub 5 (within_secs SupervisorConfig_default) = Returns (5 - 10 * 1000000000)"
    by (simp add: instant_sub_def SupervisorConfig_default_def secs_def Let_def)
  have run: "sup_run 0 (sup_config ?sv) (sup_actor_config ?sv) [] (task, env0) = Some (task, env0)" by simp
  obtain x where x: "sup_turn 0 SupervisorConfig_default ActorConfig_default (Signal 5 ?sig) (task, env0) = x"
    "processed 0 SupervisorConfig_default ActorConfig_default ?sig (log_signal (5 - 10 * 1000000000) 5 (restart_log task)) task env0 x"
    using supervisor_never_panics [OF r(1) run, unfolded cfg(1,2)] cfg(3) c r(2) by blast
  then have "\<exists>s' env'. x = Some (s', env') \<and> sup_running s' \<and> restart_log s' = [5]"
    by (auto simp: processed_def r(3) log_signal_def SupervisorConfig_default_def split: option.splits)
  with r x(1) show ?thesis by blast
qed

end
