(* ===== verification/Float_Ops.thy ===== *)
theory Float_Ops
  imports Prelude
begin

text \<open>
  The floating-point operations the example programs use. HOL has no \<open>f64\<close>, so its values are a type
  parameter \<open>'f\<close> and its operations a record; nothing is assumed of them.
\<close>

record 'f float_ops =
  fadd :: "'f \<Rightarrow> 'f \<Rightarrow> 'f"
  fsub :: "'f \<Rightarrow> 'f \<Rightarrow> 'f"
  fmul :: "'f \<Rightarrow> 'f \<Rightarrow> 'f"
  fdiv :: "'f \<Rightarrow> 'f \<Rightarrow> 'f"
  is_zero :: "'f \<Rightarrow> bool"                       \<comment> \<open>\<open>b == 0.0\<close>\<close>
  show_float :: "'f \<Rightarrow> string"                  \<comment> \<open>\<open>Display\<close>\<close>

text \<open>Integer arithmetic, for the witnesses.\<close>

definition int_ops :: "int float_ops" where
  "int_ops = \<lparr>fadd = (+), fsub = (-), fmul = (*), fdiv = (div), is_zero = (\<lambda>b. b = 0),
     show_float = (\<lambda>i. if i < 0 then CHR ''-'' # show_nat (nat (- i)) else show_nat (nat i))\<rparr>"

end
