(* ===== verification/Journal.thy ===== *)
theory Journal
  imports Supervision Float_Ops
begin

text \<open>
  \<open>examples/recoverable_timer_calc.rs\<close>: a supervised calculator whose operations are journaled, so that
  an instance started after a panic recovers the last result. The journal lives in an \<open>Arc<Mutex<_>>\<close>
  that every instance shares; it is the field \<open>journal\<close> of the state, carried from one instance to the
  next. Reply channels are numbers; \<open>replies\<close> records what was sent on them. Shown: what a calculator
  that panics and restarts any number of times knows and answers, and how a panic runs through the
  runtime.
\<close>

section \<open>The journal\<close>

datatype 'f OpKind = Add 'f 'f | Sub 'f 'f | Mul 'f 'f | Div 'f 'f

fun label :: "'f OpKind \<Rightarrow> string" where
  "label (Add _ _) = ''add''"
| "label (Sub _ _) = ''sub''"
| "label (Mul _ _) = ''mul''"
| "label (Div _ _) = ''div''"

fun operands :: "'f OpKind \<Rightarrow> 'f \<times> 'f" where
  "operands (Add a b) = (a, b)"
| "operands (Sub a b) = (a, b)"
| "operands (Mul a b) = (a, b)"
| "operands (Div a b) = (a, b)"

datatype 'f OpStatus = Pending | Ok 'f

record 'f JournalEntry =
  entry_kind :: "'f OpKind"
  entry_status :: "'f OpStatus"

record 'f OpJournal =
  ops :: "(u64, 'f JournalEntry) hashmap"
  next_id :: u64

definition OpJournal_default :: "'f OpJournal" where
  "OpJournal_default = \<lparr>ops = [], next_id = 0\<rparr>"

text \<open>\<open>next_id += 1\<close> overflows after 2^64 operations, written as the wrap of a release build.\<close>

definition start_op :: "'f OpKind \<Rightarrow> 'f OpJournal \<Rightarrow> u64 \<times> 'f OpJournal" where
  "start_op k j =
     (next_id j,
      \<lparr>ops = hm_insert (next_id j) \<lparr>entry_kind = k, entry_status = Pending\<rparr> (ops j), next_id = next_id j + 1\<rparr>)"

definition complete_op :: "u64 \<Rightarrow> 'f \<Rightarrow> 'f OpJournal \<Rightarrow> 'f OpJournal" where
  "complete_op i result j =
     (case hm_get (ops j) i of
        Some entry \<Rightarrow> j\<lparr>ops := hm_insert i (entry\<lparr>entry_status := Ok result\<rparr>) (ops j)\<rparr>
      | None \<Rightarrow> j)"

text \<open>The loop over the sorted ids.\<close>

fun replay_ids :: "'f OpJournal \<Rightarrow> u64 list \<Rightarrow> 'f option \<Rightarrow> 'f option" where
  "replay_ids j [] r = r"
| "replay_ids j (i # is) r =
     replay_ids j is
       (case hm_get (ops j) i of
          Some entry \<Rightarrow> (case entry_status entry of Ok v \<Rightarrow> Some v | Pending \<Rightarrow> r)
        | None \<Rightarrow> r)"

definition replay_last_result :: "'f OpJournal \<Rightarrow> 'f option" where
  "replay_last_result j = replay_ids j (sort (hm_keys (ops j))) None"

text \<open>The loop of \<open>counts\<close>, over the values in any order.\<close>

fun count_entries :: "'f JournalEntry list \<Rightarrow> nat \<times> nat \<Rightarrow> nat \<times> nat" where
  "count_entries [] acc = acc"
| "count_entries (e # es) (ok, pending) =
     count_entries es (case entry_status e of Ok _ \<Rightarrow> (ok + 1, pending) | Pending \<Rightarrow> (ok, pending + 1))"

definition counts :: "'f OpJournal \<Rightarrow> nat \<times> nat" where
  "counts j = count_entries (hm_values (ops j)) (0, 0)"

text \<open>\<open>CalcHandle::pending_ops\<close>.\<close>

definition pending_ops :: "'f OpJournal \<Rightarrow> (u64 \<times> 'f OpKind) list" where
  "pending_ops j =
     List.map_filter (\<lambda>i.
       case hm_get (ops j) i of
         None \<Rightarrow> None
       | Some entry \<Rightarrow> (case entry_status entry of Pending \<Rightarrow> Some (i, entry_kind entry) | Ok _ \<Rightarrow> None))
       (sort (hm_keys (ops j)))"

section \<open>The calculator\<close>

datatype 'f CalcMsg =
    MAdd 'f 'f nat | MSub 'f 'f nat | MMul 'f 'f nat | MDiv 'f 'f nat
  | LastResult nat | JournalSummary nat

datatype 'f reply =
    Result "string + 'f" | Last "'f option" | Summary "'f option \<times> nat \<times> nat"

record 'f RecoverableCalculator =
  journal :: "'f OpJournal"
  last_result :: "'f option"
  replies :: "(nat \<times> 'f reply) list"

definition RecoverableCalculator_new :: "'f OpJournal \<Rightarrow> (nat \<times> 'f reply) list \<Rightarrow> 'f RecoverableCalculator" where
  "RecoverableCalculator_new j rs = \<lparr>journal = j, last_result = None, replies = rs\<rparr>"

fun compute :: "'f float_ops \<Rightarrow> 'f OpKind \<Rightarrow> (string + 'f) outcome" where
  "compute fl (Add a b) = Returns (Inr (fadd fl a b))"
| "compute fl (Sub a b) = Returns (Inr (fsub fl a b))"
| "compute fl (Mul a b) = Returns (Inr (fmul fl a b))"
| "compute fl (Div a b) = (if is_zero fl b then Panics ''division by zero'' else Returns (Inr (fdiv fl a b)))"

definition replay_journal :: "'f RecoverableCalculator \<Rightarrow> 'f RecoverableCalculator" where
  "replay_journal s = s\<lparr>last_result := replay_last_result (journal s)\<rparr>"

definition send_reply :: "nat \<Rightarrow> 'f reply \<Rightarrow> 'f RecoverableCalculator \<Rightarrow> 'f RecoverableCalculator" where
  "send_reply ch v s = s\<lparr>replies := replies s @ [(ch, v)]\<rparr>"

text \<open>A panic in \<open>compute\<close> leaves the journal as \<open>start_op\<close> made it.\<close>

definition run_op :: "'f float_ops \<Rightarrow> 'f OpKind \<Rightarrow> nat \<Rightarrow> 'f RecoverableCalculator \<Rightarrow> callback \<times> 'f RecoverableCalculator" where
  "run_op fl k ch s =
     (case start_op k (journal s) of
        (op_id, j) \<Rightarrow>
          (case compute fl k of
             Panics _ \<Rightarrow> (CbPanic, s\<lparr>journal := j\<rparr>)
           | Returns (Inr v) \<Rightarrow>
               (CbOk, send_reply ch (Result (Inr v)) (s\<lparr>journal := complete_op op_id v j, last_result := Some v\<rparr>))
           | Returns (Inl e) \<Rightarrow> (CbOk, send_reply ch (Result (Inl e)) (s\<lparr>journal := j\<rparr>))))"

definition calc_pre_start :: "'f RecoverableCalculator \<Rightarrow> callback \<times> 'f RecoverableCalculator" where
  "calc_pre_start s = (CbOk, replay_journal s)"

fun calc_handle :: "'f float_ops \<Rightarrow> 'f CalcMsg \<Rightarrow> 'f RecoverableCalculator \<Rightarrow> callback \<times> 'f RecoverableCalculator" where
  "calc_handle fl (LastResult ch) s = (CbOk, send_reply ch (Last (last_result s)) s)"
| "calc_handle fl (JournalSummary ch) s =
     (case counts (journal s) of (ok, pending) \<Rightarrow> (CbOk, send_reply ch (Summary (last_result s, ok, pending)) s))"
| "calc_handle fl (MAdd a b ch) s = run_op fl (Add a b) ch s"
| "calc_handle fl (MSub a b ch) s = run_op fl (Sub a b) ch s"
| "calc_handle fl (MMul a b ch) s = run_op fl (Mul a b) ch s"
| "calc_handle fl (MDiv a b ch) s = run_op fl (Div a b) ch s"

text \<open>As an actor of the runtime; \<open>t\<close> is the time a run of \<open>handle\<close> takes.\<close>

definition calc_actor ::
  "'f float_ops \<Rightarrow> duration \<Rightarrow> 'f RecoverableCalculator \<Rightarrow> ('f RecoverableCalculator, 'f CalcMsg) DynActor" where
  "calc_actor fl t s = (actor_defaults s)
     \<lparr>dyn_pre_start := calc_pre_start,
      dyn_handle := (\<lambda>m s. \<lparr>run_time = Some t, run_result = fst (calc_handle fl m s),
        run_state = snd (calc_handle fl m s), cancelled = s\<rparr>)\<rparr>"

section \<open>The supervised handle\<close>

definition calc_config :: SupervisorConfig where
  "calc_config = SupervisorConfig_default\<lparr>strategy := OneForOne, max_restarts := 10, within_secs := 60\<rparr>"

record 'f CalcHandle =
  handle_slot :: nat
  handle_supervisor :: SupervisorHandle

text \<open>\<open>CalcHandle::start\<close> with the slot \<open>slot\<close> and the signal channel \<open>tx\<close>; the task goes with the handle.
  \<open>j\<close> is what the shared journal holds when the first instance is built; what it holds for the later
  instances is the subject of \<open>calc_restart\<close> below.\<close>

definition calc_start ::
  "'f float_ops \<Rightarrow> duration \<Rightarrow> nat \<Rightarrow> nat \<Rightarrow> 'f OpJournal \<Rightarrow> ('f RecoverableCalculator, 'f CalcMsg, 'k) Env
     \<Rightarrow> ((string + 'f CalcHandle \<times> ('f RecoverableCalculator, 'f CalcMsg, 'k) SupTask)
          \<times> ('f RecoverableCalculator, 'f CalcMsg, 'k) Env) outcome" where
  "calc_start fl t tx slot j env =
     (let env0 = env\<lparr>child_slots := (child_slots env)(slot := ChildSlot_new)\<rparr>
      in case slot_child_spec 0 slot (calc_actor fl t (RecoverableCalculator_new j [])) env0 of
           (spec, env1) \<Rightarrow>
             (case start tx (Supervisor_new calc_config [spec]) env1 of
                Panics e \<Rightarrow> Panics e
              | Returns (Inl e, env2) \<Rightarrow> Returns (Inl e, env2)
              | Returns (Inr (h, task), env2) \<Rightarrow>
                  (case slot_require (child_slots env2 slot) of
                     Inl e \<Rightarrow> Returns (Inl e, env2)
                   | Inr _ \<Rightarrow> Returns (Inr (\<lparr>handle_slot = slot, handle_supervisor = h\<rparr>, task), env2))))"

text \<open>\<open>CalcHandle::actor\<close> panics when the slot is empty.\<close>

definition handle_actor :: "'f CalcHandle \<Rightarrow> ('a, 'm, 'k) Env \<Rightarrow> ActorRef outcome" where
  "handle_actor h env =
     (case slot_get (child_slots env (handle_slot h)) of
        Some r \<Rightarrow> Returns r | None \<Rightarrow> Panics ''supervised calculator running'')"

text \<open>Sending a request and waiting for its reply: \<open>reply\<close> is what the oneshot yields, \<open>None\<close> when the
  calculator dropped the sender. The outer \<open>None\<close> is a mailbox that is still full.\<close>

definition send_request ::
  "'f CalcHandle \<Rightarrow> (nat \<Rightarrow> 'm) \<Rightarrow> nat \<Rightarrow> string \<Rightarrow> 'r option \<Rightarrow> ('a, 'm, 'k) Env
     \<Rightarrow> ((string + 'r) \<times> ('a, 'm, 'k) Env) outcome option" where
  "send_request h mk chan lost reply env =
     (case handle_actor h env of
        Panics e \<Rightarrow> Some (Panics e)
      | Returns r \<Rightarrow>
          (case ref_send r (mk chan) (world env) of
             None \<Rightarrow> None
           | Some (False, w) \<Rightarrow> Some (Returns (Inl ''channel closed'', env\<lparr>world := w\<rparr>))
           | Some (True, w) \<Rightarrow> Some (Returns (case reply of Some x \<Rightarrow> Inr x | None \<Rightarrow> Inl lost, env\<lparr>world := w\<rparr>))))"

definition query_summary ::
  "'f CalcHandle \<Rightarrow> nat \<Rightarrow> ('f option \<times> nat \<times> nat) option \<Rightarrow> ('a, 'f CalcMsg, 'k) Env
     \<Rightarrow> ((string + 'f option \<times> nat \<times> nat) \<times> ('a, 'f CalcMsg, 'k) Env) outcome option" where
  "query_summary h chan reply env = send_request h JournalSummary chan ''calculator dropped journal summary reply'' reply env"

definition request ::
  "'f CalcHandle \<Rightarrow> (nat \<Rightarrow> 'f CalcMsg) \<Rightarrow> nat \<Rightarrow> (string + 'f) option \<Rightarrow> ('a, 'f CalcMsg, 'k) Env
     \<Rightarrow> ((string + (string + 'f)) \<times> ('a, 'f CalcMsg, 'k) Env) outcome option" where
  "request h build chan reply env =
     send_request h build chan ''calculator crashed before reply (supervisor will restart and replay journal)'' reply env"

definition add ::
  "'f CalcHandle \<Rightarrow> 'f \<Rightarrow> 'f \<Rightarrow> nat \<Rightarrow> (string + 'f) option \<Rightarrow> ('a, 'f CalcMsg, 'k) Env
     \<Rightarrow> ((string + (string + 'f)) \<times> ('a, 'f CalcMsg, 'k) Env) outcome option" where
  "add h a b chan reply env = request h (MAdd a b) chan reply env"

definition div_request ::
  "'f CalcHandle \<Rightarrow> 'f \<Rightarrow> 'f \<Rightarrow> nat \<Rightarrow> (string + 'f) option \<Rightarrow> ('a, 'f CalcMsg, 'k) Env
     \<Rightarrow> ((string + (string + 'f)) \<times> ('a, 'f CalcMsg, 'k) Env) outcome option" where
  "div_request h a b chan reply env = request h (MDiv a b) chan reply env"

section \<open>The timer\<close>

datatype TimerMsg = Start ActorRef | Tick

record 'f JournalTimer =
  timer_calc :: "'f CalcHandle"
  self_ref :: "ActorRef option"
  interval :: duration
  running :: bool

definition JournalTimer_new :: "'f CalcHandle \<Rightarrow> duration \<Rightarrow> 'f JournalTimer" where
  "JournalTimer_new h d = \<lparr>timer_calc = h, self_ref = None, interval = d, running = False\<rparr>"

text \<open>The \<open>Tick\<close> a spawned task sends after the delay, if any.\<close>

definition schedule_next :: "'f JournalTimer \<Rightarrow> (ActorRef \<times> duration) option" where
  "schedule_next tm = (case self_ref tm of None \<Rightarrow> None | Some r \<Rightarrow> Some (r, interval tm))"

text \<open>\<open>handle\<close>: the result, the timer, the tick it schedules and the world; what it prints is left out.
  \<open>handle_actor\<close> panics inside the handler when the slot is empty.\<close>

fun timer_handle ::
  "TimerMsg \<Rightarrow> nat \<Rightarrow> ('f option \<times> nat \<times> nat) option \<Rightarrow> 'f JournalTimer \<Rightarrow> ('a, 'f CalcMsg, 'k) Env
     \<Rightarrow> (callback \<times> 'f JournalTimer \<times> (ActorRef \<times> duration) option \<times> ('a, 'f CalcMsg, 'k) Env) option" where
  "timer_handle (Start r) chan reply tm env =
     (let tm' = tm\<lparr>self_ref := Some r, running := True\<rparr> in Some (CbOk, tm', schedule_next tm', env))"
| "timer_handle Tick chan reply tm env =
     (if running tm
      then (case query_summary (timer_calc tm) chan reply env of
              None \<Rightarrow> None
            | Some (Panics _) \<Rightarrow> Some (CbPanic, tm, None, env)
            | Some (Returns (_, env')) \<Rightarrow> Some (CbOk, tm, schedule_next tm, env'))
      else Some (CbOk, tm, None, env))"

section \<open>A calculator that crashes and restarts\<close>

text \<open>The instance the supervisor builds after a panic, once its \<open>pre_start\<close> has run.\<close>

definition calc_restart :: "'f RecoverableCalculator \<Rightarrow> 'f RecoverableCalculator" where
  "calc_restart s = snd (calc_pre_start (RecoverableCalculator_new (journal s) (replies s)))"

text \<open>One message to the supervised calculator.\<close>

definition calc_serve :: "'f float_ops \<Rightarrow> 'f CalcMsg \<Rightarrow> 'f RecoverableCalculator \<Rightarrow> 'f RecoverableCalculator" where
  "calc_serve fl m s =
     (case calc_handle fl m s of (CbOk, s') \<Rightarrow> s' | (_, s') \<Rightarrow> calc_restart s')"

text \<open>Specification: the operations asked for, their results, and the answers.\<close>

fun msg_op :: "'f CalcMsg \<Rightarrow> ('f OpKind \<times> nat) option" where
  "msg_op (MAdd a b ch) = Some (Add a b, ch)"
| "msg_op (MSub a b ch) = Some (Sub a b, ch)"
| "msg_op (MMul a b ch) = Some (Mul a b, ch)"
| "msg_op (MDiv a b ch) = Some (Div a b, ch)"
| "msg_op (LastResult _) = None"
| "msg_op (JournalSummary _) = None"

definition op_value :: "'f float_ops \<Rightarrow> 'f OpKind \<Rightarrow> 'f option" where
  "op_value fl k = (case compute fl k of Returns (Inr v) \<Rightarrow> Some v | _ \<Rightarrow> None)"

definition asked :: "'f CalcMsg list \<Rightarrow> ('f OpKind \<times> nat) list" where
  "asked ms = List.map_filter msg_op ms"

definition op_values :: "'f float_ops \<Rightarrow> 'f CalcMsg list \<Rightarrow> 'f list" where
  "op_values fl ms = List.map_filter (\<lambda>(k, _). op_value fl k) (asked ms)"

definition last_opt :: "'x list \<Rightarrow> 'x option" where
  "last_opt xs = (if xs = [] then None else Some (last xs))"

fun answer :: "'f float_ops \<Rightarrow> 'f CalcMsg list \<Rightarrow> 'f CalcMsg \<Rightarrow> (nat \<times> 'f reply) option" where
  "answer fl past (LastResult ch) = Some (ch, Last (last_opt (op_values fl past)))"
| "answer fl past (JournalSummary ch) =
     Some (ch, Summary (last_opt (op_values fl past), length (op_values fl past), length (asked past) - length (op_values fl past)))"
| "answer fl past m =
     (case msg_op m of
        Some (k, ch) \<Rightarrow> map_option (\<lambda>v. (ch, Result (Inr v))) (op_value fl k)
      | None \<Rightarrow> None)"

text \<open>The entry the journal keeps for an operation.\<close>

definition entry_of :: "'f float_ops \<Rightarrow> 'f OpKind \<Rightarrow> 'f JournalEntry" where
  "entry_of fl k = \<lparr>entry_kind = k, entry_status = (case op_value fl k of Some v \<Rightarrow> Ok v | None \<Rightarrow> Pending)\<rparr>"

definition journal_of :: "'f float_ops \<Rightarrow> 'f OpKind list \<Rightarrow> 'f OpJournal" where
  "journal_of fl ks = \<lparr>ops = zip (map of_nat [0..<length ks]) (map (entry_of fl) ks), next_id = of_nat (length ks)\<rparr>"

definition answers :: "'f float_ops \<Rightarrow> 'f CalcMsg list \<Rightarrow> (nat \<times> 'f reply) list" where
  "answers fl ms = List.map_filter (\<lambda>i. answer fl (take i ms) (ms ! i)) [0..<length ms]"

section \<open>The journal after any operations\<close>

lemma ids_sorted: "n \<le> 2 ^ 64 \<Longrightarrow> sort (map of_nat [0..<n]) = (map of_nat [0..<n] :: u64 list)"
  by (rule sort_key_id_if_sorted) (simp add: sorted_iff_nth_mono word_le_nat_alt unat_of_nat take_bit_nat_eq_self)

lemma ids_distinct: "n \<le> 2 ^ 64 \<Longrightarrow> distinct (map of_nat [0..<n] :: u64 list)"
  by (auto simp: distinct_conv_nth word_unat_eq_iff unat_of_nat take_bit_nat_eq_self)

lemma journal_keys: "hm_keys (ops (journal_of fl ks)) = map of_nat [0..<length ks]"
  by (simp add: journal_of_def hm_keys_def)

lemma journal_get:
  assumes "length ks \<le> 2 ^ 64" and "i < length ks"
  shows "hm_get (ops (journal_of fl ks)) (of_nat i) = Some (entry_of fl (ks ! i))"
proof -
  have "(of_nat i, entry_of fl (ks ! i)) \<in> set (zip (map of_nat [0..<length ks]) (map (entry_of fl) ks))"
    using assms(2) by (force simp: set_zip)
  then show ?thesis
    using ids_distinct [OF assms(1)] by (simp add: hm_get_def journal_of_def map_of_eq_Some_iff)
qed

lemma journal_fresh:
  assumes "length ks < 2 ^ 64"
  shows "of_nat (length ks) \<notin> set (hm_keys (ops (journal_of fl ks)))"
  using assms by (auto simp: journal_keys word_unat_eq_iff unat_of_nat take_bit_nat_eq_self)

lemma journal_snoc:
  "journal_of fl (ks @ [k])
     = \<lparr>ops = ops (journal_of fl ks) @ [(of_nat (length ks), entry_of fl k)], next_id = next_id (journal_of fl ks) + 1\<rparr>"
  by (simp add: journal_of_def add.commute)

lemma update_last: "k \<notin> set (map fst m) \<Longrightarrow> hm_insert k v (m @ [(k, w)]) = m @ [(k, v)]"
  unfolding hm_insert_def by (induction m) auto

lemma get_last: "k \<notin> set (map fst m) \<Longrightarrow> hm_get (m @ [(k, w)]) k = Some w"
  unfolding hm_get_def by (induction m) auto

lemma start_op_journal:
  assumes "length ks < 2 ^ 64"
  shows "start_op k (journal_of fl ks) = (of_nat (length ks),
     \<lparr>ops = ops (journal_of fl ks) @ [(of_nat (length ks), \<lparr>entry_kind = k, entry_status = Pending\<rparr>)],
      next_id = next_id (journal_of fl ks) + 1\<rparr>)"
proof -
  have "hm_get (ops (journal_of fl ks)) (of_nat (length ks)) = None"
    using journal_fresh [OF assms, of fl] hm_keys_set [of "ops (journal_of fl ks)"] by auto
  moreover have "next_id (journal_of fl ks) = of_nat (length ks)" by (simp add: journal_of_def)
  ultimately show ?thesis by (simp add: start_op_def hm_insert_new)
qed

lemma compute_value:
  "compute fl k = (case op_value fl k of Some v \<Rightarrow> Returns (Inr v) | None \<Rightarrow> Panics ''division by zero'')"
  by (cases k) (auto simp: op_value_def)

lemma run_op_journal:
  assumes "length ks < 2 ^ 64" and "journal s = journal_of fl ks"
  shows "run_op fl k ch s =
     (case op_value fl k of
        Some v \<Rightarrow> (CbOk, send_reply ch (Result (Inr v)) (s\<lparr>journal := journal_of fl (ks @ [k]), last_result := Some v\<rparr>))
      | None \<Rightarrow> (CbPanic, s\<lparr>journal := journal_of fl (ks @ [k])\<rparr>))"
proof -
  have fresh: "of_nat (length ks) \<notin> set (map fst (ops (journal_of fl ks)))"
    using journal_fresh [OF assms(1)] by (simp add: hm_keys_def)
  have completes: "complete_op (of_nat (length ks)) v
      \<lparr>ops = ops (journal_of fl ks) @ [(of_nat (length ks), \<lparr>entry_kind = k, entry_status = Pending\<rparr>)],
       next_id = next_id (journal_of fl ks) + 1\<rparr>
    = \<lparr>ops = ops (journal_of fl ks) @ [(of_nat (length ks), \<lparr>entry_kind = k, entry_status = Ok v\<rparr>)],
       next_id = next_id (journal_of fl ks) + 1\<rparr>" for v
    by (simp add: complete_op_def get_last [OF fresh] update_last [OF fresh])
  show ?thesis
    by (simp add: run_op_def assms(2) start_op_journal [OF assms(1)] compute_value journal_snoc entry_of_def completes split: option.splits)
qed

lemma replay_ids_journal:
  assumes "length ks \<le> 2 ^ 64" and "n \<le> length ks"
  shows "replay_ids (journal_of fl ks) (map of_nat [n..<length ks]) r
    = (case last_opt (List.map_filter (op_value fl) (drop n ks)) of Some v \<Rightarrow> Some v | None \<Rightarrow> r)"
  using assms(2)
proof (induction "length ks - n" arbitrary: n r)
  case 0
  then show ?case by (simp add: last_opt_def map_filter_simps)
next
  case (Suc d)
  then have n: "n < length ks" by simp
  have "d = length ks - Suc n" "Suc n \<le> length ks" using Suc.hyps(2) n by simp_all
  note IH = Suc.hyps(1) [OF this]
  show ?case
    using n IH
    by (simp add: upt_conv_Cons journal_get [OF assms(1) n] entry_of_def Cons_nth_drop_Suc [OF n, symmetric] map_filter_simps
        last_opt_def split: option.splits)
qed

lemma replay_journal_of:
  assumes "length ks \<le> 2 ^ 64"
  shows "replay_last_result (journal_of fl ks) = last_opt (List.map_filter (op_value fl) ks)"
  using replay_ids_journal [OF assms, of 0 fl None]
  by (simp add: replay_last_result_def journal_keys ids_sorted [OF assms] split: option.splits)

lemma map_filter_map: "List.map_filter f (map g xs) = List.map_filter (\<lambda>x. f (g x)) xs"
  by (induction xs) (simp_all add: map_filter_simps split: option.split)

lemma map_filter_eq: "(\<And>x. x \<in> set xs \<Longrightarrow> f x = g x) \<Longrightarrow> List.map_filter f xs = List.map_filter g xs"
  by (induction xs) (simp_all add: map_filter_simps split: option.split)

lemma map_filter_append: "List.map_filter f (xs @ ys) = List.map_filter f xs @ List.map_filter f ys"
  by (induction xs) (simp_all add: map_filter_simps split: option.splits)

lemma length_map_filter: "length (List.map_filter f xs) \<le> length xs"
  by (induction xs) (simp_all add: map_filter_simps split: option.splits)

lemma count_entries_of:
  "count_entries (map (entry_of fl) ks) (a, b)
     = (a + length (List.map_filter (op_value fl) ks), b + (length ks - length (List.map_filter (op_value fl) ks)))"
proof (induction ks arbitrary: a b)
  case (Cons k ks)
  show ?case using length_map_filter [of "op_value fl" ks]
    by (cases "op_value fl k") (simp_all add: entry_of_def [of fl k] map_filter_simps Cons.IH Suc_diff_le)
qed (simp add: map_filter_simps)

lemma counts_journal:
  "counts (journal_of fl ks) = (length (List.map_filter (op_value fl) ks), length ks - length (List.map_filter (op_value fl) ks))"
  using count_entries_of [of fl ks 0 0] by (simp add: counts_def journal_of_def hm_values_def)

lemma pending_journal:
  assumes "length ks \<le> 2 ^ 64"
  shows "pending_ops (journal_of fl ks)
    = map (\<lambda>i. (of_nat i, ks ! i)) (filter (\<lambda>i. op_value fl (ks ! i) = None) [0..<length ks])"
proof -
  have "pending_ops (journal_of fl ks)
      = List.map_filter (\<lambda>i. if op_value fl (ks ! i) = None then Some (of_nat i, ks ! i) else None) [0..<length ks]"
    unfolding pending_ops_def journal_keys ids_sorted [OF assms] map_filter_map
    by (rule map_filter_eq) (simp add: journal_get [OF assms] entry_of_def split: option.splits)
  also have "\<dots> = map (\<lambda>i. (of_nat i, ks ! i)) (filter (\<lambda>i. op_value fl (ks ! i) = None) [0..<length ks])"
    unfolding List.map_filter_def by (simp add: comp_def cong: filter_cong map_cong)
  finally show ?thesis .
qed

section \<open>A history of messages and crashes\<close>

text \<open>The state after a history: everything in it is determined by the operations that succeeded.\<close>

definition state_of :: "'f float_ops \<Rightarrow> 'f CalcMsg list \<Rightarrow> 'f RecoverableCalculator" where
  "state_of fl ms =
     \<lparr>journal = journal_of fl (map fst (asked ms)), last_result = last_opt (op_values fl ms), replies = answers fl ms\<rparr>"

lemma op_values_asked: "op_values fl ms = List.map_filter (op_value fl) (map fst (asked ms))"
  by (simp add: op_values_def map_filter_map case_prod_beta')

lemma calc_restart_state:
  "length (asked ms) \<le> 2 ^ 64 \<Longrightarrow> journal s = journal_of fl (map fst (asked ms)) \<Longrightarrow> replies s = answers fl ms \<Longrightarrow>
   calc_restart s = state_of fl ms"
  by (simp add: calc_restart_def calc_pre_start_def replay_journal_def RecoverableCalculator_new_def replay_journal_of state_of_def
      op_values_asked)

lemma answers_snoc: "answers fl (ms @ [m]) = answers fl ms @ (case answer fl ms m of Some a \<Rightarrow> [a] | None \<Rightarrow> [])"
proof -
  have "List.map_filter (\<lambda>i. answer fl (take i (ms @ [m])) ((ms @ [m]) ! i)) [0..<length ms] = answers fl ms"
    unfolding answers_def by (rule map_filter_eq) (simp add: nth_append)
  then show ?thesis by (simp add: answers_def map_filter_append map_filter_simps split: option.splits)
qed

lemma calc_serve_op:
  assumes "msg_op m = Some (k, ch)" and "length (asked ms) < 2 ^ 64"
  shows "calc_serve fl m (state_of fl ms) = state_of fl (ms @ [m])"
proof -
  let ?s = "state_of fl ms"
  have h: "calc_handle fl m s = run_op fl k ch s" for s using assms(1) by (cases m) auto
  have a: "asked (ms @ [m]) = asked ms @ [(k, ch)]" using assms(1) by (simp add: asked_def map_filter_append map_filter_simps)
  have ans: "answer fl ms m = map_option (\<lambda>v. (ch, Result (Inr v))) (op_value fl k)" using assms(1) by (cases m) auto
  have j: "journal ?s = journal_of fl (map fst (asked ms))" by (simp add: state_of_def)
  have r: "run_op fl k ch ?s =
     (case op_value fl k of
        Some v \<Rightarrow> (CbOk, send_reply ch (Result (Inr v)) (?s\<lparr>journal := journal_of fl (map fst (asked (ms @ [m]))), last_result := Some v\<rparr>))
      | None \<Rightarrow> (CbPanic, ?s\<lparr>journal := journal_of fl (map fst (asked (ms @ [m])))\<rparr>))"
    using run_op_journal [OF _ j, of k ch] assms(2) by (simp add: a split: option.splits)
  show ?thesis
  proof (cases "op_value fl k")
    case None
    then have "calc_serve fl m ?s = calc_restart (?s\<lparr>journal := journal_of fl (map fst (asked (ms @ [m])))\<rparr>)"
      by (simp add: calc_serve_def h r)
    also have "\<dots> = state_of fl (ms @ [m])"
      using assms(2) None by (intro calc_restart_state) (simp_all add: a state_of_def answers_snoc ans)
    finally show ?thesis .
  next
    case (Some v)
    have "last_opt (op_values fl (ms @ [m])) = Some v"
      using Some by (simp add: op_values_def a map_filter_append map_filter_simps last_opt_def)
    moreover have "calc_serve fl m ?s
        = send_reply ch (Result (Inr v)) (?s\<lparr>journal := journal_of fl (map fst (asked (ms @ [m]))), last_result := Some v\<rparr>)"
      using Some by (simp add: calc_serve_def h r)
    ultimately show ?thesis using Some by (simp add: send_reply_def state_of_def answers_snoc ans)
  qed
qed

lemma calc_serve_state:
  assumes "length (asked (ms @ [m])) \<le> 2 ^ 64"
  shows "calc_serve fl m (state_of fl ms) = state_of fl (ms @ [m])"
proof (cases "msg_op m")
  case None
  have a: "asked (ms @ [m]) = asked ms" using None by (simp add: asked_def map_filter_append map_filter_simps)
  then have v: "op_values fl (ms @ [m]) = op_values fl ms" by (simp add: op_values_def)
  from None a v show ?thesis
    by (cases m) (simp_all add: calc_serve_def state_of_def send_reply_def answers_snoc counts_journal op_values_asked [symmetric])
next
  case (Some p)
  then show ?thesis using assms by (cases p) (simp add: calc_serve_op asked_def map_filter_append map_filter_simps)
qed

lemma calc_history:
  "length (asked ms) \<le> 2 ^ 64 \<Longrightarrow>
   fold (calc_serve fl) ms (calc_restart (RecoverableCalculator_new OpJournal_default [])) = state_of fl ms"
proof (induction ms rule: rev_induct)
  case Nil
  have "calc_restart (RecoverableCalculator_new OpJournal_default []) = state_of fl []"
    by (rule calc_restart_state)
      (simp_all add: RecoverableCalculator_new_def OpJournal_default_def journal_of_def asked_def answers_def map_filter_simps)
  then show ?case by simp
next
  case (snoc m ms)
  have "length (asked ms) \<le> length (asked (ms @ [m]))" by (simp add: asked_def map_filter_append)
  then show ?case using snoc calc_serve_state [of ms m fl] by simp
qed

section \<open>The calculator in the runtime\<close>

lemma calc_handle_result: "fst (calc_handle fl m s) = CbOk \<or> fst (calc_handle fl m s) = CbPanic"
  by (cases m) (auto simp: run_op_def compute_value split: prod.splits option.splits)

lemma calc_handled:
  assumes "handle_timeout cfg = None"
  shows "\<exists>mon'. handle_message i cfg lag races m (calc_actor fl t s) mon
    = (case fst (calc_handle fl m s) of CbOk \<Rightarrow> Continue | _ \<Rightarrow> Fails (Error ''panic in handle''),
       calc_actor fl t (snd (calc_handle fl m s)), mon')"
  using calc_handle_result [of fl m s] assms
  by (auto simp: handle_message_def handle_body_def calc_actor_def actor_defaults_def Let_def)

lemma calc_start_runs:
  fixes env :: "('f RecoverableCalculator, 'f CalcMsg, 'k) Env"
  shows "\<exists>h task env' tk. calc_start fl t tx slot j env = Returns (Inr (h, task), env')
      \<and> handle_actor h env' = Returns \<lparr>ref_id = counter (world env) + 1\<rparr>
      \<and> tasks (world env') (counter (world env) + 1) = Some tk \<and> actor tk = calc_actor fl t (RecoverableCalculator_new j [])
      \<and> pc tk = [APreStart] \<and> status tk = Running \<and> Task.config tk = ActorConfig_default
      \<and> rx_open (mailbox tk) \<and> queue (mailbox tk) = [] \<and> cap (mailbox tk) = 64
      \<and> get_supervisor_sender (counter (world env) + 1) (actors (world env')) = Some tx"
  by (simp add: calc_start_def slot_child_spec_def child_spec_def Supervisor_new_def with_actor_config_def start_def start_settled_def
      calc_config_def SupervisorConfig_default_def spawn_factory_def spec_restart_def spawning mpsc_capacity_def ActorConfig_default_def
      Let_def slot_require_def slot_get_def handle_actor_def get_supervisor_sender_def register_actor_def hm_get_def hm_insert_def update_conv')

section \<open>Properties\<close>

text \<open>C29. What a crashing calculator remembers. After any history of messages, in which every division by
  zero makes the instance panic and the supervisor start a fresh one, the last result is the value of the
  last operation that succeeded, as if the others had never been asked; each message was answered with
  what the operations before it determine, and an operation that panicked with nothing; the interrupted
  operations are exactly the ones the journal lists as pending, under the positions they were asked at;
  and a crash at this point loses nothing, since a restart restores the very state.\<close>

theorem journal_recovers:
  fixes fl :: "'f float_ops"
  assumes "length (asked ms) \<le> 2 ^ 64"
  defines "s \<equiv> fold (calc_serve fl) ms (calc_restart (RecoverableCalculator_new OpJournal_default []))"
    and "ks \<equiv> map fst (asked ms)"
  shows "last_result s = last_opt (op_values fl ms) \<and> replies s = answers fl ms
    \<and> pending_ops (journal s) = map (\<lambda>i. (of_nat i, ks ! i)) (filter (\<lambda>i. op_value fl (ks ! i) = None) [0..<length ks])
    \<and> counts (journal s) = (length (op_values fl ms), length ks - length (op_values fl ms))
    \<and> calc_restart s = s"
proof -
  have s: "s = state_of fl ms" unfolding s_def by (rule calc_history [OF assms(1)])
  then have j: "journal s = journal_of fl ks" and r: "replies s = answers fl ms" by (simp_all add: state_of_def ks_def)
  have l: "length ks \<le> 2 ^ 64" using assms(1) by (simp add: ks_def)
  have "calc_restart s = s" using calc_restart_state [OF assms(1), of s fl] j r s by (simp add: ks_def)
  moreover have "last_result s = last_opt (op_values fl ms)" by (simp add: s state_of_def)
  ultimately show ?thesis
    using r pending_journal [OF l, of fl] counts_journal [of fl ks] by (simp add: j op_values_asked ks_def [symmetric])
qed

text \<open>The run of the example program: two sums, a division by zero, another sum.\<close>

theorem journal_recovers_witness:
  "(let s = fold (calc_serve int_ops) [MAdd 10 4 1, MAdd 5 3 2, MDiv 10 0 3, LastResult 4, MAdd 1 1 5, JournalSummary 6]
          (calc_restart (RecoverableCalculator_new OpJournal_default []))
    in last_result s = Some 2 \<and> pending_ops (journal s) = [(2, Div 10 0)]
      \<and> replies s = [(1, Result (Inr 14)), (2, Result (Inr 8)), (4, Last (Some 8)), (5, Result (Inr 2)), (6, Summary (Some 2, 3, 1))])"
  using journal_recovers [of "[MAdd 10 4 1, MAdd 5 3 2, MDiv 10 0 3, LastResult 4, MAdd 1 1 5, JournalSummary 6]" int_ops]
  by (simp add: asked_def answers_def op_values_def op_value_def last_opt_def int_ops_def map_filter_simps upt_rec Let_def)

text \<open>The calculator in the runtime. \<open>CalcHandle::start\<close> on a fresh world succeeds: the slot names one
  running actor that has yet to run \<open>pre_start\<close> over the journal and reports its exit to the supervisor.
  Under a configuration without handle timeout (the one it is started with) the runtime handles each
  message as \<open>calc_handle\<close> says: a message that succeeds leaves the actor in its new state; one that
  panics is caught, counted, and ends the actor with an error, with the operation already journaled; and
  while the mailbox has room a request by a client is queued, and fails when the reply was dropped.\<close>

theorem calculator_in_runtime:
  fixes fl :: "'f float_ops" and env :: "('f RecoverableCalculator, 'f CalcMsg, 'k) Env"
  shows "(\<exists>h task env' tk. calc_start fl t tx slot j env = Returns (Inr (h, task), env')
      \<and> handle_actor h env' = Returns \<lparr>ref_id = counter (world env) + 1\<rparr>
      \<and> tasks (world env') (counter (world env) + 1) = Some tk \<and> actor tk = calc_actor fl t (RecoverableCalculator_new j [])
      \<and> pc tk = [APreStart] \<and> status tk = Running \<and> handle_timeout (Task.config tk) = None
      \<and> get_supervisor_sender (counter (world env) + 1) (actors (world env')) = Some tx
      \<and> (\<exists>env''. add h a b ch None env' = Some (Returns
            (Inl ''calculator crashed before reply (supervisor will restart and replay journal)'', env''))))
    \<and> (\<forall>i cfg lag races m s mon. handle_timeout cfg = None \<longrightarrow>
        (case handle_message i cfg lag races m (calc_actor fl t s) mon of
           (e, act, _) \<Rightarrow> act = calc_actor fl t (snd (calc_handle fl m s))
             \<and> e = (case fst (calc_handle fl m s) of CbOk \<Rightarrow> Continue | _ \<Rightarrow> Fails (Error ''panic in handle''))))"
proof (intro conjI allI impI)
  obtain h :: "'f CalcHandle" and task env' tk where r: "calc_start fl t tx slot j env = Returns (Inr (h, task), env')"
      "handle_actor h env' = Returns \<lparr>ref_id = counter (world env) + 1\<rparr>"
      "tasks (world env') (counter (world env) + 1) = Some tk" "actor tk = calc_actor fl t (RecoverableCalculator_new j [])"
      "pc tk = [APreStart]" "status tk = Running" "Task.config tk = ActorConfig_default"
    and m: "rx_open (mailbox tk)" "queue (mailbox tk) = []" "cap (mailbox tk) = 64"
    and sv: "get_supervisor_sender (counter (world env) + 1) (actors (world env')) = Some tx"
    using calc_start_runs [of fl t tx slot j env] by blast
  have "\<exists>env''. add h a b ch None env' = Some (Returns
      (Inl ''calculator crashed before reply (supervisor will restart and replay journal)'', env''))"
    using m by (simp add: add_def request_def send_request_def r(2,3) ref_send_def ref_tx_send_def chan_send_def)
  moreover have "handle_timeout (Task.config tk) = None" by (simp add: r(7) ActorConfig_default_def)
  ultimately show "\<exists>h task env' tk. calc_start fl t tx slot j env = Returns (Inr (h, task), env')
      \<and> handle_actor h env' = Returns \<lparr>ref_id = counter (world env) + 1\<rparr>
      \<and> tasks (world env') (counter (world env) + 1) = Some tk \<and> actor tk = calc_actor fl t (RecoverableCalculator_new j [])
      \<and> pc tk = [APreStart] \<and> status tk = Running \<and> handle_timeout (Task.config tk) = None
      \<and> get_supervisor_sender (counter (world env) + 1) (actors (world env')) = Some tx
      \<and> (\<exists>env''. add h a b ch None env' = Some (Returns
            (Inl ''calculator crashed before reply (supervisor will restart and replay journal)'', env'')))"
    using r(1-6) sv by blast
  fix i lag races m mon and cfg :: ActorConfig and s :: "'f RecoverableCalculator" assume "handle_timeout cfg = None"
  then obtain mon' where "handle_message i cfg lag races m (calc_actor fl t s) mon
    = (case fst (calc_handle fl m s) of CbOk \<Rightarrow> Continue | _ \<Rightarrow> Fails (Error ''panic in handle''),
       calc_actor fl t (snd (calc_handle fl m s)), mon')" using calc_handled by blast
  then show "case handle_message i cfg lag races m (calc_actor fl t s) mon of
           (e, act, _) \<Rightarrow> act = calc_actor fl t (snd (calc_handle fl m s))
             \<and> e = (case fst (calc_handle fl m s) of CbOk \<Rightarrow> Continue | _ \<Rightarrow> Fails (Error ''panic in handle''))"
    by simp
qed

theorem calculator_in_runtime_witness:
  "fst (handle_message 1 ActorConfig_default 0 [] (MDiv 10 0 3) (calc_actor int_ops 5 (RecoverableCalculator_new OpJournal_default [])) [])
     = Fails (Error ''panic in handle'')"
proof -
  have "handle_timeout ActorConfig_default = None" by (simp add: ActorConfig_default_def)
  moreover have "fst (calc_handle int_ops (MDiv 10 0 3) (RecoverableCalculator_new OpJournal_default [])) = CbPanic"
    by (simp add: run_op_def start_op_def int_ops_def RecoverableCalculator_new_def OpJournal_default_def)
  ultimately show ?thesis
    using calculator_in_runtime [THEN conjunct2, rule_format, where cfg = ActorConfig_default and fl = int_ops and
        s = "RecoverableCalculator_new OpJournal_default []" and m = "MDiv 10 0 3" and t = 5 and i = 1 and lag = 0 and races = "[]" and mon = "[]"]
    by (simp split: prod.splits)
qed

end
