(* ===== verification/Supervised_App.thy ===== *)
theory Supervised_App
  imports Supervision
begin

text \<open>
  How the example programs set their supervised actors up: child specs over one registry, made with
  \<open>spawn_child_spec\<close>, the order of a child being its place in the list, and a supervisor started on them.
  Every instance of a child also counts itself in \<open>pre_start\<close>. The worker of
  \<open>examples/supervisor_strategies.rs\<close> is modelled here; the applications built in the same way are in
  \<open>Example_Apps\<close>.
\<close>

section \<open>Starting\<close>

text \<open>A vector of \<open>spawn_child_spec\<close> calls, evaluated in order; the place in the vector is the order.\<close>

fun child_vec ::
  "nat \<Rightarrow> nat \<Rightarrow> ('k \<times> ('a, 'm) DynActor) list \<Rightarrow> ('a, 'm, 'k) Env \<Rightarrow> ('a, 'm, 'k) ChildSpec list \<times> ('a, 'm, 'k) Env" where
  "child_vec reg ordr [] env = ([], env)"
| "child_vec reg ordr (c # cs) env =
     (case spawn_child_spec ordr (fst c) reg (snd c) env of
        (s, env1) \<Rightarrow> (case child_vec reg (Suc ordr) cs env1 of (ss, env2) \<Rightarrow> (s # ss, env2)))"

definition new_registry :: "nat \<Rightarrow> ('a, 'm, 'k) Env \<Rightarrow> ('a, 'm, 'k) Env" where
  "new_registry reg env = env\<lparr>registries := (registries env)(reg := ChildRegistry_new)\<rparr>"

text \<open>What the \<open>pre_start\<close> of an instance does to the registry. The registry is outside the world of actors,
  so the callback itself has no part in it: the theorems apply this function once for each instance that
  has started, in any order.\<close>

definition bump_env :: "nat \<Rightarrow> 'k \<Rightarrow> ('a, 'm, 'k) Env \<Rightarrow> ('a, 'm, 'k) Env" where
  "bump_env reg n env = env\<lparr>registries := (registries env)(reg := bump_generation n (registries env reg))\<rparr>"

section \<open>Generations\<close>

lemma gen_bump [simp]:
  "generation n (bump_generation n' r) = (if n = n' then generation n r + 1 else generation n r)"
  "generation n (track_and_bump n' a r) = (if n = n' then generation n r + 1 else generation n r)"
  "generation n ChildRegistry_new = 0"
  "registry_get n (bump_generation n' r) = registry_get n r"
  "registry_get n (track_and_bump n' a r) = (if n = n' then Some a else registry_get n r)"
  by (simp_all add: generation_def bump_generation_def track_and_bump_def ChildRegistry_new_def registry_get_def hm_get_def hm_insert_def update_conv' Let_def)

lemma gen_bumps:
  "generation n (registries (fold (bump_env reg) ns env) reg) = generation n (registries env reg) + of_nat (count_list ns n)"
  "registry_get n (registries (fold (bump_env reg) ns env) reg) = registry_get n (registries env reg)"
  "world (fold (bump_env reg) ns env) = world env"
  by (induction ns arbitrary: env) (simp_all add: bump_env_def)

definition child_factory :: "nat \<Rightarrow> 'k \<times> ('a, 'm) DynActor \<Rightarrow> ('a, 'm, 'k) factory" where
  "child_factory reg c = spawn_factory (snd c) (\<lambda>r env.
     env\<lparr>registries := (registries env)(reg := track_and_bump (fst c) r (registries env reg))\<rparr>)"

text \<open>Running the factories of children with distinct names: ids in sequence, each name counted once.\<close>

lemma child_factory_runs:
  assumes "0 < mailbox_capacity acfg"
  shows "\<exists>env'. child_factory reg c tx acfg env = Returns (Inr \<lparr>ref_id = counter (world env)\<rparr>, env')
    \<and> counter (world env') = counter (world env) + 1
    \<and> registries env' reg = track_and_bump (fst c) \<lparr>ref_id = counter (world env)\<rparr> (registries env reg)"
  using assms by (simp add: child_factory_def spawn_factory_def spawning mpsc_capacity_def)

lemma named_factories:
  assumes "map spec_factory ss = map (child_factory reg) cs" and "distinct (map fst cs)" and "0 < mailbox_capacity acfg"
  shows "\<exists>env'. run_factories tx acfg ss env
      = Returns (map (\<lambda>j. Inr \<lparr>ref_id = counter (world env) + of_nat j\<rparr>) [0..<length cs], env')
    \<and> counter (world env') = counter (world env) + of_nat (length cs)
    \<and> (\<forall>n. generation n (registries env' reg) = generation n (registries env reg) + (if n \<in> fst ` set cs then 1 else 0))
    \<and> (\<forall>j < length cs. registry_get (fst (cs ! j)) (registries env' reg) = Some \<lparr>ref_id = counter (world env) + of_nat j\<rparr>)
    \<and> (\<forall>n. n \<notin> fst ` set cs \<longrightarrow> registry_get n (registries env' reg) = registry_get n (registries env reg))"
  using assms(1,2)
proof (induction cs arbitrary: ss env)
  case (Cons c cs)
  obtain s ss' where ss: "ss = s # ss'" "spec_factory s = child_factory reg c" "map spec_factory ss' = map (child_factory reg) cs"
    using Cons.prems(1) by (cases ss) auto
  let ?c = "counter (world env)"
  obtain env1 where e1: "child_factory reg c tx acfg env = Returns (Inr \<lparr>ref_id = ?c\<rparr>, env1)" "counter (world env1) = ?c + 1"
    "registries env1 reg = track_and_bump (fst c) \<lparr>ref_id = ?c\<rparr> (registries env reg)"
    using child_factory_runs [OF assms(3), of reg c tx env] by force
  obtain env2 where e2: "run_factories tx acfg ss' env1
      = Returns (map (\<lambda>j. Inr \<lparr>ref_id = ?c + 1 + of_nat j\<rparr>) [0..<length cs], env2)"
    "counter (world env2) = ?c + 1 + of_nat (length cs)"
    "\<And>n. generation n (registries env2 reg) = generation n (registries env1 reg) + (if n \<in> fst ` set cs then 1 else 0)"
    "\<And>j. j < length cs \<Longrightarrow> registry_get (fst (cs ! j)) (registries env2 reg) = Some \<lparr>ref_id = ?c + 1 + of_nat j\<rparr>"
    "\<And>n. n \<notin> fst ` set cs \<Longrightarrow> registry_get n (registries env2 reg) = registry_get n (registries env1 reg)"
    using Cons.IH [OF ss(3), of env1] Cons.prems(2) unfolding e1(2) by auto
  have ids: "map (\<lambda>j. Inr \<lparr>ref_id = ?c + of_nat j\<rparr>) [0..<length (c # cs)]
      = Inr \<lparr>ref_id = ?c\<rparr> # map (\<lambda>j. Inr \<lparr>ref_id = ?c + 1 + of_nat j\<rparr>) [0..<length cs]"
    by (simp add: upt_conv_Cons map_Suc_upt [symmetric] add.assoc del: upt_Suc)
  have "run_factories tx acfg ss env = Returns (map (\<lambda>j. Inr \<lparr>ref_id = ?c + of_nat j\<rparr>) [0..<length (c # cs)], env2)"
    unfolding ids by (simp add: ss e1(1) e2(1))
  moreover have new: "fst c \<notin> fst ` set cs" using Cons.prems(2) by simp
  moreover have "registry_get (fst ((c # cs) ! j)) (registries env2 reg) = Some \<lparr>ref_id = ?c + of_nat j\<rparr>" if "j < length (c # cs)" for j
    using that new e2(4,5) by (cases j) (auto simp: e1(3) add.assoc)
  ultimately show ?case using e2(2,3,5) by (intro exI [of _ env2]) (auto simp: e1(3) add.assoc)
qed simp


text \<open>The specs of a vector, and a start from them.\<close>

lemma child_vec_specs:
  "map spec_factory (fst (child_vec reg o1 cs env)) = map (child_factory reg) cs"
  "map spec_order (fst (child_vec reg o1 cs env)) = [o1..<o1 + length cs]"
  "registries (snd (child_vec reg o1 cs env)) = registries env"
  "counter (world (snd (child_vec reg o1 cs env))) = counter (world env) + of_nat (length cs)"
  by (induction cs arbitrary: o1 env)
    (simp_all add: spawn_child_spec_def child_spec_def child_factory_def ActorId_new_def upt_conv_Cons split_beta add.assoc del: upt_Suc)

lemma start_children_run:
  "run_factories tx acfg ss env = Returns (map Inr rs, env') \<Longrightarrow>
   start_children tx acfg ss env = Returns (Inr (map2 (\<lambda>s r. set_id (ref_id r) s) ss rs, rs), env')"
  by (induction ss arbitrary: env rs) (auto simp: spec_restart_def Cons_eq_map_conv split: outcome.splits)

text \<open>The task of a supervisor over children \<open>cs\<close>, the first of them with id \<open>c\<close>.\<close>

definition app_task :: "nat \<Rightarrow> ('k \<times> ('a, 'm) DynActor) list \<Rightarrow> ActorId \<Rightarrow> ('a, 'm, 'k) SupTask" where
  "app_task reg cs c =
     \<lparr>slots = map (\<lambda>i. \<lparr>spec_id = c + of_nat i, spec_order = i, spec_factory = child_factory reg (cs ! i)\<rparr>) [0..<length cs],
      current_refs = map (\<lambda>i. \<lparr>ref_id = c + of_nat i\<rparr>) [0..<length cs], restart_log = [], sup_running = True\<rparr>"

lemma spec_eqI: "spec_id s = i \<Longrightarrow> spec_order s = j \<Longrightarrow> spec_factory s = f \<Longrightarrow> s = \<lparr>spec_id = i, spec_order = j, spec_factory = f\<rparr>"
  by simp

lemma app_started:
  fixes env :: "('a, 'm, 'k) Env"
  assumes d: "distinct (map fst cs)" and m: "sup_mailbox_capacity cfg \<noteq> 0" "0 < mailbox_capacity acfg"
    and v: "child_vec reg 0 cs (new_registry reg env) = (specs, env0)"
  defines "c \<equiv> counter (world env) + of_nat (length cs)"
  shows "\<exists>env'. start_settled t tx (with_actor_config acfg cfg specs) env0
      = Returns (Inr (\<lparr>initial_refs = map (\<lambda>i. \<lparr>ref_id = c + of_nat i\<rparr>) [0..<length cs]\<rparr>, app_task reg cs c), env')
    \<and> counter (world env') = c + of_nat (length cs)
    \<and> (\<forall>n. generation n (registries env' reg) = (if n \<in> fst ` set cs then 1 else 0))
    \<and> (\<forall>i < length cs. registry_get (fst (cs ! i)) (registries env' reg) = Some \<lparr>ref_id = c + of_nat i\<rparr>)"
proof -
  note sp = child_vec_specs [of reg 0 cs "new_registry reg env", unfolded v fst_conv snd_conv]
  have sorted: "sort_key spec_order specs = specs"
    using sp(2) by (intro sort_key_id_if_sorted) simp
  have len: "length specs = length cs" using sp(1) by (metis length_map)
  let ?env = "env0\<lparr>world := (world env0)\<lparr>signals := (signals (world env0))(tx := \<lparr>cap = sup_mailbox_capacity cfg, queue = [], rx_open = True\<rparr>)\<rparr>\<rparr>"
  let ?rs = "map (\<lambda>j. \<lparr>ref_id = c + of_nat j\<rparr>) [0..<length cs]"
  have c: "counter (world ?env) = c" "registries ?env reg = ChildRegistry_new"
    using sp(3,4) by (simp_all add: c_def new_registry_def)
  obtain env' where e: "run_factories tx acfg specs ?env = Returns (map Inr ?rs, env')"
    "counter (world env') = c + of_nat (length cs)"
    "\<And>n. generation n (registries env' reg) = (if n \<in> fst ` set cs then 1 else 0)"
    "\<And>j. j < length cs \<Longrightarrow> registry_get (fst (cs ! j)) (registries env' reg) = Some \<lparr>ref_id = c + of_nat j\<rparr>"
    using named_factories [OF sp(1) d m(2), of tx ?env] unfolding c by (auto simp: comp_def)
  have slots: "map2 (\<lambda>s r. set_id (ref_id r) s) specs ?rs = slots (app_task reg cs c)"
  proof (rule nth_equalityI)
    fix i assume "i < length (map2 (\<lambda>s r. set_id (ref_id r) s) specs ?rs)"
    then have i: "i < length cs" by (simp add: len)
    then have "spec_factory (specs ! i) = child_factory reg (cs ! i)" "spec_order (specs ! i) = i"
      using arg_cong [OF sp(1), of "\<lambda>xs. xs ! i"] arg_cong [OF sp(2), of "\<lambda>xs. xs ! i"] len by simp_all
    then show "map2 (\<lambda>s r. set_id (ref_id r) s) specs ?rs ! i = slots (app_task reg cs c) ! i"
      using i by (simp add: len app_task_def set_id_def)
  qed (simp add: len app_task_def)
  have "start_settled t tx (with_actor_config acfg cfg specs) env0 = Returns (Inr (\<lparr>initial_refs = ?rs\<rparr>, app_task reg cs c), env')"
    using m(1) start_children_run [OF e(1)]
    by (simp add: start_settled_def with_actor_config_def sorted channel_def mpsc_capacity_def slots) (simp add: app_task_def)
  then show ?thesis using e(2-4) by blast
qed

section \<open>Failures\<close>

text \<open>The places of the children a strategy restarts when child \<open>k\<close> of \<open>n\<close> fails.\<close>

fun hit :: "RestartStrategy \<Rightarrow> nat \<Rightarrow> nat \<Rightarrow> nat list" where
  "hit OneForOne k n = [k]"
| "hit OneForAll k n = [0..<n]"
| "hit RestForOne k n = [k..<n]"

lemma app_task_simps [simp]:
  "length (slots (app_task reg cs c)) = length cs" "length (current_refs (app_task reg cs c)) = length cs"
  "i < length cs \<Longrightarrow> slots (app_task reg cs c) ! i = \<lparr>spec_id = c + of_nat i, spec_order = i, spec_factory = child_factory reg (cs ! i)\<rparr>"
  "i < length cs \<Longrightarrow> current_refs (app_task reg cs c) ! i = \<lparr>ref_id = c + of_nat i\<rparr>"
  "restart_log (app_task reg cs c) = []" "sup_running (app_task reg cs c)"
  by (simp_all add: app_task_def)

lemma app_task_ok: "sup_ok (app_task reg cs c)"
  by (simp add: sup_ok_def)

lemma app_find:
  assumes "k < length cs" and "length cs \<le> 2 ^ 64"
  shows "find_slot (c + of_nat k) (slots (app_task reg cs c)) = Some k"
proof (cases "find_slot (c + of_nat k) (slots (app_task reg cs c))")
  case None
  then have "\<forall>s \<in> set (slots (app_task reg cs c)). spec_id s \<noteq> c + of_nat k" by (simp add: find_slot_def position_None)
  moreover have "slots (app_task reg cs c) ! k \<in> set (slots (app_task reg cs c))" using assms(1) by (intro nth_mem) simp
  ultimately show ?thesis using assms(1) by auto
next
  case (Some j)
  then have j: "j < length cs" "spec_id (slots (app_task reg cs c) ! j) = c + of_nat k" using find_slot_Some by fastforce+
  then have "(of_nat j :: u64) = of_nat k" by simp
  then have "unat (of_nat j :: u64) = unat (of_nat k :: u64)" by simp
  then show ?thesis using assms j(1) Some by (simp add: unat_of_nat)
qed

lemma app_restart_set:
  assumes "k < length cs" and "length cs \<le> 2 ^ 64"
  shows "restart_set st (c + of_nat k) (slots (app_task reg cs c)) = hit st k (length cs)"
proof (cases st)
  case RestForOne
  have "filter (\<lambda>i. k \<le> spec_order (slots (app_task reg cs c) ! i)) [0..<length cs] = filter (\<lambda>i. k \<le> i) [0..<length cs]"
    by (intro filter_cong) auto
  also have "\<dots> = [k..<length cs]"
    using upt_add_eq_append [of 0 k "length cs - k"] assms(1) by (simp add: filter_False)
  finally show ?thesis using RestForOne assms(1) by (simp add: restart_set_def failed_order_def app_find [OF assms])
qed (simp_all add: restart_set_def app_find [OF assms])

lemma app_failed:
  fixes env :: "('a, 'm, 'k) Env"
  assumes d: "distinct (map fst cs)" and m: "0 < mailbox_capacity acfg" and k: "k < length cs" "length cs \<le> 2 ^ 64"
    and now: "instant_sub now (within_secs cfg) = Returns lo" and max: "0 < max_restarts cfg"
  defines "R \<equiv> hit (strategy cfg) k (length cs)"
  shows "\<exists>s' env'. sup_turn tx cfg acfg (Signal now \<lparr>child_id = c + of_nat k, sig_reason = why\<rparr>) (app_task reg cs c, env) = Some (s', env')
    \<and> (\<forall>i < length cs. generation (fst (cs ! i)) (registries env' reg)
          = generation (fst (cs ! i)) (registries env reg) + (if i \<in> set R then 1 else 0)
        \<and> registry_get (fst (cs ! i)) (registries env' reg)
          = (if i \<in> set R then Some (current_refs s' ! i) else registry_get (fst (cs ! i)) (registries env reg))
        \<and> (i \<notin> set R \<longrightarrow> current_refs s' ! i = \<lparr>ref_id = c + of_nat i\<rparr>))
    \<and> (\<forall>j < length R. current_refs s' ! (R ! j) = \<lparr>ref_id = counter (world env) + of_nat j\<rparr>)"
proof -
  let ?t = "app_task reg cs c" and ?cs = "map ((!) cs) R"
  let ?s = "?t\<lparr>restart_log := [now]\<rparr>"
  have R: "distinct R" "\<And>i. i \<in> set R \<Longrightarrow> i < length cs" using k by (cases "strategy cfg"; simp add: R_def)+
  have ok: "sup_ok ?s" using app_task_ok [of reg cs c] by (simp add: sup_ok_def)
  have f: "map spec_factory (map ((!) (slots ?s)) R) = map (child_factory reg) ?cs" using R(2) by simp
  have dist: "distinct (map fst ?cs)" using d R by (auto simp: distinct_map distinct_conv_nth inj_on_def)
  have name: "i < length cs \<Longrightarrow> fst (cs ! i) \<in> fst ` set ?cs \<longleftrightarrow> i \<in> set R" for i
  proof -
    have "fst ` set ?cs = (\<lambda>i. fst (cs ! i)) ` set R" by (simp add: image_image)
    moreover assume "i < length cs"
    ultimately show ?thesis using d R(2) by (auto simp: distinct_conv_nth)
  qed
  obtain env' where e: "run_factories tx acfg (map ((!) (slots ?s)) R) env
      = Returns (map (\<lambda>j. Inr \<lparr>ref_id = counter (world env) + of_nat j\<rparr>) [0..<length R], env')"
    "\<And>n. generation n (registries env' reg) = generation n (registries env reg) + (if n \<in> fst ` set ?cs then 1 else 0)"
    "\<And>j. j < length R \<Longrightarrow> registry_get (fst (cs ! (R ! j))) (registries env' reg) = Some \<lparr>ref_id = counter (world env) + of_nat j\<rparr>"
    "\<And>n. n \<notin> fst ` set ?cs \<Longrightarrow> registry_get n (registries env' reg) = registry_get n (registries env reg)"
    using named_factories [OF f dist m, of tx env] by auto
  let ?rs = "map (\<lambda>j. Inr \<lparr>ref_id = counter (world env) + of_nat j\<rparr>) [0..<length R] :: (string + ActorRef) list"
  let ?s' = "fold apply_result (zip R ?rs) ?s"
  have turn: "sup_turn tx cfg acfg (Signal now \<lparr>child_id = c + of_nat k, sig_reason = why\<rparr>) (?t, env) = Some (?s', env')"
    using now max apply_strategy_eq [OF ok, of tx cfg acfg "c + of_nat k" env] app_restart_set [OF k, of "strategy cfg" c reg] e(1)
    by (simp add: sup_turn_def on_signal_def log_signal_def restarted_def R_def)
  note fr = fold_apply_result [OF R(1) _ _ ok, of ?rs]
  have refs: "j < length R \<Longrightarrow> current_refs ?s' ! (R ! j) = \<lparr>ref_id = counter (world env) + of_nat j\<rparr>" for j
    using fr(5) [of j "\<lparr>ref_id = counter (world env) + of_nat j\<rparr>"] R(2) by simp
  have same: "i \<notin> set R \<Longrightarrow> i < length cs \<Longrightarrow> current_refs ?s' ! i = \<lparr>ref_id = c + of_nat i\<rparr>" for i
    using fr(3) [of i] R(2) by simp
  have got: "registry_get (fst (cs ! i)) (registries env' reg)
      = (if i \<in> set R then Some (current_refs ?s' ! i) else registry_get (fst (cs ! i)) (registries env reg))" if i: "i < length cs" for i
  proof (cases "i \<in> set R")
    case True
    then obtain j where "j < length R" "R ! j = i" by (auto simp: in_set_conv_nth)
    then show ?thesis using e(3) [of j] refs [of j] True by simp
  next
    case False
    then show ?thesis using e(4) [of "fst (cs ! i)"] name [OF i] by simp
  qed
  show ?thesis using turn e(2) name got refs same by (intro exI [of _ ?s'] exI [of _ env']) simp
qed

section \<open>Generations of a supervised application\<close>

text \<open>A registry, the specs of the children over it, and a supervisor started on them.\<close>

definition app_start ::
  "duration \<Rightarrow> ActorConfig \<Rightarrow> SupervisorConfig \<Rightarrow> ('k \<times> ('a, 'm) DynActor) list \<Rightarrow> nat \<Rightarrow> nat \<Rightarrow> ('a, 'm, 'k) Env
     \<Rightarrow> ((string + SupervisorHandle \<times> ('a, 'm, 'k) SupTask) \<times> ('a, 'm, 'k) Env) outcome" where
  "app_start settle acfg cfg cs reg tx env =
     (case child_vec reg 0 cs (new_registry reg env) of
        (specs, env0) \<Rightarrow> start_settled settle tx (with_actor_config acfg cfg specs) env0)"

lemma all_less_three: "(\<forall>i < Suc (Suc (Suc 0)). P i) \<longleftrightarrow> P 0 \<and> P (Suc 0) \<and> P 2"
  by (auto simp: less_Suc_eq numeral_2_eq_2)

lemma count_distinct: "distinct ns \<Longrightarrow> count_list ns n = (if n \<in> set ns then 1 else 0)"
  by (induction ns) auto

lemma app_generations:
  assumes d: "distinct (map fst cs)" and k: "k < length cs" "length cs \<le> 2 ^ 64"
    and m: "sup_mailbox_capacity cfg \<noteq> 0" "0 < mailbox_capacity acfg"
    and now: "instant_sub now (within_secs cfg) = Returns lo" and max: "0 < max_restarts cfg"
    and ns1: "distinct ns1" "set ns1 = fst ` set cs"
    and ns2: "distinct ns2" "set ns2 = (\<lambda>i. fst (cs ! i)) ` set (hit (strategy cfg) k (length cs))"
  shows "\<exists>h task env1 s2 env2. app_start t acfg cfg cs reg tx env = Returns (Inr (h, task), env1)
    \<and> sup_turn tx cfg acfg (Signal now \<lparr>child_id = ref_id (initial_refs h ! k), sig_reason = why\<rparr>)
        (task, fold (bump_env reg) ns1 env1) = Some (s2, env2)
    \<and> (\<forall>i < length cs. generation (fst (cs ! i)) (registries env1 reg) = 1
        \<and> generation (fst (cs ! i)) (registries (fold (bump_env reg) ns1 env1) reg) = 2
        \<and> generation (fst (cs ! i)) (registries (fold (bump_env reg) ns2 env2) reg)
          = (if i \<in> set (hit (strategy cfg) k (length cs)) then 4 else 2)
        \<and> registry_get (fst (cs ! i)) (registries env2 reg) = Some (current_refs s2 ! i)
        \<and> (i \<notin> set (hit (strategy cfg) k (length cs)) \<longrightarrow> current_refs s2 ! i = initial_refs h ! i))"
proof -
  let ?R = "hit (strategy cfg) k (length cs)" and ?c = "counter (world env) + of_nat (length cs)"
  let ?h = "\<lparr>initial_refs = map (\<lambda>i. \<lparr>ref_id = ?c + of_nat i\<rparr>) [0..<length cs]\<rparr>"
  obtain specs env0 where v: "child_vec reg 0 cs (new_registry reg env) = (specs, env0)" by fastforce
  obtain env1 where e1: "app_start t acfg cfg cs reg tx env = Returns (Inr (?h, app_task reg cs ?c), env1)"
    "\<And>n. generation n (registries env1 reg) = (if n \<in> fst ` set cs then 1 else 0)"
    "\<And>i. i < length cs \<Longrightarrow> registry_get (fst (cs ! i)) (registries env1 reg) = Some \<lparr>ref_id = ?c + of_nat i\<rparr>"
    using app_started [OF d m v, of t tx] by (auto simp: app_start_def v)
  let ?env = "fold (bump_env reg) ns1 env1"
  obtain s2 env2 where e2: "sup_turn tx cfg acfg (Signal now \<lparr>child_id = ?c + of_nat k, sig_reason = why\<rparr>) (app_task reg cs ?c, ?env) = Some (s2, env2)"
    "\<And>i. i < length cs \<Longrightarrow> generation (fst (cs ! i)) (registries env2 reg)
          = generation (fst (cs ! i)) (registries ?env reg) + (if i \<in> set ?R then 1 else 0)"
    "\<And>i. i < length cs \<Longrightarrow> registry_get (fst (cs ! i)) (registries env2 reg)
          = (if i \<in> set ?R then Some (current_refs s2 ! i) else registry_get (fst (cs ! i)) (registries ?env reg))"
    "\<And>i. i < length cs \<Longrightarrow> i \<notin> set ?R \<Longrightarrow> current_refs s2 ! i = \<lparr>ref_id = ?c + of_nat i\<rparr>"
    using app_failed [OF d m(2) k now max, of tx ?c why reg ?env] by auto
  have R: "i \<in> set ?R \<Longrightarrow> i < length cs" for i using k by (cases "strategy cfg") auto
  have two: "generation (fst (cs ! i)) (registries ?env reg) = 2" if "i < length cs" for i
    using that by (simp add: gen_bumps count_distinct [OF ns1(1)] ns1(2) e1(2))
  have four: "generation (fst (cs ! i)) (registries (fold (bump_env reg) ns2 env2) reg) = (if i \<in> set ?R then 4 else 2)"
    if i: "i < length cs" for i
  proof -
    have "fst (cs ! i) \<in> set ns2 \<longleftrightarrow> i \<in> set ?R" using d R i unfolding ns2(2) by (auto simp: distinct_conv_nth)
    then show ?thesis using two [OF i] e2(2) [OF i] by (simp add: gen_bumps count_distinct [OF ns2(1)])
  qed
  show ?thesis
    using e1 e2 two four k(1) by (intro exI [of _ ?h] exI [of _ "app_task reg cs ?c"] exI [of _ env1] exI [of _ s2] exI [of _ env2])
      (auto simp: gen_bumps(2))
qed

section \<open>The workers of \<open>supervisor_strategies.rs\<close>\<close>

datatype SupMsg = SupPing | SupFail

record NamedWorker =
  worker_name :: string

fun worker_handle :: "SupMsg \<Rightarrow> NamedWorker \<Rightarrow> callback" where
  "worker_handle SupPing w = CbOk"
| "worker_handle SupFail w = CbErr (worker_name w @ '' failed'')"

text \<open>As an actor; \<open>t\<close> is the time a run of \<open>handle\<close> takes. What \<open>pre_start\<close> does to the shared registry is
  \<open>bump_env\<close>.\<close>

definition named_worker :: "duration \<Rightarrow> string \<Rightarrow> (NamedWorker, SupMsg) DynActor" where
  "named_worker t n = (actor_defaults \<lparr>worker_name = n\<rparr>)
     \<lparr>dyn_handle := (\<lambda>m s. \<lparr>run_time = Some t, run_result = worker_handle m s, run_state = s, cancelled = s\<rparr>)\<rparr>"

definition start_supervisor ::
  "duration \<Rightarrow> SupervisorConfig \<Rightarrow> string list \<Rightarrow> nat \<Rightarrow> nat \<Rightarrow> (NamedWorker, SupMsg, string) Env
     \<Rightarrow> ((string + SupervisorHandle \<times> (NamedWorker, SupMsg, string) SupTask) \<times> (NamedWorker, SupMsg, string) Env) outcome" where
  "start_supervisor t cfg names reg tx env =
     (case child_vec reg 0 (map (\<lambda>n. (n, named_worker t n)) names) env of
        (specs, env0) \<Rightarrow> start_settled (millis 50) tx (Supervisor_new cfg specs) env0)"

text \<open>Sending a worker a message by name; \<open>None\<close> while its mailbox is full.\<close>

definition send_worker ::
  "SupMsg \<Rightarrow> nat \<Rightarrow> string \<Rightarrow> ('a, SupMsg, string) Env \<Rightarrow> ((string + unit) \<times> ('a, SupMsg, string) Env) option" where
  "send_worker m reg n env =
     (case registry_get n (registries env reg) of
        None \<Rightarrow> Some (Inl (''worker '' @ n @ '' not found''), env)
      | Some r \<Rightarrow>
          (case ref_send r m (world env) of
             None \<Rightarrow> None
           | Some (ok, w) \<Rightarrow> Some (if ok then Inr () else Inl ''channel closed'', env\<lparr>world := w\<rparr>)))"

definition fail_worker ::
  "nat \<Rightarrow> string \<Rightarrow> ('a, SupMsg, string) Env \<Rightarrow> ((string + unit) \<times> ('a, SupMsg, string) Env) option" where
  "fail_worker reg n env = send_worker SupFail reg n env"

definition ping_worker ::
  "nat \<Rightarrow> string \<Rightarrow> ('a, SupMsg, string) Env \<Rightarrow> ((string + unit) \<times> ('a, SupMsg, string) Env) option" where
  "ping_worker reg n env = send_worker SupPing reg n env"

text \<open>The configurations of the five demos.\<close>

definition demo_one_for_one :: SupervisorConfig where
  "demo_one_for_one = SupervisorConfig_default\<lparr>strategy := OneForOne, max_restarts := 10, within_secs := 60\<rparr>"

definition demo_one_for_all :: SupervisorConfig where
  "demo_one_for_all = SupervisorConfig_default\<lparr>strategy := OneForAll, max_restarts := 10, within_secs := 60\<rparr>"

definition demo_rest_for_one :: SupervisorConfig where
  "demo_rest_for_one = SupervisorConfig_default\<lparr>strategy := RestForOne, max_restarts := 10, within_secs := 60\<rparr>"

definition demo_intensity_shutdown :: SupervisorConfig where
  "demo_intensity_shutdown = SupervisorConfig_default
     \<lparr>strategy := OneForOne, max_restarts := 3, within_secs := 10, intensity_action := ShutdownSupervisor\<rparr>"

definition demo_intensity_abandon :: SupervisorConfig where
  "demo_intensity_abandon = SupervisorConfig_default
     \<lparr>strategy := OneForOne, max_restarts := 2, within_secs := 10, intensity_action := AbandonChild\<rparr>"

section \<open>Properties\<close>

text \<open>C34. Generations. Workers with distinct names are started over a fresh registry; the \<open>pre_start\<close> of
  every instance runs, in any order; then child \<open>k\<close> fails, and the restarted instances run their
  \<open>pre_start\<close>. The supervisor restarts exactly the children its strategy names (the failed one, all, or
  the failed one and those after it), the registry has the reference of the current instance of every
  child, and the counter of a child goes up by two with each of its instances: \<open>spawn_child_spec\<close> counts
  it, and \<open>pre_start\<close> counts it again.\<close>

theorem supervised_generations:
  assumes d: "distinct names" and k: "k < length names" "length names \<le> 2 ^ 64"
    and m: "sup_mailbox_capacity cfg \<noteq> 0"
    and now: "instant_sub now (within_secs cfg) = Returns lo" and max: "0 < max_restarts cfg"
    and ns1: "distinct ns1" "set ns1 = set names"
    and ns2: "distinct ns2" "set ns2 = (!) names ` set (hit (strategy cfg) k (length names))"
  shows "\<exists>h task env1 s2 env2. start_supervisor t cfg names reg tx (new_registry reg env) = Returns (Inr (h, task), env1)
    \<and> sup_turn tx cfg ActorConfig_default (Signal now \<lparr>child_id = ref_id (initial_refs h ! k), sig_reason = why\<rparr>)
        (task, fold (bump_env reg) ns1 env1) = Some (s2, env2)
    \<and> (\<forall>i < length names. generation (names ! i) (registries env1 reg) = 1
        \<and> generation (names ! i) (registries (fold (bump_env reg) ns1 env1) reg) = 2
        \<and> generation (names ! i) (registries (fold (bump_env reg) ns2 env2) reg)
          = (if i \<in> set (hit (strategy cfg) k (length names)) then 4 else 2)
        \<and> registry_get (names ! i) (registries env2 reg) = Some (current_refs s2 ! i)
        \<and> (i \<notin> set (hit (strategy cfg) k (length names)) \<longrightarrow> current_refs s2 ! i = initial_refs h ! i))"
proof -
  let ?cs = "map (\<lambda>n. (n, named_worker t n)) names"
  have cs: "distinct (map fst ?cs)" "k < length ?cs" "length ?cs \<le> 2 ^ 64" "set ns1 = fst ` set ?cs"
    using d k ns1(2) by (simp_all add: comp_def image_image)
  have R: "set (hit (strategy cfg) k (length names)) \<subseteq> {..<length names}" using k(1) by (cases "strategy cfg") auto
  have s: "start_supervisor t cfg names reg tx (new_registry reg env) = app_start (millis 50) ActorConfig_default cfg ?cs reg tx env"
    by (simp add: start_supervisor_def app_start_def Supervisor_new_def)
  have "set ns2 = (\<lambda>i. fst (?cs ! i)) ` set (hit (strategy cfg) k (length ?cs))"
    unfolding ns2(2) using R by (intro image_cong) auto
  from app_generations [OF cs(1-3) m _ now max ns1(1) cs(4) ns2(1) this, of ActorConfig_default]
  show ?thesis unfolding s by (simp add: ActorConfig_default_def)
qed

theorem supervised_generations_witness:
  "\<exists>h task env1 s2 env2. start_supervisor 0 demo_rest_for_one [''alpha'', ''beta'', ''gamma''] 0 0
        (new_registry 0 \<lparr>world = world_new (\<lambda>_. \<lparr>cap = 4, queue = [], rx_open = True\<rparr>), registries = (\<lambda>_. ChildRegistry_new), child_slots = (\<lambda>_. ChildSlot_new)\<rparr>)
      = Returns (Inr (h, task), env1)
    \<and> sup_turn 0 demo_rest_for_one ActorConfig_default (Signal 0 \<lparr>child_id = ref_id (initial_refs h ! 1), sig_reason = ''beta failed''\<rparr>)
        (task, fold (bump_env 0) [''gamma'', ''alpha'', ''beta''] env1) = Some (s2, env2)
    \<and> generation ''alpha'' (registries (fold (bump_env 0) [''gamma'', ''beta''] env2) 0) = 2
    \<and> generation ''beta'' (registries (fold (bump_env 0) [''gamma'', ''beta''] env2) 0) = 4
    \<and> generation ''gamma'' (registries (fold (bump_env 0) [''gamma'', ''beta''] env2) 0) = 4"
proof -
  have cfg: "sup_mailbox_capacity demo_rest_for_one \<noteq> 0" "instant_sub 0 (within_secs demo_rest_for_one) = Returns (- 60000000000)"
    "0 < max_restarts demo_rest_for_one" "strategy demo_rest_for_one = RestForOne"
    by (simp_all add: demo_rest_for_one_def SupervisorConfig_default_def instant_sub_def secs_def)
  have d: "distinct [''alpha'', ''beta'', ''gamma'']" "1 < length [''alpha'', ''beta'', ''gamma'']"
    "length [''alpha'', ''beta'', ''gamma''] \<le> 2 ^ 64" "distinct [''gamma'', ''alpha'', ''beta'']" "distinct [''gamma'', ''beta'']"
    "set [''gamma'', ''alpha'', ''beta''] = set [''alpha'', ''beta'', ''gamma'']"
    by auto
  have R: "hit (strategy demo_rest_for_one) 1 (length [''alpha'', ''beta'', ''gamma'']) = [1, 2]" by (simp add: cfg(4) upt_rec)
  have "set [''gamma'', ''beta''] = (!) [''alpha'', ''beta'', ''gamma''] ` set (hit (strategy demo_rest_for_one) 1 (length [''alpha'', ''beta'', ''gamma'']))"
    unfolding R by auto
  from supervised_generations [OF d(1-3) cfg(1-3) d(4,6,5) this, unfolded R, of 0 0 0
      "\<lparr>world = world_new (\<lambda>_. \<lparr>cap = 4, queue = [], rx_open = True\<rparr>), registries = (\<lambda>_. ChildRegistry_new), child_slots = (\<lambda>_. ChildSlot_new)\<rparr>" "''beta failed''"]
  show ?thesis by (auto simp: all_less_three)
qed

end
