(* ===== verification/Handlers.thy ===== *)
theory Handlers
  imports Actor
begin

text \<open>
  Handlers that wait. In \<open>Actor\<close> a callback is one function from state to state, because a runtime only
  sees when it returns. The handlers of the example programs send to other actors and await replies; here
  such a handler is a program whose every \<open>.await\<close> is a step, and a site is a set of actors running
  them under the contract of the runtime: one message at a time, mailboxes with a capacity, a handler
  that fails, panics or times out ends its actor. Reply channels obey ownership: a program can only use a
  sender it holds, a sender moves with the message that carries it, and one that is dropped makes the
  receiver's \<open>await\<close> fail.
\<close>

section \<open>Programs\<close>

datatype ('o, 'sh, 'm, 'v) prog =
    Return callback
  | Access "'o \<times> 'sh \<Rightarrow> ('o \<times> 'sh) \<times> ('o, 'sh, 'm, 'v) prog"   \<comment> \<open>the actor's fields, and shared state: \<open>lock().await\<close>\<close>
  | Local "'o \<times> 'sh \<Rightarrow> ('o \<times> 'sh) \<times> ('o, 'sh, 'm, 'v) prog"    \<comment> \<open>the same without an await\<close>
  | Tell ActorRef 'm "bool \<Rightarrow> ('o, 'sh, 'm, 'v) prog"           \<comment> \<open>\<open>actor.send(m).await\<close>\<close>
  | Oneshot "nat \<Rightarrow> ('o, 'sh, 'm, 'v) prog"                     \<comment> \<open>\<open>oneshot::channel()\<close>\<close>
  | Reply nat 'v "('o, 'sh, 'm, 'v) prog"                      \<comment> \<open>\<open>let _ = reply.send(v)\<close>\<close>
  | Await nat "'v option \<Rightarrow> ('o, 'sh, 'm, 'v) prog"             \<comment> \<open>\<open>rx.await\<close>\<close>
  | Sleep duration "('o, 'sh, 'm, 'v) prog"
  | Forever                                                    \<comment> \<open>\<open>pending().await\<close>\<close>

text \<open>A timeout can only drop a handler where it awaits.\<close>

fun at_await :: "('o, 'sh, 'm, 'v) prog \<Rightarrow> bool" where
  "at_await (Return _) = False"
| "at_await (Local _) = False"
| "at_await (Oneshot _) = False"
| "at_await (Reply _ _ _) = False"
| "at_await _ = True"

record ('o, 'sh, 'm, 'v) Code =
  begin_of :: "ActorId \<Rightarrow> 'm \<Rightarrow> 'o \<Rightarrow> 'o"                      \<comment> \<open>\<open>on_handle_begin\<close>\<close>
  handle_of :: "ActorId \<Rightarrow> 'm \<Rightarrow> ('o, 'sh, 'm, 'v) prog"       \<comment> \<open>\<open>handle\<close>\<close>
  stuck_of :: "ActorId \<Rightarrow> 'o \<times> 'sh \<Rightarrow> 'o \<times> 'sh"               \<comment> \<open>\<open>on_handle_stuck\<close>\<close>
  senders_of :: "'m \<Rightarrow> nat list"                              \<comment> \<open>the reply senders a message carries\<close>

section \<open>Sites\<close>

datatype 'v cell = Waiting | Sent 'v | Gone

record ('o, 'sh, 'm, 'v) Site =
  own :: "ActorId \<Rightarrow> 'o"
  shared :: 'sh
  boxes :: "ActorId \<Rightarrow> 'm chan option"
  runs :: "ActorId \<Rightarrow> (('o, 'sh, 'm, 'v) prog \<times> nat list) option"   \<comment> \<open>the handler in progress and the senders it holds\<close>
  oneshots :: "nat \<Rightarrow> 'v cell"
  next_chan :: nat

definition set_run :: "ActorId \<Rightarrow> (('o, 'sh, 'm, 'v) prog \<times> nat list) option \<Rightarrow> ('o, 'sh, 'm, 'v) Site \<Rightarrow> ('o, 'sh, 'm, 'v) Site" where
  "set_run i r s = s\<lparr>runs := (runs s)(i := r)\<rparr>"

definition set_box :: "ActorId \<Rightarrow> 'm chan \<Rightarrow> ('o, 'sh, 'm, 'v) Site \<Rightarrow> ('o, 'sh, 'm, 'v) Site" where
  "set_box i ch s = s\<lparr>boxes := (boxes s)(i \<mapsto> ch)\<rparr>"

text \<open>Senders going out of scope.\<close>

definition drop_senders :: "nat list \<Rightarrow> ('o, 'sh, 'm, 'v) Site \<Rightarrow> ('o, 'sh, 'm, 'v) Site" where
  "drop_senders cs s = s\<lparr>oneshots := (\<lambda>c. if c \<in> set cs \<and> oneshots s c = Waiting then Gone else oneshots s c)\<rparr>"

text \<open>The actor ends: its handler, its mailbox and what they hold are dropped.\<close>

definition end_actor :: "('o, 'sh, 'm, 'v) Code \<Rightarrow> ActorId \<Rightarrow> ('o, 'sh, 'm, 'v) Site \<Rightarrow> ('o, 'sh, 'm, 'v) Site" where
  "end_actor code i s =
     (let held = (case runs s i of Some (_, hs) \<Rightarrow> hs | None \<Rightarrow> []);
          queued = (case boxes s i of Some ch \<Rightarrow> concat (map (senders_of code) (queue ch)) | None \<Rightarrow> [])
      in drop_senders (held @ queued)
           (s\<lparr>runs := (runs s)(i := None), boxes := (boxes s)(i := map_option close (boxes s i))\<rparr>))"

datatype event = Handler ActorId | Timeout ActorId | Client

inductive site_step ::
  "('o, 'sh, 'm, 'v) Code \<Rightarrow> event \<Rightarrow> ('o, 'sh, 'm, 'v) Site \<Rightarrow> ('o, 'sh, 'm, 'v) Site \<Rightarrow> bool" for code where
  take: "runs s i = None \<Longrightarrow> boxes s i = Some ch \<Longrightarrow> queue ch = m # q \<Longrightarrow>
     site_step code (Handler i) s (set_run i (Some (handle_of code i m, senders_of code m))
       (set_box i (ch\<lparr>queue := q\<rparr>) (s\<lparr>own := (own s)(i := begin_of code i m (own s i))\<rparr>)))"
| access: "runs s i = Some (Access f, hs) \<Longrightarrow> f (own s i, shared s) = ((o', sh'), p) \<Longrightarrow>
     site_step code (Handler i) s (set_run i (Some (p, hs)) (s\<lparr>own := (own s)(i := o'), shared := sh'\<rparr>))"
| local: "runs s i = Some (Local f, hs) \<Longrightarrow> f (own s i, shared s) = ((o', sh'), p) \<Longrightarrow>
     site_step code (Handler i) s (set_run i (Some (p, hs)) (s\<lparr>own := (own s)(i := o'), shared := sh'\<rparr>))"
| tell: "runs s i = Some (Tell r m k, hs) \<Longrightarrow> set (senders_of code m) \<subseteq> set hs \<Longrightarrow> boxes s (ref_id r) = Some ch \<Longrightarrow>
     chan_send m ch = Some (True, ch') \<Longrightarrow>
     site_step code (Handler i) s (set_run i (Some (k True, filter (\<lambda>c. c \<notin> set (senders_of code m)) hs)) (set_box (ref_id r) ch' s))"
| tell_closed: "runs s i = Some (Tell r m k, hs) \<Longrightarrow> set (senders_of code m) \<subseteq> set hs \<Longrightarrow>
     (case boxes s (ref_id r) of None \<Rightarrow> True | Some ch \<Rightarrow> \<not> rx_open ch) \<Longrightarrow>
     site_step code (Handler i) s (drop_senders (senders_of code m)
       (set_run i (Some (k False, filter (\<lambda>c. c \<notin> set (senders_of code m)) hs)) s))"
| oneshot: "runs s i = Some (Oneshot k, hs) \<Longrightarrow>
     site_step code (Handler i) s (set_run i (Some (k (next_chan s), next_chan s # hs))
       (s\<lparr>oneshots := (oneshots s)(next_chan s := Waiting), next_chan := Suc (next_chan s)\<rparr>))"
| reply: "runs s i = Some (Reply c v p, hs) \<Longrightarrow> c \<in> set hs \<Longrightarrow>
     site_step code (Handler i) s (set_run i (Some (p, filter (\<lambda>d. d \<noteq> c) hs)) (s\<lparr>oneshots := (oneshots s)(c := Sent v)\<rparr>))"
| await: "runs s i = Some (Await c k, hs) \<Longrightarrow> oneshots s c \<noteq> Waiting \<Longrightarrow>
     site_step code (Handler i) s (set_run i (Some (k (case oneshots s c of Sent v \<Rightarrow> Some v | _ \<Rightarrow> None), hs)) s)"
| sleep: "runs s i = Some (Sleep d p, hs) \<Longrightarrow> site_step code (Handler i) s (set_run i (Some (p, hs)) s)"
| finish: "runs s i = Some (Return CbOk, hs) \<Longrightarrow> site_step code (Handler i) s (drop_senders hs (set_run i None s))"
| fails: "runs s i = Some (Return r, hs) \<Longrightarrow> r \<noteq> CbOk \<Longrightarrow> site_step code (Handler i) s (end_actor code i s)"
| timeout: "runs s i = Some (p, hs) \<Longrightarrow> at_await p \<Longrightarrow> stuck_of code i (own s i, shared s) = (o', sh') \<Longrightarrow>
     site_step code (Timeout i) s (end_actor code i (s\<lparr>own := (own s)(i := o'), shared := sh'\<rparr>))"
| client: "boxes s i = Some ch \<Longrightarrow> chan_send m ch = Some (True, ch') \<Longrightarrow> distinct (senders_of code m) \<Longrightarrow>
     \<forall>c \<in> set (senders_of code m). next_chan s \<le> c \<and> c < n \<Longrightarrow> next_chan s \<le> n \<Longrightarrow>
     site_step code Client s (set_box i ch' (s\<lparr>next_chan := n,
       oneshots := (\<lambda>c. if c \<in> set (senders_of code m) then Waiting else oneshots s c)\<rparr>))"

text \<open>Runs in which an actor does not time out.\<close>

definition patient_step :: "('o, 'sh, 'm, 'v) Code \<Rightarrow> ActorId set \<Rightarrow> ('o, 'sh, 'm, 'v) Site \<Rightarrow> ('o, 'sh, 'm, 'v) Site \<Rightarrow> bool" where
  "patient_step code A s s' \<longleftrightarrow> (\<exists>e. site_step code e s s' \<and> (\<forall>i \<in> A. e \<noteq> Timeout i))"

section \<open>Ownership of reply channels\<close>

text \<open>The senders an actor holds: in its handler, and in the messages of its mailbox.\<close>

definition run_senders :: "('o, 'sh, 'm, 'v) Site \<Rightarrow> ActorId \<Rightarrow> nat list" where
  "run_senders s i = (case runs s i of Some (_, hs) \<Rightarrow> hs | None \<Rightarrow> [])"

definition box_senders :: "('o, 'sh, 'm, 'v) Code \<Rightarrow> ('o, 'sh, 'm, 'v) Site \<Rightarrow> ActorId \<Rightarrow> nat list" where
  "box_senders code s i = (case boxes s i of Some ch \<Rightarrow> concat (map (senders_of code) (queue ch)) | None \<Rightarrow> [])"

definition held :: "('o, 'sh, 'm, 'v) Code \<Rightarrow> ('o, 'sh, 'm, 'v) Site \<Rightarrow> ActorId \<Rightarrow> nat list" where
  "held code s i = run_senders s i @ box_senders code s i"

text \<open>No sender that is not made yet is held; one whose receiver still waits is held by actors of \<open>A\<close> only.\<close>

definition site_ok :: "('o, 'sh, 'm, 'v) Code \<Rightarrow> ('o, 'sh, 'm, 'v) Site \<Rightarrow> bool" where
  "site_ok code s \<longleftrightarrow> (\<forall>i. \<forall>c \<in> set (held code s i). c < next_chan s)"

definition confined :: "('o, 'sh, 'm, 'v) Code \<Rightarrow> ActorId set \<Rightarrow> nat \<Rightarrow> ('o, 'sh, 'm, 'v) Site \<Rightarrow> bool" where
  "confined code A c s \<longleftrightarrow> (\<forall>j. j \<notin> A \<longrightarrow> c \<notin> set (held code s j)) \<and> c < next_chan s \<and> oneshots s c = Waiting"

lemma end_actor_eq:
  "end_actor code i s = drop_senders (held code s i) (s\<lparr>runs := (runs s)(i := None), boxes := (boxes s)(i := map_option close (boxes s i))\<rparr>)"
  by (simp add: end_actor_def held_def run_senders_def box_senders_def)

lemma senders_drop [simp]:
  "run_senders (drop_senders cs s) = run_senders s" "box_senders code (drop_senders cs s) = box_senders code s"
  "next_chan (drop_senders cs s) = next_chan s" "own (drop_senders cs s) = own s" "runs (drop_senders cs s) = runs s"
  "boxes (drop_senders cs s) = boxes s" "shared (drop_senders cs s) = shared s"
  by (simp_all add: drop_senders_def run_senders_def box_senders_def fun_eq_iff)

lemma chan_send_queue: "chan_send m ch = Some (True, ch') \<Longrightarrow> queue ch' = queue ch @ [m] \<and> rx_open ch' = rx_open ch \<and> rx_open ch"
  by (auto simp: chan_send_def split: if_splits)

lemma closed_senders [simp]:
  "(case map_option close x of Some ch \<Rightarrow> concat (map (senders_of code) (queue ch)) | None \<Rightarrow> []) = []"
  by (cases x) (simp_all add: close_def)

lemma closed_queue: "Some u = map_option close x \<Longrightarrow> queue u = []"
  by (cases x) (simp_all add: close_def)

lemma box_senders_only [simp]:
  "box_senders code (s\<lparr>own := a\<rparr>) i = box_senders code s i" "box_senders code (s\<lparr>shared := b\<rparr>) i = box_senders code s i"
  "run_senders (s\<lparr>own := a\<rparr>) i = run_senders s i" "run_senders (s\<lparr>shared := b\<rparr>) i = run_senders s i"
  by (simp_all add: box_senders_def run_senders_def)

lemma confinedD:
  assumes "confined code A c s" and "j \<notin> A"
  shows "runs s j = Some (p, hs) \<Longrightarrow> c \<notin> set hs" and "c \<notin> set (box_senders code s j)" and "c \<notin> set (run_senders s j)"
  using assms by (auto simp: confined_def held_def run_senders_def)

text \<open>What a step does to the senders an actor holds.\<close>

lemma held_step:
  assumes "site_step code e s s'"
  shows "set (held code s' i) \<subseteq> set (held code s i) \<union> {c. next_chan s \<le> c \<and> c < next_chan s'}
    \<union> (case e of Handler j \<Rightarrow> (case runs s j of Some (Tell r m k, _) \<Rightarrow> if ref_id r = i then set (senders_of code m) \<inter> set (held code s j) else {} | _ \<Rightarrow> {})
       | _ \<Rightarrow> {})"
    and "next_chan s \<le> next_chan s'"
  using assms
  by (induction rule: site_step.induct)
    (auto simp: held_def run_senders_def box_senders_def set_run_def set_box_def end_actor_eq dest!: chan_send_queue closed_queue split: option.splits)

lemma site_ok_step: "site_step code e s s' \<Longrightarrow> site_ok code s \<Longrightarrow> site_ok code s'"
  using held_step [of code e s s'] unfolding site_ok_def
  by (fastforce split: event.splits option.splits prod.splits prog.splits if_splits)

text \<open>What an actor has while others run.\<close>

lemma others_step:
  assumes "site_step code e s s'" and "e \<noteq> Handler i" and "e \<noteq> Timeout i"
  shows "runs s' i = runs s i" and "own s' i = own s i"
    and "boxes s i = Some b \<Longrightarrow> rx_open b \<Longrightarrow> \<exists>b'. boxes s' i = Some b' \<and> rx_open b'"
  using assms
  by (induction rule: site_step.induct)
    (auto simp: set_run_def set_box_def end_actor_eq dest!: chan_send_queue)

lemma others_box:
  assumes "site_step code e s s'" and "e \<noteq> Handler i" and "e \<noteq> Timeout i"
  shows "set (box_senders code s i) \<subseteq> set (box_senders code s' i)"
  using assms
  by (induction rule: site_step.induct)
    (auto simp: box_senders_def set_run_def set_box_def end_actor_eq dest!: chan_send_queue split: option.splits)

definition others :: "ActorId set \<Rightarrow> event \<Rightarrow> bool" where
  "others A e \<longleftrightarrow> (\<forall>i \<in> A. e \<noteq> Handler i \<and> e \<noteq> Timeout i)"

lemma othersD [dest]: "others A (Handler j) \<Longrightarrow> j \<notin> A" "others A (Timeout j) \<Longrightarrow> j \<notin> A"
  by (auto simp: others_def)

lemma others_oneshot:
  assumes st: "site_step code e s s'" and e: "others A e" and c: "confined code A c s"
  shows "oneshots s' c = Waiting"
proof -
  have w: "c < next_chan s" "oneshots s c = Waiting" using c by (simp_all add: confined_def)
  note d = confinedD [OF c]
  from st e show ?thesis
  proof (cases rule: site_step.cases)
    case (tell_closed j r m k hs)
    then show ?thesis using w d(1) [of j] e by (auto simp: drop_senders_def set_run_def)
  next
    case (timeout j p hs o' sh')
    then show ?thesis using w d(2,3) [of j] e by (auto simp: drop_senders_def end_actor_eq held_def)
  next
    case (fails j r hs)
    then show ?thesis using w d(2,3) [of j] e by (auto simp: drop_senders_def end_actor_eq held_def)
  next
    case (finish j hs)
    then show ?thesis using w d(1) [of j] e by (auto simp: drop_senders_def set_run_def)
  next
    case (reply j c' v p hs)
    then show ?thesis using w d(1) [of j] e by (auto simp: set_run_def)
  qed (use w in \<open>auto simp: set_run_def set_box_def\<close>)
qed

text \<open>A sender stays with its actors unless one of them sends it away.\<close>

lemma others_confined:
  assumes st: "site_step code e s s'" and e: "others A e" and c: "confined code A c s"
  shows "confined code A c s'"
  unfolding confined_def
proof (intro conjI allI impI)
  show "oneshots s' c = Waiting" by (rule others_oneshot [OF st e c])
  show "c < next_chan s'" using held_step(2) [OF st] c by (simp add: confined_def)
  fix j assume j: "j \<notin> A"
  have "c \<notin> set (held code s k)" if "k \<notin> A" for k using c that by (simp add: confined_def)
  moreover have "\<not> next_chan s \<le> c" using c by (simp add: confined_def)
  ultimately show "c \<notin> set (held code s' j)"
    using held_step(1) [OF st, of j] j e by (fastforce split: event.splits option.splits prod.splits prog.splits if_splits)
qed

section \<open>Deadlocks\<close>

text \<open>A handler that asks another actor: a reply channel, the request, and the wait.\<close>

definition ask :: "ActorRef \<Rightarrow> (nat \<Rightarrow> 'm) \<Rightarrow> (nat \<Rightarrow> 'v option \<Rightarrow> ('o, 'sh, 'm, 'v) prog) \<Rightarrow> ('o, 'sh, 'm, 'v) prog \<Rightarrow>
    ('o, 'sh, 'm, 'v) prog" where
  "ask r mk k err = Oneshot (\<lambda>tx. Tell r (mk tx) (\<lambda>ok. if ok then Await tx (k tx) else err))"

text \<open>Actor \<open>i\<close> is in a handler and owes the reply \<open>ch\<close>: the handler waits forever, or is the one of \<open>j = i\<close>
  that asks. Actor \<open>j\<close> asks \<open>i\<close>: it is about to, has a channel, or waits while its request is queued.\<close>

definition busy :: "('o, 'sh, 'm, 'v) Code \<Rightarrow> ActorId \<Rightarrow> ActorId \<Rightarrow> nat \<Rightarrow> ('o, 'sh, 'm, 'v) Site \<Rightarrow> bool" where
  "busy code i j ch s \<longleftrightarrow>
     site_ok code s \<and> confined code {i, j} ch s \<and> ch \<in> set (run_senders s i) \<and>
     (\<exists>b. boxes s i = Some b \<and> rx_open b) \<and> (i \<noteq> j \<longrightarrow> (\<exists>hs. runs s i = Some (Forever, hs)))"

definition asks :: "('o, 'sh, 'm, 'v) Code \<Rightarrow> ActorId \<Rightarrow> ActorId \<Rightarrow> nat \<Rightarrow> (nat \<Rightarrow> 'm) \<Rightarrow>
    (nat \<Rightarrow> 'v option \<Rightarrow> ('o, 'sh, 'm, 'v) prog) \<Rightarrow> ('o, 'sh, 'm, 'v) prog \<Rightarrow> ('o, 'sh, 'm, 'v) Site \<Rightarrow> bool" where
  "asks code i j ch mk k err s \<longleftrightarrow>
     (\<exists>hs. runs s j = Some (ask \<lparr>ref_id = i\<rparr> mk k err, hs)) \<or>
     (\<exists>tx hs. tx \<noteq> ch \<and> confined code {i, j} tx s \<and>
        (runs s j = Some (Tell \<lparr>ref_id = i\<rparr> (mk tx) (\<lambda>ok. if ok then Await tx (k tx) else err), hs) \<and> tx \<in> set hs \<or>
         runs s j = Some (Await tx (k tx), hs) \<and> tx \<in> set (box_senders code s i)))"

lemma busy_others:
  assumes b: "busy code i j ch s" and st: "site_step code e s s'" and e: "others {i, j} e"
  shows "busy code i j ch s'"
proof -
  have o: "e \<noteq> Handler i" "e \<noteq> Timeout i" using e by (auto simp: others_def)
  have "runs s' i = runs s i" "run_senders s' i = run_senders s i"
    using others_step(1) [OF st o] by (simp_all add: run_senders_def)
  moreover have "\<exists>b. boxes s' i = Some b \<and> rx_open b" using b others_step(3) [OF st o] by (auto simp: busy_def)
  ultimately show ?thesis using b others_confined [OF st e] site_ok_step [OF st] by (simp add: busy_def)
qed

lemma asks_others:
  assumes b: "asks code i j ch mk k err s" and st: "site_step code e s s'" and e: "others {i, j} e"
  shows "asks code i j ch mk k err s'"
proof -
  have o: "e \<noteq> Handler i" "e \<noteq> Timeout i" "e \<noteq> Handler j" "e \<noteq> Timeout j" using e by (auto simp: others_def)
  have r: "runs s' j = runs s j" by (rule others_step(1) [OF st o(3,4)])
  show ?thesis
    using b others_box [OF st o(1,2)] others_confined [OF st e] unfolding asks_def r by (meson subsetD)
qed

text \<open>The asking handler's own steps.\<close>

lemma held_fresh:
  "x \<noteq> j \<Longrightarrow> held code (set_run j r (s\<lparr>oneshots := f, next_chan := n\<rparr>)) x = held code s x"
  by (simp add: held_def run_senders_def box_senders_def set_run_def)

lemma confined_fresh:
  assumes "site_ok code s"
  shows "confined code {i, j} (next_chan s)
    (set_run j r (s\<lparr>oneshots := (oneshots s)(next_chan s := Waiting), next_chan := Suc (next_chan s)\<rparr>))"
proof -
  have "next_chan s \<notin> set (held code s x)" for x using assms by (auto simp: site_ok_def)
  then show ?thesis by (simp add: confined_def held_fresh set_run_def [THEN arg_cong [of _ _ next_chan]] set_run_def [THEN arg_cong [of _ _ oneshots]])
qed

lemma confined_kept:
  assumes "confined code {i, j} c s"
  shows "confined code {i, j} c (set_run j r (set_box i b s))"
    and "confined code {i, j} c (set_run j r (s\<lparr>oneshots := (oneshots s)(next_chan s := Waiting), next_chan := Suc (next_chan s)\<rparr>))"
  using assms by (simp_all add: confined_def held_def run_senders_def box_senders_def set_run_def set_box_def)

lemma tell_open:
  assumes "site_step code (Handler j) s s'" and "runs s j = Some (Tell r m k, hs)" and "boxes s (ref_id r) = Some c0" and "rx_open c0"
  shows "\<exists>c1. chan_send m c0 = Some (True, c1) \<and>
    s' = set_run j (Some (k True, filter (\<lambda>c. c \<notin> set (senders_of code m)) hs)) (set_box (ref_id r) c1 s)"
  using assms by (cases rule: site_step.cases) auto

lemma asks_own:
  assumes b: "busy code i j ch s" "asks code i j ch mk k err s" and mk: "\<And>tx. senders_of code (mk tx) = [tx]"
    and st: "site_step code (Handler j) s s'"
  shows "busy code i j ch s' \<and> asks code i j ch mk k err s' \<and> own s' i = own s i"
proof -
  have ok: "site_ok code s'" using site_ok_step [OF st] b by (simp add: busy_def)
  consider hs where "runs s j = Some (ask \<lparr>ref_id = i\<rparr> mk k err, hs)"
    | tx hs where "runs s j = Some (Tell \<lparr>ref_id = i\<rparr> (mk tx) (\<lambda>ok. if ok then Await tx (k tx) else err), hs)"
        "tx \<noteq> ch" "confined code {i, j} tx s"
    | tx hs where "runs s j = Some (Await tx (k tx), hs)" "confined code {i, j} tx s"
    using b by (auto simp: asks_def)
  then show ?thesis
  proof cases
    case 1
    let ?n = "next_chan s"
    have s': "s' = set_run j (Some (Tell \<lparr>ref_id = i\<rparr> (mk ?n) (\<lambda>ok. if ok then Await ?n (k ?n) else err), ?n # hs))
        (s\<lparr>oneshots := (oneshots s)(?n := Waiting), next_chan := Suc ?n\<rparr>)"
      using st 1 by (auto elim!: site_step.cases simp: ask_def)
    have cs: "site_ok code s" "confined code {i, j} ch s" using b by (simp_all add: busy_def)
    have "confined code {i, j} ?n s'" "confined code {i, j} ch s'"
      unfolding s' by (rule confined_fresh [OF cs(1)], rule confined_kept(2) [OF cs(2)])
    moreover have "?n \<noteq> ch" using cs(2) by (auto simp: confined_def)
    moreover have "runs s' j = Some (Tell \<lparr>ref_id = i\<rparr> (mk ?n) (\<lambda>ok. if ok then Await ?n (k ?n) else err), ?n # hs)"
      "boxes s' i = boxes s i" by (simp_all add: s' set_run_def)
    moreover have "ch \<in> set (run_senders s' i)" "i \<noteq> j \<longrightarrow> (\<exists>hs. runs s' i = Some (Forever, hs))"
      using b(1) 1 by (auto simp: s' run_senders_def set_run_def busy_def)
    moreover have "own s' i = own s i" by (simp add: s' set_run_def)
    ultimately show ?thesis using ok b(1) unfolding busy_def asks_def by (metis list.set_intros(1))
  next
    case 2
    obtain c0 where c0: "boxes s i = Some c0" "rx_open c0" using b(1) by (auto simp: busy_def)
    obtain c1 where s': "s' = set_run j (Some (Await tx (k tx), filter (\<lambda>c. c \<noteq> tx) hs)) (set_box i c1 s)"
      and c: "chan_send (mk tx) c0 = Some (True, c1)"
      using tell_open [OF st 2(1)] c0 mk by auto
    have cs: "confined code {i, j} ch s" using b by (simp add: busy_def)
    have "confined code {i, j} tx s'" "confined code {i, j} ch s'"
      unfolding s' by (rule confined_kept(1) [OF 2(3)], rule confined_kept(1) [OF cs])
    moreover have "tx \<in> set (box_senders code s' i)" "\<exists>b. boxes s' i = Some b \<and> rx_open b"
      using chan_send_queue [OF c] c0 mk by (auto simp: s' box_senders_def set_run_def set_box_def)
    moreover have "ch \<in> set (run_senders s' i)" "i \<noteq> j \<longrightarrow> (\<exists>hs. runs s' i = Some (Forever, hs))"
      using b(1) 2(1,2) by (auto simp: s' run_senders_def set_run_def set_box_def busy_def)
    moreover have "runs s' j = Some (Await tx (k tx), filter (\<lambda>c. c \<noteq> tx) hs)" by (simp add: s' set_run_def)
    moreover have "own s' i = own s i" by (simp add: s' set_run_def set_box_def)
    ultimately show ?thesis using ok 2(2) unfolding busy_def asks_def by blast
  next
    case 3
    then show ?thesis using st by (auto elim!: site_step.cases simp: confined_def)
  qed
qed

lemma deadlock_step:
  assumes b: "busy code i j ch s" "asks code i j ch mk k err s" and mk: "\<And>tx. senders_of code (mk tx) = [tx]"
    and st: "patient_step code {i, j} s s'"
  shows "busy code i j ch s' \<and> asks code i j ch mk k err s' \<and> own s' i = own s i"
proof -
  obtain e where e: "site_step code e s s'" "e \<noteq> Timeout i" "e \<noteq> Timeout j" using st by (auto simp: patient_step_def)
  consider "e = Handler j" | "e = Handler i" "i \<noteq> j" | "others {i, j} e" using e(2,3) by (auto simp: others_def)
  then show ?thesis
  proof cases
    case 1
    then show ?thesis using asks_own [OF b mk] e(1) by simp
  next
    case 2
    then have False using e(1) b(1) by (auto elim!: site_step.cases simp: busy_def)
    then show ?thesis ..
  next
    case 3
    then show ?thesis using busy_others [OF b(1) e(1)] asks_others [OF b(2) e(1)] others_step(2) [OF e(1)] e(2) by (auto simp: others_def)
  qed
qed

text \<open>Neither actor leaves its handler and the owed reply is not sent, as long as neither times out; the
  timeout of \<open>i\<close> drops the reply's sender, so that who waits for it learns, and gives \<open>j\<close> a step.\<close>

lemma deadlock:
  assumes "busy code i j ch s" "asks code i j ch mk k err s" and mk: "\<And>tx. senders_of code (mk tx) = [tx]"
    and "(patient_step code {i, j})\<^sup>*\<^sup>* s s'"
  shows "busy code i j ch s' \<and> asks code i j ch mk k err s' \<and> own s' i = own s i"
  using assms(4,1,2) by (induction rule: rtranclp_induct) (auto dest: deadlock_step [OF _ _ mk])

lemma deadlock_broken:
  assumes b: "busy code i j ch s" "asks code i j ch mk k err s" and mk: "\<And>tx. senders_of code (mk tx) = [tx]"
    and st: "site_step code (Timeout i) s s'"
  shows "runs s' i = None" and "oneshots s' ch = Gone" and "i \<noteq> j \<Longrightarrow> \<exists>s''. site_step code (Handler j) s' s''"
proof -
  obtain o' sh' where s': "s' = end_actor code i (s\<lparr>own := (own s)(i := o'), shared := sh'\<rparr>)"
    using st by (auto elim!: site_step.cases)
  have gone: "c \<in> set (held code s i) \<Longrightarrow> oneshots s' c \<noteq> Waiting" for c
    by (simp add: s' end_actor_eq drop_senders_def held_def)
  show "runs s' i = None" by (simp add: s' end_actor_eq)
  show "oneshots s' ch = Gone" using b(1) by (simp add: s' end_actor_eq drop_senders_def held_def busy_def confined_def)
  assume ij: "i \<noteq> j"
  then have r: "runs s' j = runs s j" by (simp add: s' end_actor_eq)
  have closed: "\<exists>b. boxes s' i = Some b \<and> \<not> rx_open b" using b(1) by (auto simp: s' end_actor_eq busy_def close_def)
  show "\<exists>s''. site_step code (Handler j) s' s''"
    using b(2) unfolding asks_def
  proof (elim disjE exE conjE)
    fix hs assume "runs s j = Some (ask \<lparr>ref_id = i\<rparr> mk k err, hs)"
    then show ?thesis using site_step.oneshot [of s' j] unfolding r ask_def by blast
  next
    fix tx hs assume "runs s j = Some (Tell \<lparr>ref_id = i\<rparr> (mk tx) (\<lambda>ok. if ok then Await tx (k tx) else err), hs)" "tx \<in> set hs"
    then show ?thesis using closed unfolding r [symmetric]
      by (intro exI) (rule site_step.tell_closed, auto simp: mk)
  next
    fix tx hs assume "runs s j = Some (Await tx (k tx), hs)" "tx \<in> set (box_senders code s i)"
    then show ?thesis using site_step.await [of s' j tx "k tx" hs code] gone [of tx] unfolding r by (auto simp: held_def)
  qed
qed

text \<open>A busy actor can move on or be timed out.\<close>

lemma timeout_enabled: "runs s i = Some (p, hs) \<Longrightarrow> at_await p \<Longrightarrow> \<exists>s'. site_step code (Timeout i) s s'"
  by (cases "stuck_of code i (own s i, shared s)") (blast intro: site_step.timeout)

lemma busy_moves:
  assumes b: "busy code i j ch s" "asks code i j ch mk k err s"
  shows "(\<exists>s'. site_step code (Timeout i) s s') \<or> (\<exists>s'. site_step code (Handler i) s s')"
proof (cases "i = j")
  case True
  consider hs where "runs s i = Some (ask \<lparr>ref_id = i\<rparr> mk k err, hs)" | p hs where "runs s i = Some (p, hs)" "at_await p"
    using b(2) True unfolding asks_def by fastforce
  then show ?thesis
  proof cases
    case 1
    then show ?thesis using site_step.oneshot [of s i] unfolding ask_def by blast
  next
    case 2
    then show ?thesis using timeout_enabled [of s i] by blast
  qed
next
  case False
  then obtain hs where "runs s i = Some (Forever, hs)" using b(1) by (auto simp: busy_def)
  then show ?thesis using timeout_enabled [of s i Forever hs] by simp
qed

end
