(* ===== verification/Timeout_Calculator.thy ===== *)
theory Timeout_Calculator
  imports Handlers Child_Registry Float_Ops
begin

text \<open>
  \<open>examples/handle_timeout_calculator_timer.rs\<close>: a calculator, a timer and a ledger under one RestForOne
  supervisor with a handle timeout. The calculator notes the inputs of the message it handles in
  \<open>pending\<close>; when the timeout drops a handler, \<open>on_handle_stuck\<close> moves them into a journal all instances
  share. Two messages provoke deadlocks on purpose: the calculator waits for itself, or for a ledger that
  waits for the calculator. The handlers are programs in the sense of \<open>Handlers\<close>.
\<close>

section \<open>Messages and state\<close>

definition HANDLE_TIMEOUT :: duration where
  "HANDLE_TIMEOUT = millis 150"

datatype 'f AppMsg =
    Add 'f 'f nat
  | SlowDiv 'f 'f u64 nat
  | Ping nat
  | SelfDeadlockProbe nat
  | CrossDeadlockProbe 'f nat
  | LedgerFetch nat
  | LastResult nat
  | StuckJournal nat
  | TimerStart ActorRef
  | TimerTick

datatype 'f StuckAction = StuckAdd 'f 'f | StuckSlowDiv 'f 'f u64 | StuckSelfDeadlock | StuckCrossDeadlock 'f

fun from_msg :: "'f AppMsg \<Rightarrow> 'f StuckAction option" where
  "from_msg (Add a b _) = Some (StuckAdd a b)"
| "from_msg (SlowDiv a b delay_ms _) = Some (StuckSlowDiv a b delay_ms)"
| "from_msg (SelfDeadlockProbe _) = Some StuckSelfDeadlock"
| "from_msg (CrossDeadlockProbe amount _) = Some (StuckCrossDeadlock amount)"
| "from_msg _ = None"

fun stuck_label :: "'f float_ops \<Rightarrow> 'f StuckAction \<Rightarrow> string" where
  "stuck_label fl (StuckAdd a b) = ''add '' @ show_float fl a @ '' + '' @ show_float fl b"
| "stuck_label fl (StuckSlowDiv a b delay_ms) =
     ''slow_div '' @ show_float fl a @ '' / '' @ show_float fl b @ '' (delay '' @ show_nat (unat delay_ms) @ ''ms)''"
| "stuck_label fl StuckSelfDeadlock = ''self_deadlock_probe''"
| "stuck_label fl (StuckCrossDeadlock amount) = ''cross_deadlock_probe amount='' @ show_float fl amount"

datatype 'f reply =
    Result "string + 'f" | Unit | Probe "string + unit" | Last "'f option" | Journal "'f StuckAction list"

record 'f SharedState =
  last_result :: "'f option"
  stuck_actions :: "'f StuckAction list"

definition SharedState_default :: "'f SharedState" where
  "SharedState_default = \<lparr>last_result = None, stuck_actions = []\<rparr>"

text \<open>The fields of the three kinds of actors; what they share is behind their \<open>Arc\<close>s: the state, the
  registry of children, and the ticks that spawned tasks will send.\<close>

record 'f Calculator =
  pending :: "'f StuckAction option"

record ResultTimer =
  self_ref :: "ActorRef option"
  interval :: duration
  running :: bool

datatype 'f Child = CalculatorChild "'f Calculator" | TimerChild ResultTimer | LedgerChild

record 'f Shared =
  state :: "'f SharedState"
  registry :: "string ChildRegistry"
  ticks :: "(ActorRef \<times> duration) list"

type_synonym 'f app_prog = "('f Child, 'f Shared, 'f AppMsg, 'f reply) prog"

section \<open>The calculator\<close>

definition log_generation :: "string \<Rightarrow> 'f Shared \<Rightarrow> 'f Shared" where
  "log_generation n sh = sh\<lparr>registry := bump_generation n (registry sh)\<rparr>"

definition set_pending :: "'f StuckAction option \<Rightarrow> 'f Child \<Rightarrow> 'f Child" where
  "set_pending a o' = (case o' of CalculatorChild c \<Rightarrow> CalculatorChild (c\<lparr>pending := a\<rparr>) | _ \<Rightarrow> o')"

definition pending_of :: "'f Child \<Rightarrow> 'f StuckAction option" where
  "pending_of o' = (case o' of CalculatorChild c \<Rightarrow> pending c | _ \<Rightarrow> None)"

definition calculator_pre_start :: "'f Child \<times> 'f Shared \<Rightarrow> 'f Child \<times> 'f Shared" where
  "calculator_pre_start = (\<lambda>(o', sh). (set_pending None o', log_generation ''calculator'' sh))"

definition calculator_begin :: "'f AppMsg \<Rightarrow> 'f Child \<Rightarrow> 'f Child" where
  "calculator_begin m o' = set_pending (from_msg m) o'"

definition push_stuck :: "'f StuckAction \<Rightarrow> 'f Shared \<Rightarrow> 'f Shared" where
  "push_stuck a sh = sh\<lparr>state := (state sh)\<lparr>stuck_actions := stuck_actions (state sh) @ [a]\<rparr>\<rparr>"

definition calculator_stuck :: "'f Child \<times> 'f Shared \<Rightarrow> 'f Child \<times> 'f Shared" where
  "calculator_stuck = (\<lambda>(o', sh).
     (set_pending None o', case pending_of o' of Some a \<Rightarrow> push_stuck a sh | None \<Rightarrow> sh))"

text \<open>Storing a result under the lock, then clearing \<open>pending\<close> and answering.\<close>

definition store_result :: "'f \<Rightarrow> nat \<Rightarrow> 'f app_prog" where
  "store_result v ch =
     Access (\<lambda>(o', sh). ((set_pending None o', sh\<lparr>state := (state sh)\<lparr>last_result := Some v\<rparr>\<rparr>),
       Reply ch (Result (Inr v)) (Return CbOk)))"

definition self_probe :: "ActorRef \<Rightarrow> nat \<Rightarrow> 'f app_prog" where
  "self_probe calc ch =
     Oneshot (\<lambda>tx. Tell calc (Ping tx) (\<lambda>ok.
       if ok then Await tx (\<lambda>v. Reply ch (Probe (case v of Some _ \<Rightarrow> Inr () | None \<Rightarrow> Inl ''ping dropped'')) (Return CbOk))
       else Return (CbErr ''channel closed'')))"

definition cross_probe :: "ActorRef \<Rightarrow> 'f app_prog" where
  "cross_probe ledger =
     Oneshot (\<lambda>tx. Tell ledger (LedgerFetch tx) (\<lambda>ok. if ok then Forever else Return (CbErr ''channel closed'')))"

fun calculator_handle :: "'f float_ops \<Rightarrow> 'f AppMsg \<Rightarrow> 'f app_prog" where
  "calculator_handle fl (Add a b ch) = store_result (fadd fl a b) ch"
| "calculator_handle fl (SlowDiv a b delay_ms ch) =
     Sleep (millis (unat delay_ms))
       (if is_zero fl b then Return (CbErr ''division by zero'') else store_result (fdiv fl a b) ch)"
| "calculator_handle fl (Ping ch) = Reply ch Unit (Return CbOk)"
| "calculator_handle fl (SelfDeadlockProbe ch) =
     Access (\<lambda>(o', sh). ((o', sh),
       case registry_get ''calculator'' (registry sh) of
         Some calc \<Rightarrow> self_probe calc ch
       | None \<Rightarrow> Return (CbErr ''calculator ref missing'')))"
| "calculator_handle fl (CrossDeadlockProbe _ ch) =
     Access (\<lambda>(o', sh). ((o', sh),
       case registry_get ''ledger'' (registry sh) of
         Some ledger \<Rightarrow> cross_probe ledger
       | None \<Rightarrow> Return (CbErr ''ledger ref missing'')))"
| "calculator_handle fl (LastResult ch) =
     Access (\<lambda>(o', sh). ((o', sh), Reply ch (Last (last_result (state sh))) (Return CbOk)))"
| "calculator_handle fl (StuckJournal ch) =
     Access (\<lambda>(o', sh). ((o', sh), Reply ch (Journal (stuck_actions (state sh))) (Return CbOk)))"
| "calculator_handle fl (LedgerFetch _) = Return CbOk"
| "calculator_handle fl (TimerStart _) = Return CbOk"
| "calculator_handle fl TimerTick = Return CbOk"

section \<open>The ledger\<close>

definition ledger_pre_start :: "'f Child \<times> 'f Shared \<Rightarrow> 'f Child \<times> 'f Shared" where
  "ledger_pre_start = (\<lambda>(o', sh). (o', log_generation ''ledger'' sh))"

definition ledger_fetch :: "ActorRef \<Rightarrow> nat \<Rightarrow> 'f app_prog" where
  "ledger_fetch calc ch =
     Oneshot (\<lambda>tx. Tell calc (LastResult tx) (\<lambda>ok.
       if ok then Await tx (\<lambda>v. Reply ch (Last (case v of Some (Last x) \<Rightarrow> x | _ \<Rightarrow> None)) (Return CbOk))
       else Return (CbErr ''channel closed'')))"

fun ledger_handle :: "'f AppMsg \<Rightarrow> 'f app_prog" where
  "ledger_handle (LedgerFetch ch) =
     Access (\<lambda>(o', sh). ((o', sh),
       case registry_get ''calculator'' (registry sh) of
         Some calc \<Rightarrow> ledger_fetch calc ch
       | None \<Rightarrow> Reply ch (Last None) (Return CbOk)))"
| "ledger_handle _ = Return CbOk"

section \<open>The timer\<close>

definition timer_pre_start :: "'f Child \<times> 'f Shared \<Rightarrow> 'f Child \<times> 'f Shared" where
  "timer_pre_start = (\<lambda>(o', sh). (o', log_generation ''timer'' sh))"

text \<open>A task is spawned that sends one tick after the interval.\<close>

definition schedule_next :: "'f Child \<times> 'f Shared \<Rightarrow> 'f Child \<times> 'f Shared" where
  "schedule_next = (\<lambda>(o', sh).
     (o', case o' of
            TimerChild tm \<Rightarrow> (case self_ref tm of None \<Rightarrow> sh | Some r \<Rightarrow> sh\<lparr>ticks := ticks sh @ [(r, interval tm)]\<rparr>)
          | _ \<Rightarrow> sh))"

definition timer_started :: "ActorRef \<Rightarrow> 'f Child \<Rightarrow> 'f Child" where
  "timer_started r o' = (case o' of TimerChild tm \<Rightarrow> TimerChild (tm\<lparr>self_ref := Some r, running := True\<rparr>) | _ \<Rightarrow> o')"

definition timer_running :: "'f Child \<Rightarrow> bool" where
  "timer_running o' = (case o' of TimerChild tm \<Rightarrow> running tm | _ \<Rightarrow> False)"

definition timer_query :: "ActorRef \<Rightarrow> 'f app_prog" where
  "timer_query calc =
     Oneshot (\<lambda>tx. Tell calc (LastResult tx) (\<lambda>_. Await tx (\<lambda>_. Local (\<lambda>st. (schedule_next st, Return CbOk)))))"

fun timer_handle :: "'f AppMsg \<Rightarrow> 'f app_prog" where
  "timer_handle (TimerStart r) = Local (\<lambda>(o', sh). (schedule_next (timer_started r o', sh), Return CbOk))"
| "timer_handle TimerTick =
     Local (\<lambda>(o', sh). ((o', sh),
       if timer_running o'
       then Access (\<lambda>(o', sh). ((o', sh),
              case registry_get ''calculator'' (registry sh) of
                Some calc \<Rightarrow> timer_query calc
              | None \<Rightarrow> Local (\<lambda>st. (schedule_next st, Return CbOk))))
       else Return CbOk))"
| "timer_handle _ = Return CbOk"

section \<open>The application\<close>

datatype role = CalculatorRole | TimerRole | LedgerRole

fun senders :: "'f AppMsg \<Rightarrow> nat list" where
  "senders (Add _ _ ch) = [ch]"
| "senders (SlowDiv _ _ _ ch) = [ch]"
| "senders (Ping ch) = [ch]"
| "senders (SelfDeadlockProbe ch) = [ch]"
| "senders (CrossDeadlockProbe _ ch) = [ch]"
| "senders (LedgerFetch ch) = [ch]"
| "senders (LastResult ch) = [ch]"
| "senders (StuckJournal ch) = [ch]"
| "senders (TimerStart _) = []"
| "senders TimerTick = []"

definition app_code :: "'f float_ops \<Rightarrow> (ActorId \<Rightarrow> role) \<Rightarrow> ('f Child, 'f Shared, 'f AppMsg, 'f reply) Code" where
  "app_code fl roles =
     \<lparr>begin_of = (\<lambda>i m o'. if roles i = CalculatorRole then calculator_begin m o' else o'),
      handle_of = (\<lambda>i m. case roles i of
        CalculatorRole \<Rightarrow> calculator_handle fl m | TimerRole \<Rightarrow> timer_handle m | LedgerRole \<Rightarrow> ledger_handle m),
      stuck_of = (\<lambda>i st. if roles i = CalculatorRole then calculator_stuck st else st),
      senders_of = senders\<rparr>"

section \<open>What a handler may have done where it awaits\<close>

text \<open>From program \<open>p\<close>, with \<open>pending\<close> as given and shared state touched or not, every await is reached
  with \<open>pending = a\<close> and shared state untouched.\<close>

primrec calm :: "'f StuckAction option \<Rightarrow> 'f app_prog \<Rightarrow> 'f StuckAction option \<times> bool \<Rightarrow> bool" where
  "calm a (Return r) = (\<lambda>_. True)"
| "calm a (Access f) = (\<lambda>(pd, d). pd = a \<and> \<not> d \<and> (\<forall>st. pending_of (fst st) = pd \<longrightarrow>
     (case map_prod id (calm a) (f st) of ((o', sh'), g) \<Rightarrow> g (pending_of o', d \<or> sh' \<noteq> snd st))))"
| "calm a (Local f) = (\<lambda>(pd, d). \<forall>st. pending_of (fst st) = pd \<longrightarrow>
     (case map_prod id (calm a) (f st) of ((o', sh'), g) \<Rightarrow> g (pending_of o', d \<or> sh' \<noteq> snd st)))"
| "calm a (Tell r m k) = (\<lambda>(pd, d). pd = a \<and> \<not> d \<and> (\<forall>b. calm a (k b) (pd, d)))"
| "calm a (Oneshot k) = (\<lambda>(pd, d). \<forall>c. calm a (k c) (pd, d))"
| "calm a (Reply c v p) = calm a p"
| "calm a (Await c k) = (\<lambda>(pd, d). pd = a \<and> \<not> d \<and> (\<forall>v. calm a (k v) (pd, d)))"
| "calm a (Sleep t p) = (\<lambda>(pd, d). pd = a \<and> \<not> d \<and> calm a p (pd, d))"
| "calm a Forever = (\<lambda>(pd, d). pd = a \<and> \<not> d)"

lemma calm_store: "calm a (store_result v ch) (a, False)"
  by (auto simp: store_result_def)

lemma calculator_calm: "calm (from_msg m) (calculator_handle fl m) (from_msg m, False)"
  by (cases m) (auto simp: calm_store self_probe_def cross_probe_def split: option.splits)

text \<open>Steps of the site in which actor \<open>i\<close> stays in its handler; in the quiet ones the handler did not
  change what the actors share.\<close>

definition works :: "('o, 'sh, 'm, 'v) Code \<Rightarrow> ActorId \<Rightarrow> ('o, 'sh, 'm, 'v) Site \<Rightarrow> ('o, 'sh, 'm, 'v) Site \<Rightarrow> bool" where
  "works code i s s' \<longleftrightarrow> runs s i \<noteq> None \<and> runs s' i \<noteq> None \<and> (\<exists>e. site_step code e s s')"

definition quietly :: "('o, 'sh, 'm, 'v) Code \<Rightarrow> ActorId \<Rightarrow> ('o, 'sh, 'm, 'v) Site \<Rightarrow> ('o, 'sh, 'm, 'v) Site \<Rightarrow> bool" where
  "quietly code i s s' \<longleftrightarrow> runs s i \<noteq> None \<and> runs s' i \<noteq> None \<and>
     (\<exists>e. site_step code e s s' \<and> (e = Handler i \<longrightarrow> shared s' = shared s))"

definition calm_site :: "ActorId \<Rightarrow> 'f StuckAction option \<Rightarrow> bool \<Rightarrow> ('f Child, 'f Shared, 'f AppMsg, 'f reply) Site \<Rightarrow> bool" where
  "calm_site i a d s \<longleftrightarrow> (\<exists>p hs. runs s i = Some (p, hs) \<and> calm a p (pending_of (own s i), d))"

lemma pending_set [simp]: "pending_of (set_pending None o') = None"
  by (simp add: pending_of_def set_pending_def split: Child.splits)

lemma ended_timeout: "site_step code (Timeout i) s s' \<Longrightarrow> runs s' i = None"
  by (cases rule: site_step.cases) (auto simp: end_actor_eq)

lemma calm_access:
  assumes "f (o1, sh1) = ((o', sh'), p)"
  shows "calm a (Access f) (pending_of o1, d) \<Longrightarrow> calm a p (pending_of o', d \<or> sh' \<noteq> sh1)"
    and "calm a (Local f) (pending_of o1, d) \<Longrightarrow> calm a p (pending_of o', d \<or> sh' \<noteq> sh1)"
  unfolding calm.simps prod.case using assms by (auto dest!: spec [of _ "(o1, sh1)"] simp only: fst_conv snd_conv map_prod_simp id_apply prod.case)

lemma calm_step:
  assumes st: "site_step code (Handler i) s s'" and c: "calm_site i a d s" and w: "runs s' i \<noteq> None"
  shows "calm_site i a (d \<or> shared s' \<noteq> shared s) s'"
proof -
  note unf = calm_site_def set_run_def set_box_def
  from st show ?thesis
  proof (cases rule: site_step.cases)
    case (access f hs o' sh' p)
    then show ?thesis using c calm_access(1) [of f "own s i" "shared s" o' sh' p a d] by (auto simp: unf)
  next
    case (local f hs o' sh' p)
    then show ?thesis using c calm_access(2) [of f "own s i" "shared s" o' sh' p a d] by (auto simp: unf)
  next
    case (fails r hs)
    then show ?thesis using w by (simp add: end_actor_eq)
  next
    case (finish hs)
    then show ?thesis using w by (simp add: set_run_def)
  qed (use c in \<open>auto simp: unf\<close>)
qed

lemma awaits_calm: "at_await p \<Longrightarrow> calm a p (pd, d) \<Longrightarrow> pd = a \<and> \<not> d"
  by (cases p) auto

lemma calm_works:
  assumes "works code i s s'" and c: "calm_site i a d s"
  shows "(quietly code i s s' \<and> calm_site i a d s') \<or> calm_site i a True s'"
proof -
  obtain e where st: "site_step code e s s'" and w: "runs s i \<noteq> None" "runs s' i \<noteq> None"
    using assms(1) by (auto simp: works_def)
  show ?thesis
  proof (cases "e = Handler i")
    case True
    then show ?thesis using calm_step [of code i s s' a d] st c w by (cases "shared s' = shared s") (auto simp: quietly_def)
  next
    case False
    moreover have "e \<noteq> Timeout i" using st w(2) ended_timeout [of code i s s'] by auto
    ultimately show ?thesis using others_step(1,2) [OF st] c st w by (auto simp: calm_site_def quietly_def)
  qed
qed

lemma calm_run:
  assumes "(works code i)\<^sup>*\<^sup>* s s'" and "calm_site i a False s"
  shows "((quietly code i)\<^sup>*\<^sup>* s s' \<and> calm_site i a False s') \<or> calm_site i a True s'"
  using assms
proof (induction rule: rtranclp_induct)
  case (step y z)
  show ?case
  proof (cases "calm_site i a True y")
    case True
    then show ?thesis using calm_works [OF step.hyps(2), of a True] by blast
  next
    case False
    then have "(quietly code i)\<^sup>*\<^sup>* s y" "calm_site i a False y" using step.IH step.prems by blast+
    then show ?thesis using calm_works [OF step.hyps(2), of a False] by (blast intro: rtranclp.rtrancl_into_rtrancl)
  qed
qed simp


lemma stuck_journals:
  assumes "site_step (app_code fl roles) (Timeout i) s s'" and "roles i = CalculatorRole"
  shows "stuck_actions (state (shared s')) =
      stuck_actions (state (shared s)) @ (case pending_of (own s i) of Some a \<Rightarrow> [a] | None \<Rightarrow> [])"
    and "last_result (state (shared s')) = last_result (state (shared s))" and "pending_of (own s' i) = None"
    and "boxes s' i = map_option close (boxes s i)" and "runs s' i = None"
  using assms
  by (auto elim!: site_step.cases simp: app_code_def calculator_stuck_def push_stuck_def end_actor_eq split: option.splits)

lemma asking_progs:
  assumes "(i = j \<and> runs s i = Some (self_probe \<lparr>ref_id = i\<rparr> ch, hs)) \<or>
       (i \<noteq> j \<and> runs s i = Some (Forever, hs) \<and> runs s j = Some (ledger_fetch \<lparr>ref_id = i\<rparr> q, hs'))"
  shows "\<exists>mk k err. (\<forall>tx. senders_of (app_code fl roles) (mk tx) = [tx]) \<and> asks (app_code fl roles) i j ch mk k err s"
  using assms
proof (elim disjE conjE)
  assume "i = j" "runs s i = Some (self_probe \<lparr>ref_id = i\<rparr> ch, hs)"
  then show ?thesis by (intro exI [of _ Ping] exI conjI) (simp add: app_code_def, simp add: asks_def ask_def self_probe_def)
next
  assume "runs s j = Some (ledger_fetch \<lparr>ref_id = i\<rparr> q, hs')"
  then show ?thesis by (intro exI [of _ LastResult] exI conjI) (simp add: app_code_def, simp add: asks_def ask_def ledger_fetch_def)
qed

text \<open>C30. The inputs of a timed-out handler reach the journal, and its effects do not reach the results: when a
  calculator is dropped while it handles \<open>m\<close>, at any await and whatever the others did meanwhile,
  \<open>on_handle_stuck\<close> appends exactly the inputs of \<open>m\<close> (nothing for a message without inputs), the last
  result stays, none of the handler's own steps had changed what the actors share, and the actor is gone
  with its mailbox closed.
\<close>

theorem timeout_journals_inputs:
  fixes s0 s1 s2 s3 :: "('f Child, 'f Shared, 'f AppMsg, 'f reply) Site"
  assumes role: "roles i = CalculatorRole"
    and idle: "runs s0 i = None" "boxes s0 i = Some ch" "queue ch = m # q" "own s0 i = CalculatorChild c"
    and take: "site_step (app_code fl roles) (Handler i) s0 s1"
    and work: "(works (app_code fl roles) i)\<^sup>*\<^sup>* s1 s2"
    and timeout: "site_step (app_code fl roles) (Timeout i) s2 s3"
  shows "stuck_actions (state (shared s3)) =
           stuck_actions (state (shared s2)) @ (case from_msg m of Some a \<Rightarrow> [a] | None \<Rightarrow> [])
    \<and> last_result (state (shared s3)) = last_result (state (shared s2))
    \<and> (quietly (app_code fl roles) i)\<^sup>*\<^sup>* s1 s2
    \<and> pending_of (own s3 i) = None \<and> runs s3 i = None
    \<and> (\<forall>b. boxes s3 i = Some b \<longrightarrow> \<not> rx_open b \<and> queue b = [])"
proof -
  let ?code = "app_code fl roles"
  have "own s1 i = calculator_begin m (own s0 i)" "runs s1 i = Some (calculator_handle fl m, senders m)"
    using take idle role by (auto elim: site_step.cases simp: set_run_def set_box_def app_code_def)
  then have c1: "calm_site i (from_msg m) False s1"
    using idle calculator_calm [of m fl] by (simp add: calm_site_def calculator_begin_def set_pending_def pending_of_def)
  have t: "calm_site i (from_msg m) d s2 \<Longrightarrow> pending_of (own s2 i) = from_msg m \<and> \<not> d" for d
    using timeout by (auto elim!: site_step.cases simp: calm_site_def dest: awaits_calm)
  have q: "(quietly ?code i)\<^sup>*\<^sup>* s1 s2" "pending_of (own s2 i) = from_msg m"
    using calm_run [OF work c1] t by blast+
  show ?thesis using stuck_journals [OF timeout role] q by (auto simp: close_def)
qed

text \<open>An idle site with one calculator whose mailbox holds a slow division.\<close>

definition demo_site :: "int AppMsg list \<Rightarrow> (int Child, int Shared, int AppMsg, int reply) Site" where
  "demo_site ms =
     \<lparr>own = (\<lambda>_. CalculatorChild \<lparr>pending = None\<rparr>),
      shared = \<lparr>state = SharedState_default, registry = track ''calculator'' \<lparr>ref_id = 1\<rparr> ChildRegistry_new, ticks = []\<rparr>,
      boxes = [1 \<mapsto> \<lparr>cap = 4, queue = ms, rx_open = True\<rparr>], runs = Map.empty,
      oneshots = (\<lambda>_. Waiting), next_chan = 1\<rparr>"

theorem timeout_journals_inputs_witness:
  "\<exists>s1 s2 s3. site_step (app_code int_ops (\<lambda>_. CalculatorRole)) (Handler 1) (demo_site [SlowDiv 20 4 400 0]) s1
    \<and> works (app_code int_ops (\<lambda>_. CalculatorRole)) 1 s1 s2
    \<and> site_step (app_code int_ops (\<lambda>_. CalculatorRole)) (Timeout 1) s2 s3
    \<and> stuck_actions (state (shared s3)) = [StuckSlowDiv 20 4 400] \<and> last_result (state (shared s3)) = None"
proof -
  let ?m = "SlowDiv 20 4 400 0 :: int AppMsg" and ?code = "app_code int_ops (\<lambda>_. CalculatorRole)"
  let ?s0 = "demo_site [?m]"
  let ?s1 = "set_run 1 (Some (calculator_handle int_ops ?m, [0])) (set_box 1 \<lparr>cap = 4, queue = [], rx_open = True\<rparr>
      (?s0\<lparr>own := (own ?s0)(1 := calculator_begin ?m (own ?s0 1))\<rparr>))"
  let ?s2 = "set_run 1 (Some (store_result 5 0, [0])) ?s1"
  have 1: "site_step ?code (Handler 1) ?s0 ?s1"
    using site_step.take [of ?s0 1 _ ?m "[]" ?code] by (simp add: demo_site_def app_code_def)
  have 2: "works ?code 1 ?s1 ?s2"
    using site_step.sleep [of ?s1 1 "millis 400" "store_result 5 0" "[0]" ?code]
    by (auto simp: works_def set_run_def set_box_def int_ops_def)
  obtain s3 where 3: "site_step ?code (Timeout 1) ?s2 s3"
    using timeout_enabled [of ?s2 1 "store_result 5 0" "[0]"] by (auto simp: set_run_def store_result_def)
  have "stuck_actions (state (shared s3)) = [StuckSlowDiv 20 4 400] \<and> last_result (state (shared s3)) = None"
    using timeout_journals_inputs [OF _ _ _ _ _ 1 r_into_rtranclp [of "works ?code 1", OF 2] 3, of "\<lparr>cap = 4, queue = [?m], rx_open = True\<rparr>" ?m "[]" "\<lparr>pending = None\<rparr>"]
    by (simp add: demo_site_def set_run_def set_box_def SharedState_default_def)
  then show ?thesis using 1 2 3 by blast
qed

text \<open>C31. The two deadlocks, and what breaks them. A calculator that awaits a \<open>Ping\<close> to itself, or one that waits
  forever while the ledger asks it for its last result, and the actor that asks it, stay in their handlers
  and the caller of the probe gets no answer, however the other actors and the clients move; a timeout of
  the calculator can happen or its handler can move towards its next await. When it happens, the probe is
  journaled, the calculator ends, the caller's receive fails, and the ledger has a step again.
\<close>

theorem deadlock_until_timeout:
  fixes s :: "('f Child, 'f Shared, 'f AppMsg, 'f reply) Site"
  assumes role: "roles i = CalculatorRole"
    and reply: "site_ok (app_code fl roles) s" "confined (app_code fl roles) {i, j} ch s" "ch \<in> set hs"
    and box: "boxes s i = Some b" "rx_open b"
    and runs: "(i = j \<and> runs s i = Some (self_probe \<lparr>ref_id = i\<rparr> ch, hs)) \<or>
       (i \<noteq> j \<and> runs s i = Some (Forever, hs) \<and> runs s j = Some (ledger_fetch \<lparr>ref_id = i\<rparr> q, hs'))"
    and pending: "pending_of (own s i) = Some a"
    and steps: "(patient_step (app_code fl roles) {i, j})\<^sup>*\<^sup>* s s'"
  shows "runs s' i \<noteq> None \<and> runs s' j \<noteq> None \<and> oneshots s' ch = Waiting
    \<and> ((\<exists>s''. site_step (app_code fl roles) (Timeout i) s' s'') \<or> (\<exists>s''. site_step (app_code fl roles) (Handler i) s' s''))
    \<and> (\<forall>s''. site_step (app_code fl roles) (Timeout i) s' s'' \<longrightarrow>
         stuck_actions (state (shared s'')) = stuck_actions (state (shared s')) @ [a]
         \<and> runs s'' i = None \<and> oneshots s'' ch = Gone
         \<and> (i \<noteq> j \<longrightarrow> (\<exists>s3. site_step (app_code fl roles) (Handler j) s'' s3)))"
proof -
  let ?code = "app_code fl roles"
  obtain mk k err where mk: "\<And>tx. senders_of ?code (mk tx) = [tx]" and asks: "asks ?code i j ch mk k err s"
    using asking_progs [OF runs] by blast
  have "busy ?code i j ch s" using reply box runs by (auto simp: busy_def run_senders_def)
  from deadlock [OF this asks mk steps]
  have d: "busy ?code i j ch s'" "asks ?code i j ch mk k err s'" "own s' i = own s i" by simp_all
  have "runs s' i \<noteq> None" "runs s' j \<noteq> None" "oneshots s' ch = Waiting"
    using d(1,2) by (auto simp: busy_def asks_def confined_def run_senders_def split: option.splits)
  moreover have "(\<exists>s''. site_step ?code (Timeout i) s' s'') \<or> (\<exists>s''. site_step ?code (Handler i) s' s'')"
    by (rule busy_moves [OF d(1,2)])
  moreover have "stuck_actions (state (shared s'')) = stuck_actions (state (shared s')) @ [a]"
    if "site_step ?code (Timeout i) s' s''" for s''
    using stuck_journals [OF that] role d(3) pending by simp
  ultimately show ?thesis using deadlock_broken [OF d(1,2) mk] by blast
qed

text \<open>The cross deadlock on a concrete site: calculator 1 waits forever, ledger 2 has taken the fetch.\<close>

definition cross_site :: "(int Child, int Shared, int AppMsg, int reply) Site" where
  "cross_site = (demo_site [])\<lparr>own := (\<lambda>i. if i = 1 then CalculatorChild \<lparr>pending = Some (StuckCrossDeadlock 99)\<rparr> else LedgerChild),
     boxes := [1 \<mapsto> \<lparr>cap = 4, queue = [], rx_open = True\<rparr>, 2 \<mapsto> \<lparr>cap = 4, queue = [], rx_open = True\<rparr>],
     runs := [1 \<mapsto> (Forever, [0]), 2 \<mapsto> (ledger_fetch \<lparr>ref_id = 1\<rparr> 1, [1])], next_chan := 2\<rparr>"

theorem deadlock_until_timeout_witness:
  "oneshots cross_site 0 = Waiting \<and>
   (\<exists>s'' s3. site_step (app_code int_ops (\<lambda>i. if i = 1 then CalculatorRole else LedgerRole)) (Timeout 1) cross_site s''
      \<and> stuck_actions (state (shared s'')) = [StuckCrossDeadlock 99] \<and> oneshots s'' 0 = Gone
      \<and> site_step (app_code int_ops (\<lambda>i. if i = 1 then CalculatorRole else LedgerRole)) (Handler 2) s'' s3)"
proof -
  let ?roles = "\<lambda>i. if i = 1 then CalculatorRole else LedgerRole"
  have h: "site_ok (app_code int_ops ?roles) cross_site" "confined (app_code int_ops ?roles) {1, 2} 0 cross_site"
    "boxes cross_site 1 = Some \<lparr>cap = 4, queue = [], rx_open = True\<rparr>" "runs cross_site 1 = Some (Forever, [0])"
    "runs cross_site 2 = Some (ledger_fetch \<lparr>ref_id = 1\<rparr> 1, [1])" "pending_of (own cross_site 1) = Some (StuckCrossDeadlock 99)"
    by (auto simp: site_ok_def confined_def held_def run_senders_def box_senders_def cross_site_def demo_site_def pending_of_def
        split: if_splits option.splits)
  obtain s'' where "site_step (app_code int_ops ?roles) (Timeout 1) cross_site s''"
    using timeout_enabled [OF h(4)] by auto
  moreover have "stuck_actions (state (shared cross_site)) = []" by (simp add: cross_site_def demo_site_def SharedState_default_def)
  ultimately show ?thesis
    using deadlock_until_timeout [of ?roles 1 int_ops cross_site 2 0 "[0]" _ 1 "[1]" "StuckCrossDeadlock 99" cross_site] h by auto
qed

end
