(* ===== verification/Timeout_App.thy ===== *)
theory Timeout_App
  imports Supervised_App Timeout_Calculator
begin

text \<open>
  The application around the actors of \<open>Timeout_Calculator\<close>: \<open>SupervisedApp\<close> of
  \<open>examples/handle_timeout_calculator_timer.rs\<close>, its start and its clients. The actors it builds are
  parameters here, as for the other supervised applications; \<open>chan\<close> is the client's reply channel and
  \<open>reply\<close> what it yields, \<open>None\<close> when the actor dropped the sender. A client is \<open>None\<close> while the mailbox it
  sends to is full.
\<close>

record SupervisedApp =
  app_registry :: nat
  app_supervisor :: SupervisorHandle

definition app_actor_config :: ActorConfig where
  "app_actor_config =
     ActorConfig_default\<lparr>handle_timeout := Some HANDLE_TIMEOUT, slow_handle_threshold := Some HANDLE_TIMEOUT\<rparr>"

definition app_supervisor_config :: SupervisorConfig where
  "app_supervisor_config = SupervisorConfig_default\<lparr>strategy := RestForOne, max_restarts := 20, within_secs := 60\<rparr>"

definition SupervisedApp_start ::
  "('a, 'm) DynActor \<Rightarrow> ('a, 'm) DynActor \<Rightarrow> ('a, 'm) DynActor \<Rightarrow> nat \<Rightarrow> nat \<Rightarrow> ('a, 'm, string) Env
     \<Rightarrow> ((string + SupervisedApp \<times> ('a, 'm, string) SupTask) \<times> ('a, 'm, string) Env) outcome" where
  "SupervisedApp_start calc timer ledger reg tx env =
     (case app_start (millis 50) app_actor_config app_supervisor_config
             [(''calculator'', calc), (''timer'', timer), (''ledger'', ledger)] reg tx env of
        Panics e \<Rightarrow> Panics e
      | Returns (Inl e, env') \<Rightarrow> Returns (Inl e, env')
      | Returns (Inr (h, task), env') \<Rightarrow> Returns (Inr (\<lparr>app_registry = reg, app_supervisor = h\<rparr>, task), env'))"

definition start_timer ::
  "SupervisedApp \<Rightarrow> ('a, 'f AppMsg, string) Env \<Rightarrow> ((string + unit) \<times> ('a, 'f AppMsg, string) Env) option" where
  "start_timer app env =
     (case registry_get ''timer'' (registries env (app_registry app)) of
        None \<Rightarrow> Some (Inl ''timer not running'', env)
      | Some r \<Rightarrow>
          (case ref_send r (TimerStart r) (world env) of
             None \<Rightarrow> None
           | Some (ok, w) \<Rightarrow> Some (if ok then Inr () else Inl ''channel closed'', env\<lparr>world := w\<rparr>)))"

text \<open>What the clients share: ask the current calculator, and what they say when the reply is dropped.\<close>

definition ask_calculator ::
  "(nat \<Rightarrow> 'm) \<Rightarrow> string \<Rightarrow> SupervisedApp \<Rightarrow> nat \<Rightarrow> 'r option \<Rightarrow> ('a, 'm, string) Env
     \<Rightarrow> ((string + 'r) \<times> ('a, 'm, string) Env) option" where
  "ask_calculator mk lost app chan reply env =
     (case registry_get ''calculator'' (registries env (app_registry app)) of
        None \<Rightarrow> Some (Inl ''calculator not running'', env)
      | Some r \<Rightarrow>
          (case ref_send r (mk chan) (world env) of
             None \<Rightarrow> None
           | Some (False, w) \<Rightarrow> Some (Inl ''channel closed'', env\<lparr>world := w\<rparr>)
           | Some (True, w) \<Rightarrow> Some (case reply of Some x \<Rightarrow> Inr x | None \<Rightarrow> Inl lost, env\<lparr>world := w\<rparr>)))"

text \<open>Two arrows in the messages, as UTF-8.\<close>

definition arrow :: string where
  "arrow = [CHR 0xE2, CHR 0x86, CHR 0x92]"

definition both_ways :: string where
  "both_ways = [CHR 0xE2, CHR 0x86, CHR 0x94]"

definition add ::
  "SupervisedApp \<Rightarrow> 'f \<Rightarrow> 'f \<Rightarrow> nat \<Rightarrow> (string + 'f) option \<Rightarrow> ('a, 'f AppMsg, string) Env
     \<Rightarrow> ((string + 'f) \<times> ('a, 'f AppMsg, string) Env) option" where
  "add app a b chan reply env =
     (case ask_calculator (Add a b) ''calculator dropped reply'' app chan reply env of
        None \<Rightarrow> None
      | Some (Inl e, env') \<Rightarrow> Some (Inl e, env')
      | Some (Inr r, env') \<Rightarrow> Some (r, env'))"

definition slow_div ::
  "SupervisedApp \<Rightarrow> 'f \<Rightarrow> 'f \<Rightarrow> u64 \<Rightarrow> nat \<Rightarrow> (string + 'f) option \<Rightarrow> ('a, 'f AppMsg, string) Env
     \<Rightarrow> ((string + (string + 'f)) \<times> ('a, 'f AppMsg, string) Env) option" where
  "slow_div app a b delay_ms chan reply env =
     ask_calculator (SlowDiv a b delay_ms) (''handle_timeout broke slow handler (HandleTimeout '' @ arrow @ '' supervisor restart)'') app chan reply env"

definition probe_self_deadlock ::
  "SupervisedApp \<Rightarrow> nat \<Rightarrow> (string + unit) option \<Rightarrow> ('a, 'f AppMsg, string) Env
     \<Rightarrow> ((string + (string + unit)) \<times> ('a, 'f AppMsg, string) Env) option" where
  "probe_self_deadlock app chan reply env =
     ask_calculator SelfDeadlockProbe ''handle_timeout broke self-deadlock (calculator restarted)'' app chan reply env"

definition probe_cross_deadlock ::
  "SupervisedApp \<Rightarrow> 'f \<Rightarrow> nat \<Rightarrow> (string + unit) option \<Rightarrow> ('a, 'f AppMsg, string) Env
     \<Rightarrow> ((string + (string + unit)) \<times> ('a, 'f AppMsg, string) Env) option" where
  "probe_cross_deadlock app amount chan reply env =
     ask_calculator (CrossDeadlockProbe amount) (''handle_timeout broke calc'' @ both_ways @ ''ledger deadlock (supervisor restart)'') app chan reply env"

definition stuck_journal ::
  "SupervisedApp \<Rightarrow> nat \<Rightarrow> 'f StuckAction list option \<Rightarrow> ('a, 'f AppMsg, string) Env
     \<Rightarrow> ((string + 'f StuckAction list) \<times> ('a, 'f AppMsg, string) Env) option" where
  "stuck_journal app chan reply env = ask_calculator StuckJournal ''calculator dropped stuck journal reply'' app chan reply env"

section \<open>Recovery\<close>

text \<open>What happens at the supervisor when the calculator times out: the three instances are replaced, the
  registry names the new ones, and the generation of each went up by two since its first instance.\<close>

lemma app_recovers:
  assumes now: "instant_sub now 60 = Returns lo"
  shows "\<exists>app task env1 s2 env2. SupervisedApp_start calc timer ledger reg tx env = Returns (Inr (app, task), env1)
    \<and> sup_turn tx app_supervisor_config app_actor_config
        (Signal now \<lparr>child_id = ref_id (initial_refs (app_supervisor app) ! 0), sig_reason = why\<rparr>)
        (task, fold (bump_env reg) [''calculator'', ''timer'', ''ledger''] env1) = Some (s2, env2)
    \<and> (\<forall>n \<in> {''calculator'', ''timer'', ''ledger''}.
        generation n (registries (fold (bump_env reg) [''calculator'', ''timer'', ''ledger''] env2) reg) = 4)
    \<and> registry_get ''calculator'' (registries env2 (app_registry app)) = Some (current_refs s2 ! 0)"
proof -
  let ?cs = "[(''calculator'', calc), (''timer'', timer), (''ledger'', ledger)]"
  have cfg: "sup_mailbox_capacity app_supervisor_config \<noteq> 0" "0 < mailbox_capacity app_actor_config"
    "instant_sub now (within_secs app_supervisor_config) = Returns lo" "0 < max_restarts app_supervisor_config"
    "hit (strategy app_supervisor_config) 0 (length ?cs) = [0, 1, 2]"
    using now by (simp_all add: app_supervisor_config_def app_actor_config_def SupervisorConfig_default_def ActorConfig_default_def upt_rec)
  have d: "distinct (map fst ?cs)" "0 < length ?cs" "length ?cs \<le> 2 ^ 64" "distinct [''calculator'', ''timer'', ''ledger'']"
    "set [''calculator'', ''timer'', ''ledger''] = fst ` set ?cs"
    "set [''calculator'', ''timer'', ''ledger''] = (\<lambda>i. fst (?cs ! i)) ` set (hit (strategy app_supervisor_config) 0 (length ?cs))"
    unfolding cfg(5) by auto
  from app_generations [OF d(1-3) cfg(1-4) d(4,5,4,6), unfolded cfg(5), of "millis 50" reg tx env why]
  obtain h task env1 s2 env2 where "app_start (millis 50) app_actor_config app_supervisor_config ?cs reg tx env = Returns (Inr (h, task), env1)"
    "sup_turn tx app_supervisor_config app_actor_config (Signal now \<lparr>child_id = ref_id (initial_refs h ! 0), sig_reason = why\<rparr>)
       (task, fold (bump_env reg) [''calculator'', ''timer'', ''ledger''] env1) = Some (s2, env2)"
    "\<forall>i < length ?cs. generation (fst (?cs ! i)) (registries (fold (bump_env reg) [''calculator'', ''timer'', ''ledger''] env2) reg) = 4
      \<and> registry_get (fst (?cs ! i)) (registries env2 reg) = Some (current_refs s2 ! i)"
    by (auto simp: all_less_three)
  then show ?thesis by (intro exI [of _ "\<lparr>app_registry = reg, app_supervisor = h\<rparr>"] exI [of _ task] exI [of _ env1] exI [of _ s2] exI [of _ env2])
    (simp add: SupervisedApp_start_def all_less_three)
qed

end
