(* ===== verification/Spec2Isabelle.thy ===== *)
theory Spec2Isabelle
  imports Link_Deadlock Mailbox Mesh_Launch Journal Timeout_App
begin

text \<open>
  Verification of \<open>lane_switchboards\<close>, an actor runtime in Rust: actors with mailboxes, links and
  monitors, supervision trees, remote messaging over TCP, consistent-hash clusters, a service mesh with a
  lease-based registry, and optional TLS. Files below are under \<open>src/\<close> of the crate.

  \<^bold>\<open>The parts and their theories.\<close>

  \<^item> \<open>Prelude\<close>: machine integers, I/O errors, calls that may panic, and the parts of the Rust standard
    library in use (\<open>HashMap\<close>, \<open>BTreeMap\<close>, \<open>Vec::swap_remove\<close>, string splitting, decimal parsing, \<open>Debug\<close>
    formatting). It states the interfaces as locales: \<open>finite_map\<close> (interpreted for both map models),
    \<open>directory\<close> (interpreted for the roster of a service, the mesh and the registry), \<open>step_invariant\<close>
    and \<open>conserving\<close> (interpreted for the actor system, a node's dispatch, a served actor, the supervisor
    task, a pair of linked actors, and the history of a mailbox), and \<open>terminating\<close> (interpreted for the
    intake of a served actor).
  \<^item> \<open>Config\<close> (\<open>config.rs\<close>): tuning records and their defaults.
  \<^item> \<open>Monitor\<close>, \<open>Registry\<close> (\<open>monitor.rs\<close>, \<open>registry.rs\<close>): the process-wide counters and the index of actors.
  \<^item> \<open>Actor\<close> (\<open>actor.rs\<close>): the runtime. \<open>World\<close> holds all tasks with their mailboxes and control channels,
    the registry, the counters and the supervisor channels. \<open>run_actor\<close> is a task with the list of actions
    it has still to do; \<open>astep\<close> lets any task do its next action, and anyone spawn, send, or drop a
    reference. Shown: the life cycle invariant, the outcome of handling one message on every branch, that
    leaving informs monitors and links.
  \<^item> \<open>Link_Deadlock\<close>: two actors linking to each other over full control channels wait forever.
  \<^item> \<open>Mailbox\<close> (the envelope branch of \<open>run_actor\<close>; \<open>examples/hot_upgrade.rs\<close>): the history of one mailbox.
    Shown: envelopes are taken first in, first out, none twice and none lost while the actor runs, and the
    state of a waiting actor is its handlers folded over them, an upgrade taking effect at its place; and a
    linked exit is taken before anything in the mailbox, and cascades.
  \<^item> \<open>Child_Registry\<close>, \<open>Supervisor\<close>, \<open>Supervision\<close> (\<open>supervisor.rs\<close>, \<open>macros.rs\<close>): names and generations of
    children, child specs, start, the reaction to a restart signal, the three strategies, shutdown; then
    the supervisor on top of the runtime. Shown: every strategy refines one contract over its restart set,
    the intensity window is exactly the signals of the last seconds, start order, the slots keep their
    shape, every signal is processed without a panic (a shutdown may wait for a full mailbox), shutdown reaches every child, and a restart leaves the old
    tasks as they were.
  \<^item> \<open>Hash_Ring\<close> (\<open>hash_ring.rs\<close>): the ring as a sorted map. Shown: routing equals the clockwise nearest
    point, replicas equal the first distinct nodes of the walk, and minimal disruption by joins and leaves.
  \<^item> \<open>Frames\<close>, \<open>Remote\<close>, \<open>Cluster\<close>, \<open>Node_Server\<close>, \<open>Serve\<close> (\<open>distributed.rs\<close>, and the servers of \<open>mesh.rs\<close>):
    frames on byte streams that may end, stall or fail; the reconnecting write loop; the dispatch tasks and
    their semaphore; key routing and broadcast; the accept loops; the bridge into a served actor. The write
    queues and the channels of a node are bounded as in the code: \<open>w_queue\<close> and \<open>w_hand\<close> are the queue of a
    write loop and the message it is writing, \<open>channels\<close> those of a node, \<open>sv_hand\<close> the message the bridge
    sends on. Shown: frame round trips and truncation, conservation of messages on both sides (a failed
    write loses the one message being written), the load limit, consistency of routing, how far a broadcast
    gets, and what reaches the mailbox of a served actor.
  \<^item> \<open>Intake\<close>, \<open>Request_Path\<close>: what the parts do together. \<open>Intake\<close> bounds the steps a served actor's node
    and bridge can take on what has arrived, so the intake comes to rest, with everything handed on or
    waiting in turn for a full mailbox; \<open>Request_Path\<close> follows one request
    from \<open>invoke\<close> in a mesh through routing, the write loop, the wire, the node and the bridge into the
    mailbox of the actor.
  \<^item> \<open>Mesh\<close>, \<open>Mesh_Control\<close> (\<open>mesh.rs\<close>): the service table and its snapshots; the registry with leases, its
    wire protocol, client and router. Shown: the contents of the mesh after every operation, listings equal
    the live leases under every interleaving, and discovery end to end.
  \<^item> \<open>Tls\<close> (\<open>tls.rs\<close>): plain-or-TLS streams and configuration from PEM files. Shown: no silent
    downgrade, and the crypto provider is installed once.
  \<^item> \<open>Float_Ops\<close>, \<open>Journal\<close> (\<open>examples/recoverable_timer_calc.rs\<close>): a calculator that journals each operation
    before it computes and replays the journal when it is restarted, run under a supervisor. Shown: what it
    remembers and what it leaves pending after any history of messages and crashes.
  \<^item> \<open>Handlers\<close>, \<open>Timeout_Calculator\<close> (\<open>examples/handle_timeout_calculator_timer.rs\<close>): handlers that send and
    await as programs, sites of actors that run them one message at a time, reply channels with ownership.
    Shown: a handle timeout journals exactly the inputs of the message it interrupts and none of its effects,
    and the two deadlocks of the example last until a timeout breaks them.
  \<^item> \<open>Supervised_App\<close> (\<open>examples/supervisor_strategies.rs\<close>), \<open>Timeout_App\<close> (the application and the clients of
    \<open>examples/handle_timeout_calculator_timer.rs\<close>): children with names over one registry, started and
    restarted. Shown: which children a failure replaces under each strategy, that the registry names the
    current instances, and that the generation of a child grows by two with each instance.
  \<^item> \<open>Mesh_Launch\<close> (\<open>examples/service_mesh.rs\<close>): the services of the mesh demo and the launch of an instance.
    Shown: what the local mesh and the registry know after a launch, failures included.

  \<^bold>\<open>Conventions.\<close> Counters, ids, lengths and times keep their width where they can wrap (\<open>u16\<close>, \<open>u32\<close>,
  \<open>u64\<close> are words); durations and monotonic clock readings are nanoseconds in \<open>nat\<close> and \<open>int\<close>. A panic is
  the value \<open>Panics\<close>; an I/O result is a sum with the error on the left. An operation that would wait is
  \<open>None\<close>, or a step that is not enabled. Iteration over a hash map takes its order from a parameter, an
  arbitrary permutation. User code (the actor callbacks, the factories of child specs), the Murmur3 hash,
  \<open>serde_json\<close>, sockets, files, \<open>rustls\<close> and the clock are parameters; the only law assumed of one of them
  is that decoding undoes encoding, and each theorem that assumes it is instantiated with a concrete codec.

  \<^bold>\<open>Termination.\<close> No definition uses fuel. The loops that read a connection are total because every turn
  consumes bytes; the loops over rosters, rings and slots are structural; the intake of a served actor is
  bounded by a measure on what it has queued. Loops that run forever by design
  (the actor loop, the write loop, accept loops, the supervisor task) are given by their single turns and
  by step relations over all interleavings.

  \<^bold>\<open>Limits.\<close> Fewer than \<open>2 ^ 64\<close> actors are spawned (\<open>astep\<close> spawns while the id counter has not wrapped);
  the panics of \<open>Vec::with_capacity\<close> in \<open>get_nodes\<close> and of \<open>Semaphore::new\<close> in \<open>Node::bind\<close> for sizes beyond
  what Rust and Tokio allow are left out; a send on a control channel looks its peer up when it completes,
  where the code has done so before waiting for room; the effect of \<open>pre_start\<close> on the registry of the
  supervised examples is applied beside the run of the actors (\<open>bump_env\<close>).

  \<^bold>\<open>Not modelled.\<close> Logging; the Tokio scheduler beyond interleaving at await points; \<open>lib.rs\<close>, which only re-exports; the other example programs, and the printing and the \<open>main\<close> functions
  of the modelled ones; the tests. Floating-point arithmetic is a parameter.
\<close>

end
